(* ===== verification/Prelude.thy ===== *)
theory Prelude
  imports Main "HOL-Library.Word"
begin

unbundle bit_operations_syntax

text \<open>
  Shared vocabulary of the development.

  Machine integers are words of the source's width.  A byte slice \<open>&[u8]\<close> is a list of
  8-bit words.  \<open>wbits\<close> lists the bits of a word from the most significant one, which is
  the order in which network prefixes read an address; \<open>to_be_bytes\<close> and
  \<open>from_be_bytes\<close> are the big-endian conversions of the Rust integer types.  The lemmas
  connect the three views, so that the components can switch between shifts (as the code
  computes them), byte slices (as packets carry them) and bit strings (as prefixes mean
  them).
\<close>

named_theorems be_simps \<open>conversions between words, byte lists and bit lists\<close>
named_theorems len_simps \<open>lengths of encoded values\<close>

type_synonym u8 = "8 word"
type_synonym u16 = "16 word"
type_synonym u32 = "32 word"
type_synonym u64 = "64 word"
type_synonym u128 = "128 word"
type_synonym bytes = "8 word list"

subsection \<open>Lists\<close>

lemma take_eq_mono:
  assumes "take n xs = take n ys" and "m \<le> n"
  shows "take m xs = take m ys"
proof -
  have "take m xs = take m (take n xs)" using assms(2) by (simp add: min_absorb1)
  also have "\<dots> = take m (take n ys)" using assms(1) by simp
  also have "\<dots> = take m ys" using assms(2) by (simp add: min_absorb1)
  finally show ?thesis .
qed

lemma take_eq_take_iff_nth:
  assumes "length xs = length ys"
  shows "take n xs = take n ys \<longleftrightarrow> (\<forall>i < length xs. i < n \<longrightarrow> xs ! i = ys ! i)"
  using assms by (auto simp: list_eq_iff_nth_eq)

lemma concat_eq_same_lengths:
  assumes "concat (map f xs) = concat (map f ys)" and "\<And>x. length (f x) = n" and "0 < n"
    and "\<And>x y. f x = f y \<Longrightarrow> x = y"
  shows "xs = ys"
  using assms(1)
proof (induction xs arbitrary: ys)
  case Nil
  show ?case
  proof (cases ys)
    case (Cons y ys')
    with Nil have "f y = []" by simp
    with assms(2)[of y] assms(3) show ?thesis by simp
  qed simp
next
  case (Cons x xs)
  show ?case
  proof (cases ys)
    case Nil
    with Cons.prems have "f x = []" by simp
    with assms(2)[of x] assms(3) show ?thesis by simp
  next
    case (Cons y ys')
    with Cons.prems have eq: "f x @ concat (map f xs) = f y @ concat (map f ys')" by simp
    have "length (f x) = length (f y)" by (simp add: assms(2))
    with eq have "f x = f y" and "concat (map f xs) = concat (map f ys')" by auto
    with assms(4) Cons.IH Cons show ?thesis by blast
  qed
qed

lemma length_concat_const:
  assumes "\<And>x. x \<in> set xs \<Longrightarrow> length (f x) = n"
  shows "length (concat (map f xs)) = n * length xs"
  using assms by (induction xs) auto

lemma take_concat_const:
  assumes "\<And>x. length (f x) = n"
  shows "take (n * k) (concat (map f xs)) = concat (map f (take k xs))"
proof (induction xs arbitrary: k)
  case (Cons x xs)
  show ?case
  proof (cases k)
    case (Suc j)
    have "take (n * k) (concat (map f (x # xs)))
        = f x @ take (n * k - n) (concat (map f xs))"
      by (simp add: assms Suc)
    also have "n * k - n = n * j" by (simp add: Suc)
    finally show ?thesis by (simp add: Cons.IH Suc)
  qed simp
qed simp

lemma drop_concat_const:
  assumes "\<And>x. length (f x) = n"
  shows "drop (n * k) (concat (map f xs)) = concat (map f (drop k xs))"
proof (induction xs arbitrary: k)
  case (Cons x xs)
  show ?case
  proof (cases k)
    case (Suc j)
    have "drop (n * k) (concat (map f (x # xs))) = drop (n * k - n) (concat (map f xs))"
      by (simp add: assms Suc)
    also have "n * k - n = n * j" by (simp add: Suc)
    finally show ?thesis by (simp add: Cons.IH Suc)
  qed simp
qed simp

subsection \<open>Words as naturals\<close>

lemma unat_less_2p: "unat (w :: 'a::len word) < 2 ^ LENGTH('a)"
  by (rule unsigned_less)

lemma unat_2p: "n < LENGTH('a) \<Longrightarrow> unat (2 ^ n :: 'a::len word) = 2 ^ n"
proof -
  assume n: "n < LENGTH('a)"
  have "unat (of_nat (2 ^ n) :: 'a word) = 2 ^ n mod 2 ^ LENGTH('a)" by (simp only: unat_of_nat)
  then show ?thesis using n by (simp add: power_strict_increasing)
qed

lemma unat_max: "unat (- 1 :: 'a::len word) = 2 ^ LENGTH('a) - 1"
  by (simp add: unsigned_minus_1_eq_mask mask_eq_exp_minus_1)

subsection \<open>The bits of a word, most significant first\<close>

definition wbits :: "'a::len word \<Rightarrow> bool list" where
  "wbits w = map (bit w) (rev [0..<LENGTH('a)])"

lemma length_wbits [simp, len_simps]: "length (wbits (w :: 'a::len word)) = LENGTH('a)"
  by (simp add: wbits_def)

lemma nth_wbits [simp]:
  "i < LENGTH('a) \<Longrightarrow> wbits (w :: 'a::len word) ! i = bit w (LENGTH('a) - 1 - i)"
  by (simp add: wbits_def rev_nth)

lemma wbits_inject [simp]: "wbits v = wbits w \<longleftrightarrow> v = (w :: 'a::len word)"
proof
  assume eq: "wbits v = wbits w"
  have "bit v n = bit w n" if n: "n < LENGTH('a)" for n
  proof -
    have "wbits v ! (LENGTH('a) - 1 - n) = wbits w ! (LENGTH('a) - 1 - n)" by (simp add: eq)
    with n show ?thesis by (simp add: Suc_diff_Suc)
  qed
  then show "v = w" by (auto intro: bit_word_eqI)
qed simp

lemma wbits_zero: "wbits (0 :: 'a::len word) = replicate LENGTH('a) False"
  by (intro nth_equalityI) simp_all

lemma take_wbits_eq_iff:
  fixes v w :: "'a::len word"
  assumes "n \<le> LENGTH('a)"
  shows "take n (wbits v) = take n (wbits w) \<longleftrightarrow>
    (\<forall>k < LENGTH('a). LENGTH('a) - n \<le> k \<longrightarrow> bit v k = bit w k)"
proof -
  have "take n (wbits v) = take n (wbits w) \<longleftrightarrow>
      (\<forall>i < LENGTH('a). i < n \<longrightarrow> bit v (LENGTH('a) - 1 - i) = bit w (LENGTH('a) - 1 - i))"
    by (subst take_eq_take_iff_nth) auto
  also have "\<dots> \<longleftrightarrow> (\<forall>k < LENGTH('a). LENGTH('a) - n \<le> k \<longrightarrow> bit v k = bit w k)"
    (is "?L \<longleftrightarrow> ?R")
  proof
    assume h: ?L
    have "bit v k = bit w k" if k: "k < LENGTH('a)" "LENGTH('a) - n \<le> k" for k
    proof -
      have "LENGTH('a) - 1 - (LENGTH('a) - 1 - k) = k" using k by simp
      moreover have "LENGTH('a) - 1 - k < n" "LENGTH('a) - 1 - k < LENGTH('a)"
        using k assms by auto
      ultimately show ?thesis using h by metis
    qed
    then show ?R by blast
  qed (use assms in auto)
  finally show ?thesis .
qed

text \<open>A right shift compares exactly the leading bits.\<close>

lemma drop_bit_eq_iff_take_wbits:
  fixes v w :: "'a::len word"
  assumes "n \<le> LENGTH('a)"
  shows "drop_bit (LENGTH('a) - n) v = drop_bit (LENGTH('a) - n) w \<longleftrightarrow>
    take n (wbits v) = take n (wbits w)"
proof -
  have "drop_bit (LENGTH('a) - n) v = drop_bit (LENGTH('a) - n) w \<longleftrightarrow>
      (\<forall>j. bit v (LENGTH('a) - n + j) = bit w (LENGTH('a) - n + j))"
    by (simp only: bit_eq_iff bit_drop_bit_eq comp_def)
       (metis bit_drop_bit_eq comp_apply impossible_bit possible_bit_word not_less)
  also have "\<dots> \<longleftrightarrow> (\<forall>k < LENGTH('a). LENGTH('a) - n \<le> k \<longrightarrow> bit v k = bit w k)"
    by (metis le_add1 le_add_diff_inverse bit_imp_le_length leI)
  finally show ?thesis using take_wbits_eq_iff[OF assms] by blast
qed

subsection \<open>Big-endian bytes\<close>

definition to_be_bytes :: "'a::len word \<Rightarrow> bytes" where
  "to_be_bytes w = map (\<lambda>i. ucast (drop_bit (8 * i) w)) (rev [0..<LENGTH('a) div 8])"

definition from_be_bytes :: "bytes \<Rightarrow> 'a::len word" where
  "from_be_bytes bs = foldl (\<lambda>acc b. push_bit 8 acc OR ucast b) 0 bs"

lemma length_to_be_bytes [simp, len_simps]:
  "length (to_be_bytes (w :: 'a::len word)) = LENGTH('a) div 8"
  by (simp add: to_be_bytes_def)

lemma nth_concat_const:
  assumes "\<And>x. length (f x) = n" and "i < n * length xs"
  shows "concat (map f xs) ! i = f (xs ! (i div n)) ! (i mod n)"
  using assms(2)
proof (induction xs arbitrary: i)
  case (Cons x xs)
  show ?case
  proof (cases "i < n")
    case True
    then show ?thesis by (simp add: nth_append assms(1))
  next
    case False
    from Cons.prems have "0 < n" by (cases n) auto
    with False obtain j where j: "i = n + j" using le_iff_add by (metis not_less)
    with Cons.prems have "j < n * length xs" by simp
    then have "concat (map f xs) ! j = f (xs ! (j div n)) ! (j mod n)" by (rule Cons.IH)
    moreover from \<open>0 < n\<close> have "(n + j) div n = Suc (j div n)" by (simp add: div_add_self1)
    ultimately show ?thesis by (simp add: nth_append assms(1) j)
  qed
qed simp

lemma from_be_bytes_snoc:
  "from_be_bytes (bs @ [b]) = push_bit 8 (from_be_bytes bs) OR (ucast b :: 'a::len word)"
  by (simp add: from_be_bytes_def)

lemma bit_from_be_bytes:
  "bit (from_be_bytes bs :: 'a::len word) k \<longleftrightarrow>
    k < LENGTH('a) \<and> k < 8 * length bs \<and> bit (bs ! (length bs - 1 - k div 8)) (k mod 8)"
proof (induction bs arbitrary: k rule: rev_induct)
  case Nil
  show ?case by (simp add: from_be_bytes_def)
next
  case (snoc b bs)
  show ?case
  proof (cases "k < 8")
    case True
    then show ?thesis
      by (simp add: from_be_bytes_snoc bit_simps nth_append)
  next
    case False
    then obtain j where j: "k = 8 + j" using le_iff_add by (metis not_less)
    have "\<not> bit (ucast b :: 'a word) k"
      using False bit_imp_le_length[of b k] by (auto simp: bit_simps)
    then have "bit (from_be_bytes (bs @ [b]) :: 'a word) k \<longleftrightarrow>
        k < LENGTH('a) \<and> bit (from_be_bytes bs :: 'a word) j"
      by (simp add: from_be_bytes_snoc bit_simps j) blast
    also have "\<dots> \<longleftrightarrow> k < LENGTH('a) \<and> k < 8 * length (bs @ [b]) \<and>
        bit ((bs @ [b]) ! (length (bs @ [b]) - 1 - k div 8)) (k mod 8)"
    proof (cases "j < 8 * length bs")
      case True
      then have "length bs - Suc (j div 8) < length bs" by (cases "length bs") auto
      moreover have "(8 + j) div 8 = Suc (j div 8)" by simp
      ultimately show ?thesis using True by (auto simp: snoc.IH j nth_append simp del: div_add_self1)
    qed (simp add: snoc.IH j)
    finally show ?thesis .
  qed
qed

lemma wbits_from_be_bytes [be_simps]:
  assumes "8 * length bs = LENGTH('a::len)"
  shows "wbits (from_be_bytes bs :: 'a word) = concat (map wbits bs)"
proof (rule nth_equalityI)
  have len: "length (concat (map wbits bs)) = 8 * length bs"
    by (simp add: length_concat_const[where n = 8])
  then show "length (wbits (from_be_bytes bs :: 'a word)) = length (concat (map wbits bs))"
    using assms by simp
  fix i assume "i < length (wbits (from_be_bytes bs :: 'a word))"
  then have i: "i < LENGTH('a)" by simp
  define m where "m = length bs"
  have m: "LENGTH('a) = 8 * m" and im: "i < 8 * m" using assms i m_def by auto
  have q: "i div 8 < m" using im by (simp add: less_mult_imp_div_less mult.commute)
  have sub: "8 * m - 1 - i = (7 - i mod 8) + 8 * (m - 1 - i div 8)"
  proof -
    have "i = 8 * (i div 8) + i mod 8" "i mod 8 < 8" by simp_all
    with q show ?thesis by linarith
  qed
  have lt: "7 - i mod 8 < 8" by simp
  have d: "(8 * m - 1 - i) div 8 = m - 1 - i div 8"
    by (simp add: sub div_mult_self2 div_less[OF lt] del: One_nat_def diff_diff_left)
  have r: "(8 * m - 1 - i) mod 8 = 7 - i mod 8"
    by (simp only: sub mod_mult_self2 mod_less[OF lt])
  from q have e: "m - 1 - (m - 1 - i div 8) = i div 8" by simp
  have "wbits (from_be_bytes bs :: 'a word) ! i = bit (from_be_bytes bs :: 'a word) (8 * m - 1 - i)"
    using i m by simp
  also have "\<dots> = bit (bs ! (i div 8)) (7 - i mod 8)"
    using im e by (simp only: bit_from_be_bytes m d r flip: m_def) auto
  also have "\<dots> = wbits (bs ! (i div 8)) ! (i mod 8)" by simp
  also have "\<dots> = concat (map wbits bs) ! i"
    using im by (subst nth_concat_const[where n = 8]) (simp_all add: m_def)
  finally show "wbits (from_be_bytes bs :: 'a word) ! i = concat (map wbits bs) ! i" .
qed

lemma nth_to_be_bytes:
  "i < LENGTH('a) div 8 \<Longrightarrow>
    to_be_bytes (w :: 'a::len word) ! i = ucast (drop_bit (8 * (LENGTH('a) div 8 - 1 - i)) w)"
  by (simp add: to_be_bytes_def rev_nth)

lemma concat_wbits_to_be_bytes [be_simps]:
  fixes w :: "'a::len word"
  assumes "8 dvd LENGTH('a)"
  shows "concat (map wbits (to_be_bytes w)) = wbits w"
proof (rule nth_equalityI)
  from assms obtain m where m: "LENGTH('a) = 8 * m" by (elim dvdE)
  show len: "length (concat (map wbits (to_be_bytes w))) = length (wbits w)"
    by (simp add: length_concat_const[where n = 8] m)
  fix i assume "i < length (concat (map wbits (to_be_bytes w)))"
  then have i: "i < 8 * m" by (simp only: len) (simp add: m)
  then have im: "i div 8 < m" by (simp add: less_mult_imp_div_less mult.commute)
  have idx: "7 - i mod 8 + 8 * (m - 1 - i div 8) = 8 * m - 1 - i"
  proof -
    have "i = 8 * (i div 8) + i mod 8" "i mod 8 < 8" by simp_all
    with im show ?thesis by linarith
  qed
  have "concat (map wbits (to_be_bytes w)) ! i = wbits (to_be_bytes w ! (i div 8)) ! (i mod 8)"
    using i by (subst nth_concat_const[where n = 8]) (simp_all add: m)
  also have "\<dots> = bit w (7 - i mod 8 + 8 * (m - 1 - i div 8))"
    using im by (simp add: nth_to_be_bytes m bit_ucast_iff bit_drop_bit_eq add.commute less_imp_diff_less del: One_nat_def)
  also have "\<dots> = wbits w ! i" using i by (simp only: idx) (simp add: m)
  finally show "concat (map wbits (to_be_bytes w)) ! i = wbits w ! i" .
qed

lemma from_to_be_bytes [simp]:
  fixes w :: "'a::len word"
  assumes "8 dvd LENGTH('a)"
  shows "from_be_bytes (to_be_bytes w) = w"
proof -
  have "wbits (from_be_bytes (to_be_bytes w) :: 'a word) = wbits w"
    using assms by (simp add: be_simps)
  then show ?thesis by simp
qed

lemma to_from_be_bytes [simp]:
  assumes "8 * length bs = LENGTH('a::len)"
  shows "to_be_bytes (from_be_bytes bs :: 'a word) = bs"
proof (rule concat_eq_same_lengths[where f = wbits and n = 8])
  have "8 dvd LENGTH('a)" using assms by (metis dvd_triv_left)
  then show "concat (map wbits (to_be_bytes (from_be_bytes bs :: 'a word))) = concat (map wbits bs)"
    using assms by (simp add: be_simps)
qed simp_all

subsection \<open>Masks and partial bytes\<close>

lemma u8_max [simp]: "(- 1 :: u8) = 0xff"
  by simp

lemma bit_high_mask: "bit (push_bit m (- 1) :: 'a::len word) k \<longleftrightarrow> m \<le> k \<and> k < LENGTH('a)"
  by (auto simp: bit_simps)

lemma high_mask_eq_iff:
  fixes x y :: "'a::len word"
  assumes "n \<le> LENGTH('a)"
  shows "x AND push_bit (LENGTH('a) - n) (- 1) = y AND push_bit (LENGTH('a) - n) (- 1) \<longleftrightarrow>
    take n (wbits x) = take n (wbits y)"
proof -
  have "x AND push_bit (LENGTH('a) - n) (- 1) = y AND push_bit (LENGTH('a) - n) (- 1) \<longleftrightarrow>
      (\<forall>k < LENGTH('a). LENGTH('a) - n \<le> k \<longrightarrow> bit x k = bit y k)"
    by (auto simp: bit_eq_iff[of "x AND _"] bit_simps)
  then show ?thesis by (simp add: take_wbits_eq_iff[OF assms])
qed

lemma wbits_high_mask:
  fixes x :: "'a::len word"
  assumes "n \<le> LENGTH('a)"
  shows "wbits (x AND push_bit (LENGTH('a) - n) (- 1)) =
    take n (wbits x) @ replicate (LENGTH('a) - n) False"
  using assms by (intro nth_equalityI) (auto simp: nth_append bit_simps)

lemma take_concat_bytes:
  fixes bs :: bytes
  assumes "i < length bs" and "r \<le> 8"
  shows "take (8 * i + r) (concat (map wbits bs)) =
    concat (map wbits (take i bs)) @ take r (wbits (bs ! i))"
proof -
  have "concat (map wbits bs) = concat (map wbits (take i bs)) @ concat (map wbits (drop i bs))"
    by (metis append_take_drop_id concat_append map_append)
  also have "drop i bs = bs ! i # drop (Suc i) bs" using assms(1) by (rule Cons_nth_drop_Suc[symmetric])
  finally show ?thesis
    using assms by (simp add: length_concat_const[where n = 8] min_absorb2)
qed

lemma concat_bytes_inject [simp]:
  "concat (map wbits xs) = concat (map wbits ys) \<longleftrightarrow> xs = (ys :: bytes)"
  by (auto intro: concat_eq_same_lengths[where f = wbits and n = 8])

lemma take_bytes_eq_iff:
  fixes bs cs :: bytes
  assumes "i < length bs" and "length bs = length cs" and "r \<le> 8"
  shows "take (8 * i + r) (concat (map wbits bs)) = take (8 * i + r) (concat (map wbits cs)) \<longleftrightarrow>
    take i bs = take i cs \<and> take r (wbits (bs ! i)) = take r (wbits (cs ! i))"
  using assms by (simp add: take_concat_bytes length_concat_const[where n = 8])

end
