(* ===== verification/Std_Net.thy ===== *)
theory Std_Net
  imports Prelude
begin

text \<open>
  The parts of the Rust standard library that the modelled crates call: the address types of
  \<open>std::net\<close> with their octets and their text syntax, \<open>str::split_once\<close>,
  \<open>str::strip_prefix\<close> and \<open>u8::from_str\<close>, slice indexing (which panics out of range), and
  \<open>saturating_add\<close>, \<open>trailing_zeros\<close>, \<open>leading_zeros\<close> and \<open>ilog2\<close> on words.
  An \<open>Ipv4Addr\<close> is its 32-bit value and an \<open>Ipv6Addr\<close> its 128-bit value, both in network
  order.
\<close>

subsection \<open>Addresses\<close>

datatype ipaddr = V4 u32 | V6 u128

fun is_ipv4 :: "ipaddr \<Rightarrow> bool" where
  "is_ipv4 (V4 a) = True"
| "is_ipv4 (V6 a) = False"

definition is_ipv6 :: "ipaddr \<Rightarrow> bool" where
  "is_ipv6 a = (\<not> is_ipv4 a)"

fun octets :: "ipaddr \<Rightarrow> bytes" where
  "octets (V4 a) = to_be_bytes a"
| "octets (V6 a) = to_be_bytes a"

text \<open>The bits of an address in the order a prefix reads them.\<close>

fun addr_bits :: "ipaddr \<Rightarrow> bool list" where
  "addr_bits (V4 a) = wbits a"
| "addr_bits (V6 a) = wbits a"

definition addr_len :: "ipaddr \<Rightarrow> nat" where
  "addr_len a = (if is_ipv4 a then 32 else 128)"

definition unspecified4 :: ipaddr where "unspecified4 = V4 0"
definition unspecified6 :: ipaddr where "unspecified6 = V6 0"

text \<open>\<open>Ipv4Addr::to_ipv6_mapped\<close> and \<open>Ipv6Addr::to_ipv4_mapped\<close>.\<close>

definition to_ipv6_mapped :: "u32 \<Rightarrow> u128" where
  "to_ipv6_mapped a = from_be_bytes (replicate 10 0 @ [0xff, 0xff] @ to_be_bytes a)"

definition to_ipv4_mapped :: "u128 \<Rightarrow> u32 option" where
  "to_ipv4_mapped a =
     (let b = to_be_bytes a in
      if take 12 b = replicate 10 0 @ [0xff, 0xff] then Some (from_be_bytes (drop 12 b)) else None)"

lemma length_octets [simp, len_simps]: "length (octets a) = addr_len a div 8"
  by (cases a) (simp_all add: addr_len_def)

lemma length_addr_bits [simp, len_simps]: "length (addr_bits a) = addr_len a"
  by (cases a) (simp_all add: addr_len_def)

lemma concat_octets [be_simps]: "concat (map wbits (octets a)) = addr_bits a"
  by (cases a) (simp_all add: be_simps)

lemma addr_eq_iff: "a = b \<longleftrightarrow> is_ipv4 a = is_ipv4 b \<and> addr_bits a = addr_bits b"
  by (cases a; cases b) simp_all

lemma octets_inject: "is_ipv4 a = is_ipv4 b \<Longrightarrow> octets a = octets b \<Longrightarrow> a = b"
  by (metis addr_eq_iff concat_octets)

lemma to_be_bytes_mapped [simp]:
  "to_be_bytes (to_ipv6_mapped a) = replicate 10 0 @ [0xff, 0xff] @ to_be_bytes a"
  unfolding to_ipv6_mapped_def by (rule to_from_be_bytes) simp

lemma to_ipv4_mapped_mapped [simp]: "to_ipv4_mapped (to_ipv6_mapped a) = Some a"
  by (simp add: to_ipv4_mapped_def)

lemma to_ipv4_mapped_Some:
  assumes "to_ipv4_mapped a = Some b"
  shows "a = to_ipv6_mapped b"
proof -
  let ?o = "to_be_bytes a"
  from assms have t: "take 12 ?o = replicate 10 0 @ [0xff, 0xff]" and b: "b = from_be_bytes (drop 12 ?o)"
    by (auto simp: to_ipv4_mapped_def Let_def split: if_splits)
  have "to_be_bytes b = drop 12 ?o" unfolding b by (rule to_from_be_bytes) simp
  with t have "to_be_bytes (to_ipv6_mapped b) = ?o"
    by (metis append_assoc append_take_drop_id to_be_bytes_mapped)
  then have "from_be_bytes (to_be_bytes (to_ipv6_mapped b)) = (from_be_bytes ?o :: u128)" by simp
  then show ?thesis by (simp del: to_be_bytes_mapped)
qed

subsection \<open>Slices\<close>

text \<open>
  \<open>b[i]\<close> and \<open>&b[i..j]\<close>; \<open>None\<close> is the panic of an out-of-range access.
\<close>

definition idx :: "'a list \<Rightarrow> nat \<Rightarrow> 'a option" where
  "idx b i = (if i < length b then Some (b ! i) else None)"

definition slice :: "'a list \<Rightarrow> nat \<Rightarrow> nat \<Rightarrow> 'a list option" where
  "slice b i j = (if i \<le> j \<and> j \<le> length b then Some (take (j - i) (drop i b)) else None)"

definition slice_from :: "'a list \<Rightarrow> nat \<Rightarrow> 'a list option" where
  "slice_from b i = slice b i (length b)"

lemma idx_Some [simp]: "i < length b \<Longrightarrow> idx b i = Some (b ! i)"
  by (simp add: idx_def)

lemma slice_Some [simp]: "i \<le> j \<Longrightarrow> j \<le> length b \<Longrightarrow> slice b i j = Some (take (j - i) (drop i b))"
  by (simp add: slice_def)

lemma slice_from_Some [simp]: "i \<le> length b \<Longrightarrow> slice_from b i = Some (drop i b)"
  by (simp add: slice_from_def)

subsection \<open>Integer operations\<close>

definition saturating_add :: "'a::len word \<Rightarrow> 'a word \<Rightarrow> 'a word" where
  "saturating_add a b = (if unat a + unat b < 2 ^ LENGTH('a) then a + b else - 1)"

text \<open>\<open>trailing_zeros\<close> and \<open>leading_zeros\<close> count from the two ends; on 0 both are the width.\<close>

definition trailing_zeros :: "'a::len word \<Rightarrow> nat" where
  "trailing_zeros w = length (takeWhile Not (rev (wbits w)))"

definition leading_zeros :: "'a::len word \<Rightarrow> nat" where
  "leading_zeros w = length (takeWhile Not (wbits w))"

text \<open>\<open>ilog2\<close> of a non-zero word (Rust panics on 0, where no caller applies it).\<close>

definition ilog2 :: "'a::len word \<Rightarrow> nat" where
  "ilog2 w = LENGTH('a) - 1 - leading_zeros w"

subsection \<open>Strings\<close>

text \<open>\<open>str::split_once\<close> at the first occurrence of a character.\<close>

fun split_once :: "char \<Rightarrow> string \<Rightarrow> (string \<times> string) option" where
  "split_once c [] = None"
| "split_once c (x # xs) =
     (if x = c then Some ([], xs) else map_option (\<lambda>(a, b). (x # a, b)) (split_once c xs))"

definition strip_prefix :: "string \<Rightarrow> string \<Rightarrow> string option" where
  "strip_prefix p s = (if take (length p) s = p then Some (drop (length p) s) else None)"

lemma split_once_Some: "split_once c s = Some (a, b) \<longleftrightarrow> s = a @ c # b \<and> c \<notin> set a"
proof (induction s arbitrary: a)
  case (Cons x xs)
  then show ?case by (cases a) auto
qed simp

lemma split_once_None: "split_once c s = None \<longleftrightarrow> c \<notin> set s"
  by (induction s) auto

text \<open>\<open>char::to_digit\<close> for radix 10 and 16.\<close>

definition to_digit :: "nat \<Rightarrow> char \<Rightarrow> nat option" where
  "to_digit radix c =
     (let n = of_char c;
          d = (if 48 \<le> n \<and> n \<le> 57 then Some (n - 48)
               else if 97 \<le> n \<and> n \<le> 122 then Some (n - 97 + 10)
               else if 65 \<le> n \<and> n \<le> 90 then Some (n - 65 + 10)
               else None)
      in case d of None \<Rightarrow> None | Some k \<Rightarrow> if k < radix then Some k else None)"

text \<open>
  \<open>u8::from_str\<close>: an optional \<open>+\<close>, then one or more decimal digits, without overflow.
\<close>

fun digits_u8 :: "nat \<Rightarrow> string \<Rightarrow> nat option" where
  "digits_u8 acc [] = Some acc"
| "digits_u8 acc (c # cs) =
     (case to_digit 10 c of
        None \<Rightarrow> None
      | Some d \<Rightarrow> if acc * 10 + d \<le> 255 then digits_u8 (acc * 10 + d) cs else None)"

definition parse_u8 :: "string \<Rightarrow> nat option" where
  "parse_u8 s =
     (let t = (case s of [] \<Rightarrow> [] | c # cs \<Rightarrow> if c = CHR ''+'' then cs else s)
      in if t = [] then None else digits_u8 0 t)"

lemma digits_u8_bound: "digits_u8 acc s = Some n \<Longrightarrow> acc \<le> 255 \<Longrightarrow> n \<le> 255"
  by (induction s arbitrary: acc) (auto split: option.splits if_splits)

lemma parse_u8_bound: "parse_u8 s = Some n \<Longrightarrow> n \<le> 255"
  by (auto simp: parse_u8_def Let_def simp del: digits_u8.simps intro: digits_u8_bound
      split: if_splits list.splits)

subsection \<open>Parsing addresses\<close>

text \<open>
  The recursive-descent parser of \<open>core::net::parser\<close>.  A reader returns the value and the
  unread input, or \<open>None\<close>, in which case nothing is consumed (\<open>read_atomically\<close>).
\<close>

fun read_digits :: "nat \<Rightarrow> nat \<Rightarrow> nat \<Rightarrow> nat \<Rightarrow> string \<Rightarrow> (nat \<times> nat \<times> string) option" where
  "read_digits radix maxd acc cnt [] = Some (acc, cnt, [])"
| "read_digits radix maxd acc cnt (c # cs) =
     (case to_digit radix c of
        None \<Rightarrow> Some (acc, cnt, c # cs)
      | Some d \<Rightarrow>
          if maxd < cnt + 1 then None
          else read_digits radix maxd (acc * radix + d) (cnt + 1) cs)"

definition read_number :: "nat \<Rightarrow> nat \<Rightarrow> bool \<Rightarrow> nat \<Rightarrow> string \<Rightarrow> (nat \<times> string) option" where
  "read_number radix maxd allow_zero_prefix bound s =
     (case read_digits radix maxd 0 0 s of
        None \<Rightarrow> None
      | Some (v, cnt, rest) \<Rightarrow>
          if cnt = 0 then None
          else if \<not> allow_zero_prefix \<and> take 1 s = ''0'' \<and> 1 < cnt then None
          else if v < bound then Some (v, rest) else None)"

definition read_given_char :: "char \<Rightarrow> string \<Rightarrow> string option" where
  "read_given_char c s = (case s of [] \<Rightarrow> None | x # xs \<Rightarrow> if x = c then Some xs else None)"

definition read_separator :: "char \<Rightarrow> nat \<Rightarrow> (string \<Rightarrow> ('a \<times> string) option) \<Rightarrow> string \<Rightarrow> ('a \<times> string) option" where
  "read_separator sep i inner s =
     (if 0 < i then (case read_given_char sep s of None \<Rightarrow> None | Some r \<Rightarrow> inner r) else inner s)"

fun read_ipv4_groups :: "nat \<Rightarrow> nat \<Rightarrow> string \<Rightarrow> (nat list \<times> string) option" where
  "read_ipv4_groups i 0 s = Some ([], s)"
| "read_ipv4_groups i (Suc n) s =
     (case read_separator CHR ''.'' i (read_number 10 3 False 256) s of
        None \<Rightarrow> None
      | Some (g, r) \<Rightarrow> map_option (\<lambda>(gs, r'). (g # gs, r')) (read_ipv4_groups (Suc i) n r))"

definition read_ipv4_addr :: "string \<Rightarrow> (bytes \<times> string) option" where
  "read_ipv4_addr s = map_option (\<lambda>(gs, r). (map of_nat gs, r)) (read_ipv4_groups 0 4 s)"

text \<open>
  \<open>read_groups\<close> reads up to \<open>n\<close> more 16-bit groups, \<open>i\<close> having been read; a trailing
  embedded IPv4 address counts for two groups and ends the list.
\<close>

fun read_groups :: "nat \<Rightarrow> nat \<Rightarrow> string \<Rightarrow> u16 list \<times> bool \<times> string" where
  "read_groups i 0 s = ([], False, s)"
| "read_groups i (Suc n) s =
     (case (if 0 < n then read_separator CHR '':'' i read_ipv4_addr s else None) of
        Some (b, r) \<Rightarrow> ([from_be_bytes (take 2 b), from_be_bytes (drop 2 b)], True, r)
      | None \<Rightarrow>
          (case read_separator CHR '':'' i (read_number 16 4 True 65536) s of
             None \<Rightarrow> ([], False, s)
           | Some (g, r) \<Rightarrow>
               (case read_groups (Suc i) n r of (gs, v4, r') \<Rightarrow> (of_nat g # gs, v4, r'))))"

definition read_ipv6_addr :: "string \<Rightarrow> (u16 list \<times> string) option" where
  "read_ipv6_addr s =
     (case read_groups 0 8 s of (head, head_ipv4, r) \<Rightarrow>
        if length head = 8 then Some (head, r)
        else if head_ipv4 then None
        else (case read_given_char CHR '':'' r of None \<Rightarrow> None | Some r1 \<Rightarrow>
             (case read_given_char CHR '':'' r1 of None \<Rightarrow> None | Some r2 \<Rightarrow>
             (case read_groups 0 (8 - (length head + 1)) r2 of (tail, _, r3) \<Rightarrow>
                Some (head @ replicate (8 - length head - length tail) 0 @ tail, r3)))))"

text \<open>\<open>IpAddr::from_str\<close>: IPv4 is tried first, and the whole input must be consumed.\<close>

definition parse_ip :: "string \<Rightarrow> ipaddr option" where
  "parse_ip s =
     (case read_ipv4_addr s of
        Some (b, r) \<Rightarrow> if r = [] then Some (V4 (from_be_bytes b)) else None
      | None \<Rightarrow>
          (case read_ipv6_addr s of
             Some (gs, r) \<Rightarrow>
               if r = [] then Some (V6 (from_be_bytes (concat (map to_be_bytes gs)))) else None
           | None \<Rightarrow> None))"

subsection \<open>Strings as bytes\<close>

definition str_bytes :: "string \<Rightarrow> bytes" where
  "str_bytes s = map (\<lambda>c. of_nat (of_char c)) s"

lemma str_bytes_inject: "str_bytes s = str_bytes t \<longleftrightarrow> s = t"
proof -
  have "inj (\<lambda>c. of_nat (of_char c) :: u8)"
  proof (rule injI)
    fix c d :: char assume eq: "(of_nat (of_char c) :: u8) = of_nat (of_char d)"
    have small: "unat (of_nat (of_char c) :: u8) = (of_char c :: nat)" for c :: char
    proof -
      have "(of_char c :: nat) < 256" by (metis of_char_mod_256 mod_less_divisor zero_less_numeral)
      then show ?thesis by (simp add: unsigned_of_nat take_bit_nat_eq_self)
    qed
    have "(of_char c :: nat) = of_char d" using small[of c] small[of d] eq by metis
    then show "c = d" by simp
  qed
  then show ?thesis unfolding str_bytes_def by (simp add: inj_map_eq_map)
qed

lemma length_str_bytes [simp]: "length (str_bytes s) = length s"
  by (simp add: str_bytes_def)

end
