(* ===== verification/Prefix_Spec.thy ===== *)
theory Prefix_Spec
  imports Std_Net
begin

text \<open>
  The contract of the repository's prefix types.  Three crates define an \<open>IpPrefix\<close> of their
  own and test membership in their own way (shifts in \<open>filter\<close>, octets and masks in
  \<open>filter\<close> and \<open>art\<close>).  They all promise the same thing: a prefix contains the addresses of its family
  that agree with it on its leading bits.  The lemmas of the locale are what the clients use.
\<close>

definition leading_bits_agree :: "ipaddr \<Rightarrow> nat \<Rightarrow> ipaddr \<Rightarrow> bool" where
  "leading_bits_agree net n ip \<longleftrightarrow>
     is_ipv4 ip = is_ipv4 net \<and> take n (addr_bits ip) = take n (addr_bits net)"

locale prefix_containment =
  fixes contains :: "'p \<Rightarrow> ipaddr \<Rightarrow> bool"
    and net :: "'p \<Rightarrow> ipaddr"
    and plen :: "'p \<Rightarrow> nat"
  assumes contains_iff:
    "plen p \<le> addr_len (net p) \<Longrightarrow> contains p ip \<longleftrightarrow> leading_bits_agree (net p) (plen p) ip"
begin

lemma contains_net: "plen p \<le> addr_len (net p) \<Longrightarrow> contains p (net p)"
  by (simp add: contains_iff leading_bits_agree_def)

lemma contains_host:
  assumes "plen p = addr_len (net p)"
  shows "contains p ip \<longleftrightarrow> ip = net p"
proof -
  have "contains p ip \<longleftrightarrow> leading_bits_agree (net p) (plen p) ip"
    using assms by (simp add: contains_iff)
  then show ?thesis
    using assms by (auto simp: leading_bits_agree_def addr_eq_iff addr_len_def)
qed

lemma contains_zero: "plen p = 0 \<Longrightarrow> contains p ip \<longleftrightarrow> is_ipv4 ip = is_ipv4 (net p)"
  by (simp add: contains_iff leading_bits_agree_def)

lemma contains_nested:
  assumes "plen p \<le> addr_len (net p)" "plen q \<le> addr_len (net q)"
    and "plen p \<le> plen q" and "contains p a" "contains q a" and "contains q b"
  shows "contains p b"
proof -
  have p: "leading_bits_agree (net p) (plen p) a" and q: "leading_bits_agree (net q) (plen q) a"
    and b: "leading_bits_agree (net q) (plen q) b"
    using assms(1,2,4-6) contains_iff by blast+
  have "take (plen q) (addr_bits b) = take (plen q) (addr_bits a)"
    using q b by (simp add: leading_bits_agree_def)
  then have "take (plen p) (addr_bits b) = take (plen p) (addr_bits a)"
    using assms(3) by (rule take_eq_mono)
  with p q b have "leading_bits_agree (net p) (plen p) b" by (simp add: leading_bits_agree_def)
  with assms(1) show ?thesis by (simp add: contains_iff)
qed

end

end
