(* ===== verification/Filter_Prefix.thy ===== *)
theory Filter_Prefix
  imports Prefix_Spec
begin

text \<open>
  \<open>crates/filter/src/prefix.rs\<close>: the prefix type of the packet filter, its membership test,
  the special address classes, the conversion of address ranges to prefixes, and the CIDR
  parser.  A prefix length is a \<open>u8\<close>, kept as a natural number.
\<close>

record ip_prefix =
  pfx_addr :: ipaddr
  pfx_bits :: nat

datatype parse_error =
    InvalidCidr string
  | InvalidIp string
  | InvalidPrefixLen string
  | NonNetworkBits string
  | InvalidRange string

subsection \<open>Membership\<close>

definition v4_contains :: "u32 \<Rightarrow> u32 \<Rightarrow> nat \<Rightarrow> bool" where
  "v4_contains net ip bits =
     (if bits = 0 then True
      else if 32 < bits then False
      else let shift = 32 - bits in drop_bit shift net = drop_bit shift ip)"

definition v6_contains :: "u128 \<Rightarrow> u128 \<Rightarrow> nat \<Rightarrow> bool" where
  "v6_contains net ip bits =
     (if bits = 0 then True
      else if 128 < bits then False
      else
        let net_b = to_be_bytes net; ip_b = to_be_bytes ip;
            full_bytes = bits div 8; rem_bits = bits mod 8
        in if 0 < full_bytes \<and> take full_bytes net_b \<noteq> take full_bytes ip_b then False
           else if rem_bits = 0 then True
           else
             let mask = push_bit (8 - rem_bits) (0xff :: u8)
             in net_b ! full_bytes AND mask = ip_b ! full_bytes AND mask)"

fun prefix_contains :: "ip_prefix \<Rightarrow> ipaddr \<Rightarrow> bool" where
  "prefix_contains p ip =
     (case (pfx_addr p, ip) of
        (V4 a, V4 b) \<Rightarrow> v4_contains a b (pfx_bits p)
      | (V6 a, V6 b) \<Rightarrow> v6_contains a b (pfx_bits p)
      | _ \<Rightarrow> False)"

declare prefix_contains.simps [simp del]

definition is_v4 :: "ip_prefix \<Rightarrow> bool" where
  "is_v4 p = is_ipv4 (pfx_addr p)"

fun is_multicast :: "ipaddr \<Rightarrow> bool" where
  "is_multicast (V4 a) = (224 \<le> to_be_bytes a ! 0)"
| "is_multicast (V6 a) = (to_be_bytes a ! 0 = 0xff)"

fun is_link_local_unicast :: "ipaddr \<Rightarrow> bool" where
  "is_link_local_unicast (V4 a) = (to_be_bytes a ! 0 = 169 \<and> to_be_bytes a ! 1 = 254)"
| "is_link_local_unicast (V6 a) =
     (let b = to_be_bytes a in b ! 0 = 0xfe \<and> b ! 1 AND 0xc0 = 0x80)"

subsection \<open>Ranges\<close>

text \<open>
  The loop of \<open>range_to_prefixes_v4\<close> and \<open>range_to_prefixes_v6\<close>, which differ only in the
  width (the \<open>.min(128)\<close> of the latter is written for both widths and changes nothing, since
  \<open>trailing_zeros\<close> never exceeds the width).  Arithmetic wraps as in a release build:
  \<open>last - cur + 1\<close> is 0 for the range of all addresses.
\<close>

lemma not_le_decreases_distance:
  "\<not> y \<le> x \<Longrightarrow> 2 ^ LENGTH('a) - unat y < 2 ^ LENGTH('a) - unat (x :: 'a::len word)"
  by (intro diff_less_mono2) (simp_all add: word_less_nat_alt not_le)

function range_loop :: "'a::len word \<Rightarrow> 'a word \<Rightarrow> ('a word \<times> nat) list" where
  "range_loop cur last_ip =
     (if cur \<le> last_ip then
        let max_align = (if cur = 0 then LENGTH('a) else trailing_zeros cur);
            remaining = last_ip - cur + 1;
            max_size = (if remaining = 0 then 0 else ilog2 remaining);
            host_bits = min (min max_align max_size) LENGTH('a);
            prefix_len = LENGTH('a) - host_bits;
            block_size = (if host_bits < LENGTH('a) then push_bit host_bits 1 else - 1);
            next = saturating_add cur block_size
        in (cur, prefix_len) #
           (if block_size = 0 then [] else if next \<le> cur then [] else range_loop next last_ip)
      else [])"
  by pat_completeness auto
termination
  by (relation "measure (\<lambda>(cur :: 'a word, last_ip). 2 ^ LENGTH('a) - unat cur)")
    (simp, simp only: in_measure prod.case, erule not_le_decreases_distance)

declare range_loop.simps [simp del]

definition range_to_prefixes_v4 :: "u32 \<Rightarrow> u32 \<Rightarrow> ip_prefix list" where
  "range_to_prefixes_v4 start end =
     (if end < start then []
      else map (\<lambda>(a, n). \<lparr>pfx_addr = V4 a, pfx_bits = n\<rparr>) (range_loop start end))"

definition range_to_prefixes_v6 :: "u128 \<Rightarrow> u128 \<Rightarrow> ip_prefix list" where
  "range_to_prefixes_v6 start end =
     (if end < start then []
      else map (\<lambda>(a, n). \<lparr>pfx_addr = V6 a, pfx_bits = n\<rparr>) (range_loop start end))"

subsection \<open>Parsing\<close>

fun is_masked :: "ip_prefix \<Rightarrow> bool" where
  "is_masked p =
     (case pfx_addr p of
        V4 a \<Rightarrow>
          (let mask = (if pfx_bits p = 0 then 0 else push_bit (32 - pfx_bits p) (- 1))
           in a AND mask = a)
      | V6 a \<Rightarrow>
          (let mask = (if pfx_bits p = 0 then 0 else push_bit (128 - pfx_bits p) (- 1))
           in a AND mask = a))"

definition parse_cidr :: "string \<Rightarrow> parse_error + ip_prefix" where
  "parse_cidr s =
     (case split_once CHR ''/'' s of
        None \<Rightarrow> Inl (InvalidCidr s)
      | Some (ip_str, bits_str) \<Rightarrow>
          (case parse_ip ip_str of
             None \<Rightarrow> Inl (InvalidIp ip_str)
           | Some ip \<Rightarrow>
               (case parse_u8 bits_str of
                  None \<Rightarrow> Inl (InvalidPrefixLen bits_str)
                | Some bits \<Rightarrow>
                    let max_bits = (if is_ipv4 ip then 32 else 128)
                    in if max_bits < bits then Inl (InvalidPrefixLen bits_str)
                       else let prefix = \<lparr>pfx_addr = ip, pfx_bits = bits\<rparr>
                            in if \<not> is_masked prefix then Inl (NonNetworkBits s)
                               else Inr prefix)))"

text \<open>
  \<open>masked_prefix\<close> computes \<open>32 - bits\<close> in \<open>u8\<close>; \<open>None\<close> is the overflow of a length that is
  too large for the family.
\<close>

fun masked_prefix :: "ipaddr \<Rightarrow> nat \<Rightarrow> ip_prefix option" where
  "masked_prefix (V4 a) bits =
     (if 32 < bits then None
      else let mask = (if bits = 0 then 0 else push_bit (32 - bits) (- 1))
           in Some \<lparr>pfx_addr = V4 (a AND mask), pfx_bits = bits\<rparr>)"
| "masked_prefix (V6 a) bits =
     (if 128 < bits then None
      else let mask = (if bits = 0 then 0 else push_bit (128 - bits) (- 1))
           in Some \<lparr>pfx_addr = V6 (a AND mask), pfx_bits = bits\<rparr>)"

definition host_prefix :: "ipaddr \<Rightarrow> ip_prefix" where
  "host_prefix a = \<lparr>pfx_addr = a, pfx_bits = (if is_ipv4 a then 32 else 128)\<rparr>"

definition wildcard_prefixes :: "ip_prefix list" where
  "wildcard_prefixes =
     [\<lparr>pfx_addr = unspecified4, pfx_bits = 0\<rparr>, \<lparr>pfx_addr = unspecified6, pfx_bits = 0\<rparr>]"

subsection \<open>Membership is agreement on the leading bits\<close>

lemma v4_contains_iff:
  assumes "n \<le> 32"
  shows "v4_contains net ip n \<longleftrightarrow> take n (wbits ip) = take n (wbits net)"
  using assms drop_bit_eq_iff_take_wbits[of n net ip]
  by (auto simp: v4_contains_def)

lemma v6_contains_iff:
  assumes "n \<le> 128"
  shows "v6_contains net ip n \<longleftrightarrow> take n (wbits ip) = take n (wbits net)"
proof -
  define i r where "i = n div 8" and "r = n mod 8"
  have n: "n = 8 * i + r" and r8: "r < 8" by (simp_all add: i_def r_def)
  let ?a = "to_be_bytes net" and ?b = "to_be_bytes ip"
  have cat: "wbits net = concat (map wbits ?a)" "wbits ip = concat (map wbits ?b)"
    by (simp_all add: be_simps)
  show ?thesis
  proof (cases "r = 0")
    case True
    have "take n (wbits ip) = take n (wbits net) \<longleftrightarrow> take i ?b = take i ?a"
      by (simp add: cat n True take_concat_const[of wbits 8])
    with assms True show ?thesis
      by (auto simp: v6_contains_def Let_def n)
  next
    case False
    with assms n have i: "i < 16" by linarith
    have m: "net_b AND push_bit (8 - r) 0xff = ip_b AND push_bit (8 - r) 0xff \<longleftrightarrow>
        take r (wbits net_b) = take r (wbits ip_b)" for net_b ip_b :: u8
      using high_mask_eq_iff[of r net_b ip_b] r8 by simp
    have "take n (wbits ip) = take n (wbits net) \<longleftrightarrow>
        take i ?b = take i ?a \<and> take r (wbits (?b ! i)) = take r (wbits (?a ! i))"
      using i r8 by (simp only: cat n) (subst take_bytes_eq_iff, auto)
    with assms False n r8 show ?thesis
      by (auto simp: v6_contains_def Let_def m)
  qed
qed

lemma prefix_contains_iff:
  assumes "pfx_bits p \<le> addr_len (pfx_addr p)"
  shows "prefix_contains p ip \<longleftrightarrow> leading_bits_agree (pfx_addr p) (pfx_bits p) ip"
  using assms
  by (cases "pfx_addr p"; cases ip)
    (simp_all add: prefix_contains.simps leading_bits_agree_def addr_len_def
      v4_contains_iff v6_contains_iff)

interpretation fp: prefix_containment prefix_contains pfx_addr pfx_bits
  by unfold_locales (rule prefix_contains_iff)

subsection \<open>A range is covered exactly\<close>

lemma bit_imp_ge_power: "bit (w :: 'a::len word) n \<Longrightarrow> 2 ^ n \<le> unat w"
proof -
  assume "bit w n"
  then have "bit (unat w) n" by (simp add: bit_unsigned_iff bit_imp_le_length)
  then have "odd (unat w div 2 ^ n)" by (simp add: bit_iff_odd)
  then have "unat w div 2 ^ n \<noteq> 0" by (intro notI) simp
  then show ?thesis by (simp add: div_eq_0_iff)
qed

lemma trailing_zeros_dvd: "2 ^ trailing_zeros w dvd unat (w :: 'a::len word)"
proof -
  have "\<not> bit w k" if "k < trailing_zeros w" for k
  proof -
    have len: "trailing_zeros w \<le> LENGTH('a)"
      unfolding trailing_zeros_def by (rule order_trans[OF length_takeWhile_le]) simp
    have "\<not> rev (wbits w) ! k"
      using that unfolding trailing_zeros_def by (metis nth_mem set_takeWhileD takeWhile_nth)
    with that len show ?thesis by (simp add: rev_nth)
  qed
  then have "take_bit (trailing_zeros w) (unat w) = 0"
    by (auto simp: bit_eq_iff bit_take_bit_iff bit_unsigned_iff)
  then show ?thesis by (simp add: take_bit_eq_mod mod_eq_0_iff_dvd)
qed

lemma ilog2_less: "ilog2 (w :: 'a::len word) < LENGTH('a)"
  by (simp add: ilog2_def)

lemma ilog2_le:
  assumes "(w :: 'a::len word) \<noteq> 0"
  shows "2 ^ ilog2 w \<le> unat w"
proof -
  have "\<exists>b \<in> set (wbits w). b"
  proof (rule ccontr)
    assume "\<not> ?thesis"
    then have "wbits w = replicate LENGTH('a) False" by (intro replicate_eqI) auto
    then have "wbits w = wbits (0 :: 'a word)" by (simp add: wbits_zero)
    then have "w = 0" by simp
    with assms show False ..
  qed
  then have "length (takeWhile Not (wbits w)) < length (wbits w)"
    using takeWhile_eq_all_conv[of Not "wbits w"]
    by (metis length_takeWhile_le nat_less_le takeWhile_eq_take take_all)
  then have l: "leading_zeros w < LENGTH('a)" by (simp add: leading_zeros_def)
  have "wbits w ! leading_zeros w"
    using nth_length_takeWhile[of Not "wbits w"] l by (simp add: leading_zeros_def)
  with l have "bit w (ilog2 w)" by (simp add: ilog2_def)
  then show ?thesis by (rule bit_imp_ge_power)
qed

lemma drop_bit_eq_block:
  fixes a ip :: "'a::len word"
  assumes "2 ^ h dvd unat a"
  shows "drop_bit h a = drop_bit h ip \<longleftrightarrow> unat a \<le> unat ip \<and> unat ip < unat a + 2 ^ h"
proof -
  from assms obtain q where q: "unat a = 2 ^ h * q" by (elim dvdE)
  have "drop_bit h a = drop_bit h ip \<longleftrightarrow> unat ip div 2 ^ h = q"
    by (simp only: word_unat_eq_iff unat_drop_bit_eq) (auto simp: drop_bit_eq_div q)
  also have "\<dots> \<longleftrightarrow> 2 ^ h * q \<le> unat ip \<and> unat ip < 2 ^ h * q + 2 ^ h"
    by (simp add: div_nat_eqI mult.commute div_less_iff_less_mult) 
       (metis add.commute div_nat_eqI div_times_less_eq_dividend dividend_less_div_times mult.commute mult_Suc zero_less_numeral zero_less_power)
  finally show ?thesis by (simp add: q)
qed

text \<open>The block that one iteration emits: aligned, and inside the remaining range.\<close>

definition range_host_bits :: "'a::len word \<Rightarrow> 'a word \<Rightarrow> nat" where
  "range_host_bits cur last_ip =
     min (min (if cur = 0 then LENGTH('a) else trailing_zeros cur)
            (if last_ip - cur + 1 = 0 then 0 else ilog2 (last_ip - cur + 1))) LENGTH('a)"

lemma range_block:
  fixes cur last_ip :: "'a::len word"
  assumes "cur \<le> last_ip"
  defines "h \<equiv> range_host_bits cur last_ip"
  shows "h < LENGTH('a)" and "2 ^ h dvd unat cur" and "unat cur + 2 ^ h \<le> unat last_ip + 1"
proof -
  let ?r = "last_ip - cur + 1"
  have h: "h \<le> (if ?r = 0 then 0 else ilog2 ?r)" by (simp add: h_def range_host_bits_def)
  then show "h < LENGTH('a)" using ilog2_less[of ?r] by (auto split: if_splits)
  show "2 ^ h dvd unat cur"
  proof (cases "cur = 0")
    case False
    then have "h \<le> trailing_zeros cur" by (simp add: h_def range_host_bits_def)
    then show ?thesis using trailing_zeros_dvd[of cur] by (meson dvd_trans le_imp_power_dvd)
  qed simp
  show "unat cur + 2 ^ h \<le> unat last_ip + 1"
  proof (cases "?r = 0")
    case True
    with h assms(1) show ?thesis by (simp add: word_le_nat_alt)
  next
    case False
    have "unat ?r \<le> unat (last_ip - cur) + 1"
      using False by (simp add: unatSuc add.commute)
    also have "unat (last_ip - cur) = unat last_ip - unat cur" using assms(1) by (rule unat_sub)
    finally have "unat ?r \<le> unat last_ip - unat cur + 1" .
    moreover have "2 ^ h \<le> unat ?r"
      using h False ilog2_le[OF False] by (simp) (meson le_trans one_le_numeral power_increasing)
    ultimately show ?thesis using assms(1) by (simp add: word_le_nat_alt)
  qed
qed

lemma range_loop_step:
  fixes cur last_ip :: "'a::len word"
  assumes "cur \<le> last_ip"
  defines "h \<equiv> range_host_bits cur last_ip"
  defines "nxt \<equiv> saturating_add cur (2 ^ h)"
  shows "range_loop cur last_ip =
    (cur, LENGTH('a) - h) # (if nxt \<le> cur then [] else range_loop nxt last_ip)"
proof -
  have h: "h < LENGTH('a)" unfolding h_def by (rule range_block(1)[OF assms(1)])
  then have "unat (2 ^ h :: 'a word) \<noteq> 0" by (simp add: unat_2p)
  then have "(2 ^ h :: 'a word) \<noteq> 0" by (metis unat_0)
  with h show ?thesis
    by (subst range_loop.simps)
      (simp add: assms(1) Let_def nxt_def flip: range_host_bits_def h_def)
qed

lemma saturating_add_cases:
  fixes cur :: "'a::len word"
  assumes "h < LENGTH('a)" and "unat cur + 2 ^ h \<le> 2 ^ LENGTH('a)"
  shows "unat (saturating_add cur (2 ^ h)) =
    (if unat cur + 2 ^ h < 2 ^ LENGTH('a) then unat cur + 2 ^ h else 2 ^ LENGTH('a) - 1)"
proof -
  have "unat (2 ^ h :: 'a word) = 2 ^ h" using assms(1) by (rule unat_2p)
  then show ?thesis using assms
    by (simp add: saturating_add_def unat_word_ariths unat_max)
qed

lemma range_loop_cover:
  fixes cur last_ip ip :: "'a::len word"
  shows "(\<exists>(a, n) \<in> set (range_loop cur last_ip). drop_bit (LENGTH('a) - n) a = drop_bit (LENGTH('a) - n) ip)
    \<longleftrightarrow> cur \<le> ip \<and> ip \<le> last_ip"
proof (induction "2 ^ LENGTH('a) - unat cur" arbitrary: cur rule: less_induct)
  case less
  show ?case
  proof (cases "cur \<le> last_ip")
    case False
    then show ?thesis by (auto simp: range_loop.simps[of cur])
  next
    case True
    define h where "h = range_host_bits cur last_ip"
    define nxt where "nxt = saturating_add cur (2 ^ h)"
    note b = range_block[OF True, folded h_def]
    have lim: "unat last_ip < 2 ^ LENGTH('a)" "unat ip < 2 ^ LENGTH('a)" by (rule unat_less_2p)+
    have nxt: "unat nxt = (if unat cur + 2 ^ h < 2 ^ LENGTH('a) then unat cur + 2 ^ h else 2 ^ LENGTH('a) - 1)"
      unfolding nxt_def using b lim by (intro saturating_add_cases) linarith+
    have blk: "drop_bit h cur = drop_bit h ip \<longleftrightarrow> unat cur \<le> unat ip \<and> unat ip < unat cur + 2 ^ h"
      by (rule drop_bit_eq_block[OF b(2)])
    have pos: "(1::nat) \<le> 2 ^ h" by simp
    have step: "range_loop cur last_ip =
        (cur, LENGTH('a) - h) # (if nxt \<le> cur then [] else range_loop nxt last_ip)"
      unfolding h_def nxt_def by (rule range_loop_step[OF True])
    show ?thesis
    proof (cases "nxt \<le> cur")
      case True
      then have "unat cur + 1 = 2 ^ LENGTH('a)"
        using nxt pos unat_less_2p[of cur]
        by (simp add: word_le_nat_alt del: unsigned_less split: if_splits)
      then show ?thesis
        using True b(1,3) pos lim
        by (auto simp: step blk word_le_nat_alt simp del: unsigned_less) (use pos in linarith)
    next
      case False
      have IH: "(\<exists>(a, n) \<in> set (range_loop nxt last_ip). drop_bit (LENGTH('a) - n) a = drop_bit (LENGTH('a) - n) ip)
          \<longleftrightarrow> nxt \<le> ip \<and> ip \<le> last_ip"
        by (rule less) (rule not_le_decreases_distance[OF False])
      have "(\<exists>(a, n) \<in> set (range_loop cur last_ip). drop_bit (LENGTH('a) - n) a = drop_bit (LENGTH('a) - n) ip)
          \<longleftrightarrow> drop_bit h cur = drop_bit h ip \<or> (nxt \<le> ip \<and> ip \<le> last_ip)"
        using False b(1) IH
        by (auto simp: step)
      also have "\<dots> \<longleftrightarrow> cur \<le> ip \<and> ip \<le> last_ip"
        using b(3) nxt pos lim
        by (auto simp: blk word_le_nat_alt simp del: unsigned_less split: if_splits)
          (use pos in linarith)+
      finally show ?thesis .
    qed
  qed
qed

lemma range_loop_len:
  fixes cur last_ip :: "'a::len word"
  shows "(a, n) \<in> set (range_loop cur last_ip) \<Longrightarrow> n \<le> LENGTH('a)"
proof (induction "2 ^ LENGTH('a) - unat cur" arbitrary: cur rule: less_induct)
  case less
  show ?case
  proof (cases "cur \<le> last_ip")
    case True
    note step = range_loop_step[OF True]
    let ?nxt = "saturating_add cur (2 ^ range_host_bits cur last_ip)"
    show ?thesis
    proof (cases "(a, n) \<in> set (range_loop ?nxt last_ip) \<and> \<not> ?nxt \<le> cur")
      case True
      then show ?thesis using less.hyps not_le_decreases_distance by blast
    next
      case False
      with less.prems step show ?thesis by (auto split: if_splits)
    qed
  next
    case False
    with less.prems show ?thesis by (simp add: range_loop.simps[of cur])
  qed
qed

lemma range_to_prefixes_v4_contains:
  "(\<exists>p \<in> set (range_to_prefixes_v4 s e). prefix_contains p (V4 ip)) \<longleftrightarrow> s \<le> ip \<and> ip \<le> e"
proof -
  have c: "prefix_contains (case x of (a, n) \<Rightarrow> \<lparr>pfx_addr = V4 a, pfx_bits = n\<rparr>) (V4 ip) \<longleftrightarrow>
      (case x of (a, n) \<Rightarrow> drop_bit (32 - n) a = drop_bit (32 - n) ip)"
    if "x \<in> set (range_loop s e)" for x
    using that range_loop_len[of "fst x" "snd x" s e] drop_bit_eq_iff_take_wbits[of "snd x" "fst x" ip]
    by - (cases x, simp add: prefix_contains.simps v4_contains_iff eq_commute)
  have "(\<exists>p \<in> set (range_to_prefixes_v4 s e). prefix_contains p (V4 ip)) \<longleftrightarrow>
      s \<le> e \<and> (\<exists>(a, n) \<in> set (range_loop s e). drop_bit (32 - n) a = drop_bit (32 - n) ip)"
    by (simp add: range_to_prefixes_v4_def c not_less[symmetric] cong: bex_cong)
  also have "\<dots> \<longleftrightarrow> s \<le> ip \<and> ip \<le> e" using range_loop_cover[of s e ip] by auto
  finally show ?thesis .
qed

lemma range_to_prefixes_v6_contains:
  "(\<exists>p \<in> set (range_to_prefixes_v6 s e). prefix_contains p (V6 ip)) \<longleftrightarrow> s \<le> ip \<and> ip \<le> e"
proof -
  have c: "prefix_contains (case x of (a, n) \<Rightarrow> \<lparr>pfx_addr = V6 a, pfx_bits = n\<rparr>) (V6 ip) \<longleftrightarrow>
      (case x of (a, n) \<Rightarrow> drop_bit (128 - n) a = drop_bit (128 - n) ip)"
    if "x \<in> set (range_loop s e)" for x
    using that range_loop_len[of "fst x" "snd x" s e] drop_bit_eq_iff_take_wbits[of "snd x" "fst x" ip]
    by - (cases x, simp add: prefix_contains.simps v6_contains_iff eq_commute)
  have "(\<exists>p \<in> set (range_to_prefixes_v6 s e). prefix_contains p (V6 ip)) \<longleftrightarrow>
      s \<le> e \<and> (\<exists>(a, n) \<in> set (range_loop s e). drop_bit (128 - n) a = drop_bit (128 - n) ip)"
    by (simp add: range_to_prefixes_v6_def c not_less[symmetric] cong: bex_cong)
  also have "\<dots> \<longleftrightarrow> s \<le> ip \<and> ip \<le> e" using range_loop_cover[of s e ip] by auto
  finally show ?thesis .
qed

text \<open>C12. The range decomposition is exact: the prefixes that \<open>range_to_prefixes_v4\<close> and
  \<open>range_to_prefixes_v6\<close> return for a range \<open>start\<close>-\<open>end\<close> contain an address of the family exactly
  if it lies in the range; an empty range gives no prefix.  This holds up to the last address of
  the family, where the addition of the block size saturates.\<close>

theorem range_to_prefixes_exact:
  "((\<exists>p \<in> set (range_to_prefixes_v4 s4 e4). prefix_contains p (V4 ip4)) \<longleftrightarrow> s4 \<le> ip4 \<and> ip4 \<le> e4) \<and>
   ((\<exists>p \<in> set (range_to_prefixes_v6 s6 e6). prefix_contains p (V6 ip6)) \<longleftrightarrow> s6 \<le> ip6 \<and> ip6 \<le> e6)"
  using range_to_prefixes_v4_contains range_to_prefixes_v6_contains by simp

end
