(* ===== verification/Packet.thy ===== *)
theory Packet
  imports Std_Net "HOL-Library.Monad_Syntax"
begin

text \<open>
  \<open>crates/packet/src/lib.rs\<close>: decoding of IPv4 and IPv6 packets.  The source has two decoders,
  \<open>Parsed::decode\<close> and the older \<open>parse_packet\<close>, with the same header walk.  Every slice access
  goes through \<open>idx\<close> and \<open>slice\<close>, so that the outer \<open>option\<close> of a result is \<open>None\<close> exactly when
  the Rust code would panic.
\<close>

subsection \<open>Protocol numbers and TCP flags\<close>

definition UNKNOWN :: u8 where "UNKNOWN = 0"
definition ICMP_V4 :: u8 where "ICMP_V4 = 1"
definition IGMP :: u8 where "IGMP = 2"
definition TCP :: u8 where "TCP = 6"
definition UDP :: u8 where "UDP = 17"
definition FRAGMENT :: u8 where "FRAGMENT = 44"
definition ICMP_V6 :: u8 where "ICMP_V6 = 58"
definition SCTP :: u8 where "SCTP = 132"
definition TSMP :: u8 where "TSMP = 99"

lemmas proto_defs = UNKNOWN_def ICMP_V4_def IGMP_def TCP_def UDP_def FRAGMENT_def ICMP_V6_def
  SCTP_def TSMP_def

type_synonym tcp_flag = u8

definition FIN :: tcp_flag where "FIN = 0x01"
definition SYN :: tcp_flag where "SYN = 0x02"
definition RST :: tcp_flag where "RST = 0x04"
definition PSH :: tcp_flag where "PSH = 0x08"
definition ACK :: tcp_flag where "ACK = 0x10"
definition URG :: tcp_flag where "URG = 0x20"
definition ECE :: tcp_flag where "ECE = 0x40"
definition CWR :: tcp_flag where "CWR = 0x80"
definition SYN_ACK :: tcp_flag where "SYN_ACK = SYN OR ACK"

definition flag_contains :: "tcp_flag \<Rightarrow> tcp_flag \<Rightarrow> bool" where
  "flag_contains self other = (self AND other = other)"

definition flag_is_set :: "tcp_flag \<Rightarrow> tcp_flag \<Rightarrow> bool" where
  "flag_is_set self flag = (self AND flag \<noteq> 0)"

subsection \<open>Header records\<close>

record ipv4_header =
  h4_version :: u8
  h4_ihl :: u8
  h4_tos :: u8
  h4_total_len :: u16
  h4_id :: u16
  h4_flags_frag :: u16
  h4_ttl :: u8
  h4_proto :: u8
  h4_checksum :: u16
  h4_src :: u32
  h4_dst :: u32

record ipv6_header =
  h6_version :: u8
  h6_traffic_class :: u8
  h6_flow_label :: u32
  h6_payload_len :: u16
  h6_next_header :: u8
  h6_hop_limit :: u8
  h6_src :: u128
  h6_dst :: u128

record icmp_hdr =
  icmp_type :: u8
  icmp_code :: u8
  icmp_checksum :: u16
  icmp_rest_of_header :: u32

record udp_hdr =
  udp_src_port :: u16
  udp_dst_port :: u16
  udp_len :: u16
  udp_checksum :: u16

definition ICMP_V4_ERROR_TYPES :: "u8 list" where "ICMP_V4_ERROR_TYPES = [3, 4, 11, 12]"
definition ICMP_V6_ERROR_TYPES :: "u8 list" where "ICMP_V6_ERROR_TYPES = [1, 2, 3, 4]"

record packet_info =
  pi_version :: u8
  pi_proto :: u8
  pi_src :: ipaddr
  pi_dst :: ipaddr
  pi_src_port :: u16
  pi_dst_port :: u16
  pi_tcp_flags :: u8
  pi_is_tcp_syn :: bool
  pi_is_icmp_echo_reply :: bool
  pi_is_icmp_error :: bool

definition packet_info_default :: packet_info where
  "packet_info_default =
     \<lparr>pi_version = 0, pi_proto = 0, pi_src = unspecified4, pi_dst = unspecified4,
      pi_src_port = 0, pi_dst_port = 0, pi_tcp_flags = 0, pi_is_tcp_syn = False,
      pi_is_icmp_echo_reply = False, pi_is_icmp_error = False\<rparr>"

record parsed =
  p_buf :: bytes
  p_subofs :: nat
  p_dataofs :: nat
  p_length :: nat
  p_ip_version :: u8
  p_ip_proto :: u8
  p_src :: ipaddr
  p_dst :: ipaddr
  p_src_port :: u16
  p_dst_port :: u16
  p_tcp_flags :: tcp_flag

subsection \<open>The IPv6 extension-header walk\<close>

text \<open>
  The loop of \<open>decode6\<close> and \<open>parse_v6\<close>: from a next-header number and an offset to those of
  the transport header.  A header is at least 8 bytes long, so the offset grows while it is
  inside the buffer.
\<close>

function ext_header_loop :: "bytes \<Rightarrow> u8 \<Rightarrow> nat \<Rightarrow> (u8 \<times> nat) option" where
  "ext_header_loop b next_header offset =
     (if next_header = 0 \<or> next_header = 43 \<or> next_header = 60 \<or> next_header = 51 then
        if length b < offset + 2 then Some (next_header, offset)
        else do {
          new_nh \<leftarrow> idx b offset;
          l \<leftarrow> idx b (offset + 1);
          let hdr_len = (if next_header = 51 then (unat l + 2) * 4 else (unat l + 1) * 8);
          ext_header_loop b new_nh (offset + hdr_len)
        }
      else if next_header = FRAGMENT then
        if length b < offset + 8 then Some (next_header, offset)
        else do {
          hi \<leftarrow> idx b (offset + 2);
          lo \<leftarrow> idx b (offset + 3);
          let frag_offset = (push_bit 5 (ucast hi) :: u16) OR drop_bit 3 (ucast lo);
          if frag_offset \<noteq> 0 then Some (next_header, offset)
          else do {
            new_nh \<leftarrow> idx b offset;
            ext_header_loop b new_nh (offset + 8)
          }
        }
      else Some (next_header, offset))"
  by pat_completeness auto
termination
  by (relation "measure (\<lambda>(b, _, offset). length b - offset)") auto

declare ext_header_loop.simps [simp del]

subsection \<open>\<open>Parsed::decode\<close>\<close>

definition fill_transport :: "parsed \<Rightarrow> bytes \<Rightarrow> parsed option" where
  "fill_transport q t =
     (if p_ip_proto q = TCP then
        if 14 \<le> length t then do {
          sp \<leftarrow> slice t 0 2;
          dp \<leftarrow> slice t 2 4;
          fl \<leftarrow> idx t 13;
          Some (q\<lparr>p_src_port := from_be_bytes sp, p_dst_port := from_be_bytes dp, p_tcp_flags := fl\<rparr>)
        } else Some q
      else if (p_ip_proto q = UDP \<or> p_ip_proto q = SCTP) \<and> 4 \<le> length t then do {
          sp \<leftarrow> slice t 0 2;
          dp \<leftarrow> slice t 2 4;
          Some (q\<lparr>p_src_port := from_be_bytes sp, p_dst_port := from_be_bytes dp\<rparr>)
        }
      else Some q)"

definition compute_dataofs :: "parsed \<Rightarrow> bytes \<Rightarrow> nat option" where
  "compute_dataofs q t =
     (if p_ip_proto q = TCP then
        if 14 \<le> length t then do {
          d \<leftarrow> idx t 12;
          Some (p_subofs q + unat (drop_bit 4 d) * 4)
        } else Some (p_subofs q)
      else if p_ip_proto q = UDP then Some (p_subofs q + 8)
      else if p_ip_proto q = SCTP then Some (p_subofs q + 12)
      else if p_ip_proto q = ICMP_V4 \<or> p_ip_proto q = ICMP_V6 then Some (p_subofs q + 8)
      else Some (p_subofs q))"

definition decode4 :: "parsed \<Rightarrow> bytes \<Rightarrow> parsed option" where
  "decode4 q b =
     (if length b < 20 then Some (q\<lparr>p_ip_proto := UNKNOWN\<rparr>)
      else do {
        b0 \<leftarrow> idx b 0;
        let ihl = unat (b0 AND 0x0f) * 4;
        if ihl < 20 \<or> length b < ihl then Some (q\<lparr>p_ip_proto := UNKNOWN\<rparr>)
        else do {
          proto \<leftarrow> idx b 9;
          s \<leftarrow> slice b 12 16;
          d \<leftarrow> slice b 16 20;
          let q = q\<lparr>p_ip_proto := proto, p_src := V4 (from_be_bytes s), p_dst := V4 (from_be_bytes d),
                    p_subofs := ihl\<rparr>;
          t \<leftarrow> slice_from b ihl;
          q \<leftarrow> fill_transport q t;
          dofs \<leftarrow> compute_dataofs q t;
          Some (q\<lparr>p_dataofs := dofs\<rparr>)
        }
      })"

definition decode6 :: "parsed \<Rightarrow> bytes \<Rightarrow> parsed option" where
  "decode6 q b =
     (if length b < 40 then Some (q\<lparr>p_ip_proto := UNKNOWN\<rparr>)
      else do {
        nh0 \<leftarrow> idx b 6;
        s \<leftarrow> slice b 8 24;
        d \<leftarrow> slice b 24 40;
        let q = q\<lparr>p_src := V6 (from_be_bytes s), p_dst := V6 (from_be_bytes d)\<rparr>;
        (next_header, offset) \<leftarrow> ext_header_loop b nh0 40;
        let q = q\<lparr>p_ip_proto := next_header, p_subofs := offset\<rparr>;
        if offset < length b then do {
          t \<leftarrow> slice_from b offset;
          q \<leftarrow> fill_transport q t;
          dofs \<leftarrow> compute_dataofs q t;
          Some (q\<lparr>p_dataofs := dofs\<rparr>)
        } else Some q
      })"

definition decode :: "bytes \<Rightarrow> parsed option" where
  "decode buf =
     (let q = \<lparr>p_buf = buf, p_subofs = 0, p_dataofs = 0, p_length = length buf, p_ip_version = 0,
               p_ip_proto = UNKNOWN, p_src = unspecified4, p_dst = unspecified4, p_src_port = 0,
               p_dst_port = 0, p_tcp_flags = 0\<rparr>
      in if buf = [] then Some q
         else do {
           b0 \<leftarrow> idx buf 0;
           let q = q\<lparr>p_ip_version := drop_bit 4 b0\<rparr>;
           if p_ip_version q = 4 then decode4 q buf
           else if p_ip_version q = 6 then decode6 q buf
           else Some (q\<lparr>p_ip_version := 0, p_ip_proto := UNKNOWN\<rparr>)
         })"

subsection \<open>Views of a parsed packet\<close>

definition transport :: "parsed \<Rightarrow> bytes option" where
  "transport q = (if length (p_buf q) < p_subofs q then Some [] else slice_from (p_buf q) (p_subofs q))"

definition payload :: "parsed \<Rightarrow> bytes option" where
  "payload q =
     (if length (p_buf q) < p_length q \<or> length (p_buf q) < p_dataofs q then Some []
      else slice (p_buf q) (p_dataofs q) (p_length q))"

definition is_tcp_syn :: "parsed \<Rightarrow> bool" where
  "is_tcp_syn q = (p_tcp_flags q AND SYN_ACK = SYN)"

definition is_echo_request :: "parsed \<Rightarrow> bool" where
  "is_echo_request q =
     (if p_ip_proto q = ICMP_V4 then
        p_subofs q + 8 \<le> length (p_buf q) \<and> p_buf q ! p_subofs q = 8 \<and> p_buf q ! (p_subofs q + 1) = 0
      else if p_ip_proto q = ICMP_V6 then
        p_subofs q + 8 \<le> length (p_buf q) \<and> p_buf q ! p_subofs q = 128 \<and> p_buf q ! (p_subofs q + 1) = 0
      else False)"

definition is_echo_response :: "parsed \<Rightarrow> bool" where
  "is_echo_response q =
     (if p_ip_proto q = ICMP_V4 then
        p_subofs q + 8 \<le> length (p_buf q) \<and> p_buf q ! p_subofs q = 0 \<and> p_buf q ! (p_subofs q + 1) = 0
      else if p_ip_proto q = ICMP_V6 then
        p_subofs q + 8 \<le> length (p_buf q) \<and> p_buf q ! p_subofs q = 129 \<and> p_buf q ! (p_subofs q + 1) = 0
      else False)"

definition is_error :: "parsed \<Rightarrow> bool" where
  "is_error q =
     (if p_ip_proto q = ICMP_V4 then
        p_subofs q < length (p_buf q) \<and> p_buf q ! p_subofs q \<in> set ICMP_V4_ERROR_TYPES
      else if p_ip_proto q = ICMP_V6 then
        p_subofs q < length (p_buf q) \<and> p_buf q ! p_subofs q \<in> set ICMP_V6_ERROR_TYPES
      else False)"

definition ip4_header :: "parsed \<Rightarrow> ipv4_header option" where
  "ip4_header q =
     (if p_ip_version q \<noteq> 4 then None
      else do {
        let b = p_buf q;
        b0 \<leftarrow> idx b 0; tos \<leftarrow> idx b 1; tl \<leftarrow> slice b 2 4; ident \<leftarrow> slice b 4 6; ff \<leftarrow> slice b 6 8;
        ttl \<leftarrow> idx b 8; pr \<leftarrow> idx b 9; ck \<leftarrow> slice b 10 12; s \<leftarrow> slice b 12 16; d \<leftarrow> slice b 16 20;
        Some \<lparr>h4_version = 4, h4_ihl = b0 AND 0x0f, h4_tos = tos, h4_total_len = from_be_bytes tl,
              h4_id = from_be_bytes ident, h4_flags_frag = from_be_bytes ff, h4_ttl = ttl,
              h4_proto = pr, h4_checksum = from_be_bytes ck, h4_src = from_be_bytes s,
              h4_dst = from_be_bytes d\<rparr>
      })"

definition ip6_header :: "parsed \<Rightarrow> ipv6_header option" where
  "ip6_header q =
     (if p_ip_version q \<noteq> 6 then None
      else do {
        let b = p_buf q;
        v \<leftarrow> slice b 0 4; pl \<leftarrow> slice b 4 6; nh \<leftarrow> idx b 6; hl \<leftarrow> idx b 7;
        s \<leftarrow> slice b 8 24; d \<leftarrow> slice b 24 40;
        let vtc_fl = (from_be_bytes v :: u32);
        Some \<lparr>h6_version = ucast (drop_bit 28 vtc_fl), h6_traffic_class = ucast (drop_bit 20 vtc_fl AND 0xff),
              h6_flow_label = vtc_fl AND 0xfffff, h6_payload_len = from_be_bytes pl, h6_next_header = nh,
              h6_hop_limit = hl, h6_src = from_be_bytes s, h6_dst = from_be_bytes d\<rparr>
      })"

definition icmp_header :: "parsed \<Rightarrow> icmp_hdr option" where
  "icmp_header q = do {
     b \<leftarrow> slice_from (p_buf q) (p_subofs q);
     t \<leftarrow> idx b 0; c \<leftarrow> idx b 1; ck \<leftarrow> slice b 2 4; r \<leftarrow> slice b 4 8;
     Some \<lparr>icmp_type = t, icmp_code = c, icmp_checksum = from_be_bytes ck,
           icmp_rest_of_header = from_be_bytes r\<rparr>
   }"

definition udp_header :: "parsed \<Rightarrow> udp_hdr option" where
  "udp_header q = do {
     b \<leftarrow> slice_from (p_buf q) (p_subofs q);
     sp \<leftarrow> slice b 0 2; dp \<leftarrow> slice b 2 4; l \<leftarrow> slice b 4 6; ck \<leftarrow> slice b 6 8;
     Some \<lparr>udp_src_port = from_be_bytes sp, udp_dst_port = from_be_bytes dp,
           udp_len = from_be_bytes l, udp_checksum = from_be_bytes ck\<rparr>
   }"

subsection \<open>\<open>parse_packet\<close>\<close>

definition fill_transport_info :: "packet_info \<Rightarrow> u8 \<Rightarrow> bytes \<Rightarrow> packet_info option" where
  "fill_transport_info info proto t =
     (if proto = TCP then
        if 14 \<le> length t then do {
          sp \<leftarrow> slice t 0 2;
          dp \<leftarrow> slice t 2 4;
          fl \<leftarrow> idx t 13;
          Some (info\<lparr>pi_src_port := from_be_bytes sp, pi_dst_port := from_be_bytes dp,
                     pi_tcp_flags := fl, pi_is_tcp_syn := (fl AND (SYN OR ACK) = SYN)\<rparr>)
        } else Some info
      else if proto = UDP \<or> proto = SCTP then
        if 4 \<le> length t then do {
          sp \<leftarrow> slice t 0 2;
          dp \<leftarrow> slice t 2 4;
          Some (info\<lparr>pi_src_port := from_be_bytes sp, pi_dst_port := from_be_bytes dp\<rparr>)
        } else Some info
      else if proto = ICMP_V4 \<and> t \<noteq> [] then do {
          ty \<leftarrow> idx t 0;
          Some (info\<lparr>pi_is_icmp_echo_reply := (ty = 0), pi_is_icmp_error := (ty \<in> set ICMP_V4_ERROR_TYPES)\<rparr>)
        }
      else if proto = ICMP_V6 \<and> t \<noteq> [] then do {
          ty \<leftarrow> idx t 0;
          Some (info\<lparr>pi_is_icmp_echo_reply := (ty = 129), pi_is_icmp_error := (ty \<in> set ICMP_V6_ERROR_TYPES)\<rparr>)
        }
      else Some info)"

definition parse_v4 :: "bytes \<Rightarrow> packet_info option option" where
  "parse_v4 buf =
     (if length buf < 20 then Some None
      else do {
        b0 \<leftarrow> idx buf 0;
        let ihl = unat (b0 AND 0x0f) * 4;
        if ihl < 20 \<or> length buf < ihl then Some None
        else do {
          proto \<leftarrow> idx buf 9;
          s \<leftarrow> slice buf 12 16;
          d \<leftarrow> slice buf 16 20;
          let info = packet_info_default\<lparr>pi_version := 4, pi_proto := proto,
                       pi_src := V4 (from_be_bytes s), pi_dst := V4 (from_be_bytes d)\<rparr>;
          t \<leftarrow> slice_from buf ihl;
          info \<leftarrow> fill_transport_info info proto t;
          Some (Some info)
        }
      })"

definition parse_v6 :: "bytes \<Rightarrow> packet_info option option" where
  "parse_v6 buf =
     (if length buf < 40 then Some None
      else do {
        nh0 \<leftarrow> idx buf 6;
        s \<leftarrow> slice buf 8 24;
        d \<leftarrow> slice buf 24 40;
        (proto, offset) \<leftarrow> ext_header_loop buf nh0 40;
        let info = packet_info_default\<lparr>pi_version := 6, pi_proto := proto,
                     pi_src := V6 (from_be_bytes s), pi_dst := V6 (from_be_bytes d)\<rparr>;
        if offset < length buf then do {
          t \<leftarrow> slice_from buf offset;
          info \<leftarrow> fill_transport_info info proto t;
          Some (Some info)
        } else Some (Some info)
      })"

definition parse_packet :: "bytes \<Rightarrow> packet_info option option" where
  "parse_packet buf =
     (if buf = [] then Some None
      else do {
        b0 \<leftarrow> idx buf 0;
        let version = drop_bit 4 b0;
        if version = 4 then parse_v4 buf
        else if version = 6 then parse_v6 buf
        else Some None
      })"

subsection \<open>The decoders never panic\<close>

lemma idx_first: "n \<le> length b \<Longrightarrow> 0 < n \<Longrightarrow> idx b 0 = Some (b ! 0)"
  by (cases b) (simp_all add: idx_def)

lemma slice_None: "length b < j \<Longrightarrow> slice b i j = None"
  by (simp add: slice_def)

lemma unat_word_nibble [simp]: "unat ((w :: u8) AND 0x0f) * 4 \<le> 60"
proof -
  have "w AND 0x0f = take_bit 4 w" by (simp add: take_bit_eq_mask mask_eq_exp_minus_1)
  then have "unat (w AND 0x0f) < 2 ^ 4"
    by (simp only: unsigned_take_bit_eq take_bit_nat_less_exp)
  then show ?thesis by simp
qed

text \<open>
  The walk returns, does not move backwards, and leaves an extension header unread only if the
  buffer ends there or it is a fragment other than the first.
\<close>

definition walk_stops :: "bytes \<Rightarrow> u8 \<Rightarrow> nat \<Rightarrow> bool" where
  "walk_stops b nh off \<longleftrightarrow>
     (nh \<in> {0, 43, 60, 51} \<longrightarrow> length b < off + 2) \<and>
     (nh = FRAGMENT \<longrightarrow> length b < off + 8 \<or>
        (push_bit 5 (ucast (b ! (off + 2))) :: u16) OR drop_bit 3 (ucast (b ! (off + 3))) \<noteq> 0)"

definition ext_header_len :: "u8 \<Rightarrow> u8 \<Rightarrow> nat" where
  "ext_header_len nh l =
     (if nh = FRAGMENT then 8 else if nh = 51 then (unat l + 2) * 4 else (unat l + 1) * 8)"

lemma ext_header_loop_stop: "walk_stops b nh off \<Longrightarrow> ext_header_loop b nh off = Some (nh, off)"
  by (subst ext_header_loop.simps) (auto simp: walk_stops_def)

lemma ext_header_loop_step:
  assumes "\<not> walk_stops b nh off"
  shows "off + 2 \<le> length b"
    and "ext_header_loop b nh off =
           ext_header_loop b (b ! off) (off + ext_header_len nh (b ! (off + 1)))"
proof -
  show "off + 2 \<le> length b" using assms by (auto simp: walk_stops_def)
  then show "ext_header_loop b nh off =
      ext_header_loop b (b ! off) (off + ext_header_len nh (b ! (off + 1)))"
    using assms by (subst ext_header_loop.simps) (auto simp: walk_stops_def ext_header_len_def FRAGMENT_def)
qed

text \<open>The chain of extension headers as RFC 8200 describes it: one step per header.\<close>

inductive ext_step :: "bytes \<Rightarrow> u8 \<times> nat \<Rightarrow> u8 \<times> nat \<Rightarrow> bool" for b where
  ext_header: "\<not> walk_stops b nh off \<Longrightarrow>
     ext_step b (nh, off) (b ! off, off + ext_header_len nh (b ! (off + 1)))"

lemma ext_header_loop_ends:
  "\<exists>nh' off'. ext_header_loop b nh off = Some (nh', off') \<and> off \<le> off' \<and> walk_stops b nh' off' \<and>
     (ext_step b)\<^sup>*\<^sup>* (nh, off) (nh', off')"
proof (induction "length b - off" arbitrary: nh off rule: less_induct)
  case less
  show ?case
  proof (cases "walk_stops b nh off")
    case True
    then show ?thesis by (auto simp: ext_header_loop_stop)
  next
    case False
    let ?off = "off + ext_header_len nh (b ! (off + 1))"
    have "off < ?off" by (simp add: ext_header_len_def)
    with ext_header_loop_step(1)[OF False] have "length b - ?off < length b - off" by linarith
    from less[OF this] \<open>off < ?off\<close> ext_header_loop_step(2)[OF False] ext_header[OF False]
    show ?thesis by (metis converse_rtranclp_into_rtranclp le_trans less_imp_le)
  qed
qed

lemma fill_transport_Some:
  "\<exists>q'. fill_transport q t = Some q' \<and> p_buf q' = p_buf q \<and> p_length q' = p_length q \<and>
     p_subofs q' = p_subofs q \<and> p_ip_version q' = p_ip_version q \<and> p_ip_proto q' = p_ip_proto q \<and>
     p_src q' = p_src q \<and> p_dst q' = p_dst q"
  by (cases "14 \<le> length t"; cases "4 \<le> length t") (simp_all add: fill_transport_def)

lemma fill_transport_empty [simp]:
  "fill_transport q [] = Some q" "fill_transport_info info proto [] = Some info"
  by (simp_all add: fill_transport_def fill_transport_info_def)

lemma compute_dataofs_Some: "\<exists>d. compute_dataofs q t = Some d"
  by (auto simp: compute_dataofs_def)

text \<open>What the two decoders have in common, field by field.\<close>

definition same_packet :: "parsed \<Rightarrow> packet_info \<Rightarrow> bool" where
  "same_packet q info \<longleftrightarrow>
     pi_version info = p_ip_version q \<and> pi_proto info = p_ip_proto q \<and>
     pi_src info = p_src q \<and> pi_dst info = p_dst q \<and>
     pi_src_port info = p_src_port q \<and> pi_dst_port info = p_dst_port q \<and>
     pi_tcp_flags info = p_tcp_flags q \<and> pi_is_tcp_syn info = is_tcp_syn q \<and>
     pi_is_icmp_error info = is_error q \<and>
     is_echo_response q = (pi_is_icmp_echo_reply info \<and> p_subofs q + 8 \<le> length (p_buf q) \<and>
                           p_buf q ! (p_subofs q + 1) = 0)"

lemma same_packet_no_transport:
  assumes "length (p_buf q) \<le> p_subofs q" "p_tcp_flags q = 0" "p_src_port q = 0" "p_dst_port q = 0"
  shows "same_packet q (packet_info_default\<lparr>pi_version := p_ip_version q, pi_proto := p_ip_proto q,
           pi_src := p_src q, pi_dst := p_dst q\<rparr>)"
  using assms
  by (auto simp: same_packet_def packet_info_default_def is_tcp_syn_def is_error_def
      is_echo_response_def SYN_ACK_def SYN_def ACK_def)

lemma same_packet_fill:
  assumes "p_subofs q < length (p_buf q)" "p_tcp_flags q = 0" "p_src_port q = 0" "p_dst_port q = 0"
  defines "info \<equiv> packet_info_default\<lparr>pi_version := p_ip_version q, pi_proto := p_ip_proto q,
                    pi_src := p_src q, pi_dst := p_dst q\<rparr>"
  shows "\<exists>q' info'. fill_transport q (drop (p_subofs q) (p_buf q)) = Some q' \<and>
           fill_transport_info info (p_ip_proto q) (drop (p_subofs q) (p_buf q)) = Some info' \<and>
           same_packet q' info'"
proof -
  let ?t = "drop (p_subofs q) (p_buf q)"
  have t: "?t \<noteq> []" "?t ! 0 = p_buf q ! p_subofs q" using assms by auto
  consider "p_ip_proto q = TCP" "14 \<le> length ?t" | "p_ip_proto q = TCP" "\<not> 14 \<le> length ?t"
    | "p_ip_proto q \<in> {UDP, SCTP}" "4 \<le> length ?t" | "p_ip_proto q \<in> {UDP, SCTP}" "\<not> 4 \<le> length ?t"
    | "p_ip_proto q \<in> {ICMP_V4, ICMP_V6}"
    | "p_ip_proto q \<notin> {TCP, UDP, SCTP, ICMP_V4, ICMP_V6}" by blast
  then show ?thesis
    using t assms(1-4)
    by cases (auto simp: fill_transport_def fill_transport_info_def same_packet_def info_def
        packet_info_default_def is_tcp_syn_def is_error_def is_echo_response_def proto_defs
        SYN_ACK_def SYN_def ACK_def ICMP_V4_ERROR_TYPES_def ICMP_V6_ERROR_TYPES_def)
qed

text \<open>The state in which \<open>decode\<close> calls the version-specific decoders.\<close>

definition parsed_init :: "bytes \<Rightarrow> u8 \<Rightarrow> parsed" where
  "parsed_init b v =
     \<lparr>p_buf = b, p_subofs = 0, p_dataofs = 0, p_length = length b, p_ip_version = v,
      p_ip_proto = UNKNOWN, p_src = unspecified4, p_dst = unspecified4, p_src_port = 0,
      p_dst_port = 0, p_tcp_flags = 0\<rparr>"

lemma decode_cases:
  "decode b =
     (if b = [] then Some (parsed_init b 0)
      else if drop_bit 4 (b ! 0) = 4 then decode4 (parsed_init b 4) b
      else if drop_bit 4 (b ! 0) = 6 then decode6 (parsed_init b 6) b
      else Some (parsed_init b 0))"
  by (simp add: decode_def parsed_init_def)

lemma same_packet_dataofs [simp]: "same_packet (q\<lparr>p_dataofs := d\<rparr>) info = same_packet q info"
  by (simp add: same_packet_def is_tcp_syn_def is_error_def is_echo_response_def)

text \<open>
  Both decoders of a packet with an IPv4 (IPv6) version nibble: either it is too short for its
  header and both reject it, or they return the same packet.
\<close>

definition decoders_agree :: "bytes \<Rightarrow> u8 \<Rightarrow> nat \<Rightarrow> parsed option \<Rightarrow> packet_info option option \<Rightarrow> bool" where
  "decoders_agree b v n rq ri \<longleftrightarrow>
     (\<exists>q r. rq = Some q \<and> ri = Some r \<and> p_buf q = b \<and> p_length q = length b \<and> p_ip_version q = v \<and>
        (case r of None \<Rightarrow> p_ip_proto q = UNKNOWN
         | Some info \<Rightarrow> n \<le> length b \<and> n \<le> p_subofs q \<and> same_packet q info))"

lemma decode4_agrees: "decoders_agree b 4 20 (decode4 (parsed_init b 4) b) (parse_v4 b)"
proof (cases "20 \<le> length b \<and> \<not> unat (b ! 0 AND 0x0f) * 4 < 20 \<and> unat (b ! 0 AND 0x0f) * 4 \<le> length b")
  case False
  then show ?thesis using idx_first[of 20 b]
    by (cases "20 \<le> length b") (auto simp: decoders_agree_def decode4_def parse_v4_def parsed_init_def)
next
  case True
  define ihl where "ihl = unat (b ! 0 AND 0x0f) * 4"
  let ?q = "(parsed_init b 4)\<lparr>p_ip_proto := b ! 9, p_src := V4 (from_be_bytes (take 4 (drop 12 b))),
      p_dst := V4 (from_be_bytes (take 4 (drop 16 b))), p_subofs := ihl\<rparr>"
  let ?info = "packet_info_default\<lparr>pi_version := 4, pi_proto := b ! 9,
      pi_src := V4 (from_be_bytes (take 4 (drop 12 b))),
      pi_dst := V4 (from_be_bytes (take 4 (drop 16 b)))\<rparr>"
  have ihl: "20 \<le> length b" "20 \<le> ihl" "ihl \<le> length b" using True by (auto simp: ihl_def)
  have d: "decode4 (parsed_init b 4) b = do {
      q \<leftarrow> fill_transport ?q (drop ihl b); dofs \<leftarrow> compute_dataofs q (drop ihl b);
      Some (q\<lparr>p_dataofs := dofs\<rparr>)}"
    using ihl idx_first[of 20 b] by (simp add: decode4_def ihl_def Let_def)
  have p: "parse_v4 b = do {info \<leftarrow> fill_transport_info ?info (b ! 9) (drop ihl b); Some (Some info)}"
    using ihl idx_first[of 20 b] by (simp add: parse_v4_def ihl_def Let_def)
  have "\<exists>q info. fill_transport ?q (drop ihl b) = Some q \<and>
      fill_transport_info ?info (b ! 9) (drop ihl b) = Some info \<and> same_packet q info"
  proof (cases "ihl < length b")
    case True
    then show ?thesis using same_packet_fill[of ?q] by (simp add: parsed_init_def)
  next
    case False
    then show ?thesis using ihl same_packet_no_transport[of ?q]
      by (simp add: parsed_init_def)
  qed
  then obtain q info where "fill_transport ?q (drop ihl b) = Some q"
      "fill_transport_info ?info (b ! 9) (drop ihl b) = Some info" "same_packet q info" by blast
  moreover have "p_buf q = b" "p_length q = length b" "p_ip_version q = 4" "p_subofs q = ihl"
    using fill_transport_Some[of ?q "drop ihl b"] calculation by (auto simp: parsed_init_def)
  moreover obtain dofs where "compute_dataofs q (drop ihl b) = Some dofs"
    using compute_dataofs_Some by blast
  ultimately show ?thesis using ihl by (simp add: decoders_agree_def d p)
qed

lemma decode6_agrees:
  "decoders_agree b 6 40 (decode6 (parsed_init b 6) b) (parse_v6 b)"
proof (cases "40 \<le> length b")
  case False
  then show ?thesis
    by (auto simp: decoders_agree_def decode6_def parse_v6_def parsed_init_def not_le)
next
  case True
  obtain nh off where loop: "ext_header_loop b (b ! 6) 40 = Some (nh, off)" and off: "40 \<le> off"
    using ext_header_loop_ends[of b "b ! 6" 40] by blast
  let ?q = "(parsed_init b 6)\<lparr>p_src := V6 (from_be_bytes (take 16 (drop 8 b))),
      p_dst := V6 (from_be_bytes (take 16 (drop 24 b))), p_ip_proto := nh, p_subofs := off\<rparr>"
  let ?info = "packet_info_default\<lparr>pi_version := 6, pi_proto := nh,
      pi_src := V6 (from_be_bytes (take 16 (drop 8 b))),
      pi_dst := V6 (from_be_bytes (take 16 (drop 24 b)))\<rparr>"
  show ?thesis
  proof (cases "off < length b")
    case False
    then have "decode6 (parsed_init b 6) b = Some ?q" "parse_v6 b = Some (Some ?info)"
      using True loop by (simp_all add: decode6_def parse_v6_def)
    then show ?thesis using same_packet_no_transport[of ?q] False True off
      by (simp add: decoders_agree_def parsed_init_def)
  next
    case inside: True
    obtain q info where qi: "fill_transport ?q (drop off b) = Some q"
        "fill_transport_info ?info nh (drop off b) = Some info" "same_packet q info"
      using same_packet_fill[of ?q] inside by (auto simp: parsed_init_def)
    moreover have "p_buf q = b" "p_length q = length b" "p_ip_version q = 6" "p_subofs q = off"
      using fill_transport_Some[of ?q "drop off b"] calculation by (auto simp: parsed_init_def)
    moreover obtain dofs where dofs: "compute_dataofs q (drop off b) = Some dofs"
      using compute_dataofs_Some by blast
    moreover have "decode6 (parsed_init b 6) b = Some (q\<lparr>p_dataofs := dofs\<rparr>)"
      "parse_v6 b = Some (Some info)"
      using True loop inside qi dofs by (simp_all add: decode6_def parse_v6_def)
    ultimately show ?thesis using off True by (simp add: decoders_agree_def)
  qed
qed

lemma decode6_ends:
  assumes "40 \<le> length b" "ext_header_loop b (b ! 6) 40 = Some (nh, off)"
  shows "\<exists>q. decode6 (parsed_init b 6) b = Some q \<and> p_ip_proto q = nh \<and> p_subofs q = off \<and>
           p_ip_version q = 6"
proof (cases "off < length b")
  case True
  let ?q = "(parsed_init b 6)\<lparr>p_src := V6 (from_be_bytes (take 16 (drop 8 b))),
      p_dst := V6 (from_be_bytes (take 16 (drop 24 b))), p_ip_proto := nh, p_subofs := off\<rparr>"
  obtain q where "fill_transport ?q (drop off b) = Some q" "p_ip_proto q = nh" "p_subofs q = off"
      "p_ip_version q = 6"
    using fill_transport_Some[of ?q "drop off b"] by (auto simp: parsed_init_def)
  moreover obtain d where "compute_dataofs q (drop off b) = Some d" using compute_dataofs_Some by blast
  ultimately show ?thesis using True assms by (simp add: decode6_def)
qed (use assms in \<open>simp add: decode6_def parsed_init_def\<close>)

lemma decode_agrees:
  "decoders_agree b (if b = [] then 0 else if drop_bit 4 (b ! 0) = 4 then 4
                     else if drop_bit 4 (b ! 0) = 6 then 6 else 0)
     (if drop_bit 4 (b ! 0) = 6 then 40 else 20) (decode b) (parse_packet b)"
proof -
  have "decoders_agree b 0 n (Some (parsed_init b 0)) (Some None)" for n
    by (simp add: decoders_agree_def parsed_init_def)
  then show ?thesis using decode4_agrees[of b] decode6_agrees[of b]
    by (cases "b = []") (simp_all add: decode_cases parse_packet_def idx_def)
qed

lemma decode_Some: "\<exists>q. decode b = Some q \<and> p_buf q = b \<and> p_length q = length b"
  using decode_agrees[of b] by (auto simp: decoders_agree_def)

lemma ip4_header_None: "ip4_header q = None \<longleftrightarrow> p_ip_version q \<noteq> 4 \<or> length (p_buf q) < 20"
proof (cases "length (p_buf q) < 20")
  case True
  then show ?thesis by (simp add: ip4_header_def Let_def bind_eq_None_conv slice_None)
next
  case False
  then show ?thesis using idx_first[of 20 "p_buf q"] by (simp add: ip4_header_def Let_def)
qed

lemma ip6_header_None: "ip6_header q = None \<longleftrightarrow> p_ip_version q \<noteq> 6 \<or> length (p_buf q) < 40"
proof (cases "length (p_buf q) < 40")
  case True
  then show ?thesis by (simp add: ip6_header_def Let_def bind_eq_None_conv slice_None)
next
  case False
  then show ?thesis by (simp add: ip6_header_def Let_def)
qed

subsection \<open>Properties\<close>

text \<open>C10. No input makes the decoders panic: on every buffer \<open>Parsed::decode\<close> returns a packet
  view whose transport and payload slices are in range, and \<open>parse_packet\<close> returns a result.\<close>

theorem packet_decoders_never_panic:
  "\<exists>q t p r. decode b = Some q \<and> transport q = Some t \<and> payload q = Some p \<and> parse_packet b = Some r"
proof -
  obtain q where q: "decode b = Some q" "p_buf q = b" "p_length q = length b"
    using decode_Some by blast
  moreover have "\<exists>r. parse_packet b = Some r"
    using decode_agrees[of b] by (auto simp: decoders_agree_def)
  moreover have "\<exists>t. transport q = Some t" "\<exists>p. payload q = Some p"
    using q by (simp_all add: transport_def payload_def not_less)
  ultimately show ?thesis by blast
qed

text \<open>C11. The two decoders agree.  A buffer that \<open>parse_packet\<close> rejects is one for which
  \<open>Parsed::decode\<close> reports the unknown protocol; on any other both give the same version,
  protocol, addresses, ports and TCP flags and the same SYN and ICMP-error verdicts, and
  \<open>Parsed\<close> sees an echo response exactly when \<open>PacketInfo\<close> does, the ICMP header is complete and
  its code is 0.\<close>

theorem parse_packet_agrees_with_decode:
  "\<exists>q r. decode b = Some q \<and> parse_packet b = Some r \<and>
     (case r of None \<Rightarrow> p_ip_proto q = UNKNOWN | Some info \<Rightarrow> same_packet q info)"
  using decode_agrees[of b] unfolding decoders_agree_def by (auto split: option.splits)

text \<open>C9. The IPv6 extension-header walk ends and is right: for a packet with an IPv6 version nibble
  and a full fixed header, the protocol and offset that \<open>Parsed::decode\<close> reports are reached from
  the first next-header field by following one extension header at a time, and the walk could
  not have gone on (no extension header there, a truncated one, or a fragment that is not
  the first).\<close>

theorem decode_follows_extension_headers:
  assumes "40 \<le> length b" and "drop_bit 4 (b ! 0) = 6"
  shows "\<exists>q. decode b = Some q \<and> p_ip_version q = 6 \<and> 40 \<le> p_subofs q \<and>
    (ext_step b)\<^sup>*\<^sup>* (b ! 6, 40) (p_ip_proto q, p_subofs q) \<and> walk_stops b (p_ip_proto q) (p_subofs q)"
proof -
  obtain nh off where loop: "ext_header_loop b (b ! 6) 40 = Some (nh, off)" and off: "40 \<le> off"
      and ends: "walk_stops b nh off" "(ext_step b)\<^sup>*\<^sup>* (b ! 6, 40) (nh, off)"
    using ext_header_loop_ends[of b "b ! 6" 40] by blast
  moreover have "b \<noteq> []" using assms(1) by auto
  ultimately show ?thesis
    using decode6_ends[OF assms(1) loop] assms(2) by (auto simp: decode_cases)
qed

definition hop_by_hop_udp :: bytes where
  "hop_by_hop_udp =
     [0x60, 0, 0, 0, 0, 16, 0, 64] @ replicate 32 1 @ [17, 0, 0, 0, 0, 0, 0, 0] @ [0, 53, 0, 54, 0, 8, 0, 0]"

theorem decode_follows_extension_headers_witness:
  "40 \<le> length hop_by_hop_udp \<and> drop_bit 4 (hop_by_hop_udp ! 0) = 6 \<and>
   (\<exists>q. decode hop_by_hop_udp = Some q \<and> p_ip_proto q = UDP \<and> p_subofs q = 48 \<and> p_ip_version q = 6 \<and>
     (ext_step hop_by_hop_udp)\<^sup>*\<^sup>* (0, 40) (UDP, 48))"
proof -
  have b: "40 \<le> length hop_by_hop_udp" "drop_bit 4 (hop_by_hop_udp ! 0) = 6" "hop_by_hop_udp ! 6 = 0"
    "map_option (\<lambda>q. (p_ip_proto q, p_subofs q)) (decode hop_by_hop_udp) = Some (17, 48)"
    by code_simp+
  show ?thesis using decode_follows_extension_headers[OF b(1,2)] b by (auto simp: UDP_def)
qed

text \<open>C24. The header accessors on a decoded packet: \<open>ip4_header\<close> (\<open>ip6_header\<close>) returns
  exactly when the packet is IPv4 (IPv6) and at least as long as the fixed header of 20 (40)
  bytes, and panics otherwise.\<close>

theorem header_accessors_panic_iff:
  "\<exists>q. decode b = Some q \<and>
     ((\<exists>h. ip4_header q = Some h) \<longleftrightarrow> p_ip_version q = 4 \<and> 20 \<le> length b) \<and>
     ((\<exists>h. ip6_header q = Some h) \<longleftrightarrow> p_ip_version q = 6 \<and> 40 \<le> length b)"
proof -
  obtain q where q: "decode b = Some q" "p_buf q = b" using decode_Some by blast
  have "(\<exists>h. ip4_header q = Some h) \<longleftrightarrow> p_ip_version q = 4 \<and> 20 \<le> length b"
    using ip4_header_None[of q] q(2) by (cases "ip4_header q") auto
  moreover have "(\<exists>h. ip6_header q = Some h) \<longleftrightarrow> p_ip_version q = 6 \<and> 40 \<le> length b"
    using ip6_header_None[of q] q(2) by (cases "ip6_header q") auto
  ultimately show ?thesis using q(1) by blast
qed

end
