(* ===== verification/Filter_Match.thy ===== *)
theory Filter_Match
  imports Filter_Prefix Packet
begin

text \<open>
  Compiled filter rules (\<open>crates/filter/src/match.rs\<close>): matching a packet against a list of rules
  and splitting the list by address family.  The lemmas characterise each loop by a predicate on
  single rules, and show that splitting does not change which packets match.
\<close>

record port_range =
  pr_first :: u16
  pr_last :: u16

definition port_range_all :: port_range where
  "port_range_all = \<lparr>pr_first = 0, pr_last = 65535\<rparr>"

definition port_contains :: "port_range \<Rightarrow> u16 \<Rightarrow> bool" where
  "port_contains r port \<longleftrightarrow> pr_first r \<le> port \<and> port \<le> pr_last r"

record net_port_range =
  npr_net :: ip_prefix
  npr_ports :: port_range

record cap_match =
  cm_dst :: ip_prefix
  cm_cap :: string
  cm_values :: "string list"

record match_rule =
  m_ip_proto :: "u8 list"
  m_srcs :: "ip_prefix list"
  m_src_caps :: "string list"
  m_dsts :: "net_port_range list"
  m_caps :: "cap_match list"

definition match_default :: match_rule where
  "match_default = \<lparr>m_ip_proto = [], m_srcs = [], m_src_caps = [], m_dsts = [], m_caps = []\<rparr>"

definition srcs_contains :: "match_rule \<Rightarrow> ipaddr \<Rightarrow> bool" where
  "srcs_contains m src = list_ex (\<lambda>p. prefix_contains p src) (m_srcs m)"

type_synonym cap_test = "ipaddr \<Rightarrow> string \<Rightarrow> bool"

fun matches :: "match_rule list \<Rightarrow> packet_info \<Rightarrow> cap_test \<Rightarrow> bool" where
  "matches [] q has_cap = False"
| "matches (m # ms) q has_cap =
     (if pi_proto q \<notin> set (m_ip_proto m) then matches ms q has_cap
      else if \<not> srcs_contains m (pi_src q) \<and> \<not> list_ex (has_cap (pi_src q)) (m_src_caps m)
      then matches ms q has_cap
      else if list_ex (\<lambda>dst. prefix_contains (npr_net dst) (pi_dst q) \<and>
                        port_contains (npr_ports dst) (pi_dst_port q)) (m_dsts m)
      then True
      else matches ms q has_cap)"

fun ips_only_loop :: "match_rule list \<Rightarrow> packet_info \<Rightarrow> bool" where
  "ips_only_loop [] q = False"
| "ips_only_loop (m # ms) q =
     (if srcs_contains m (pi_src q) \<and> list_ex (\<lambda>dst. prefix_contains (npr_net dst) (pi_dst q)) (m_dsts m)
      then True
      else ips_only_loop ms q)"

definition matches_ips_only :: "match_rule list \<Rightarrow> packet_info \<Rightarrow> cap_test \<Rightarrow> bool" where
  "matches_ips_only ms q has_cap \<longleftrightarrow>
     ips_only_loop ms q \<or> list_ex (\<lambda>m. list_ex (has_cap (pi_src q)) (m_src_caps m)) ms"

fun matches_proto_and_ips_only_if_all_ports :: "match_rule list \<Rightarrow> packet_info \<Rightarrow> bool" where
  "matches_proto_and_ips_only_if_all_ports [] q = False"
| "matches_proto_and_ips_only_if_all_ports (m # ms) q =
     (if pi_proto q \<notin> set (m_ip_proto m) then matches_proto_and_ips_only_if_all_ports ms q
      else if \<not> srcs_contains m (pi_src q) then matches_proto_and_ips_only_if_all_ports ms q
      else if list_ex (\<lambda>dst. npr_ports dst = port_range_all \<and> prefix_contains (npr_net dst) (pi_dst q)) (m_dsts m)
      then True
      else matches_proto_and_ips_only_if_all_ports ms q)"

fun partition_by_family :: "match_rule list \<Rightarrow> match_rule list \<times> match_rule list" where
  "partition_by_family [] = ([], [])"
| "partition_by_family (m # ms) =
     (let m4 = match_default\<lparr>m_ip_proto := m_ip_proto m, m_src_caps := m_src_caps m,
                 m_srcs := filter is_v4 (m_srcs m), m_dsts := filter (\<lambda>d. is_v4 (npr_net d)) (m_dsts m)\<rparr>;
          m6 = match_default\<lparr>m_ip_proto := m_ip_proto m, m_src_caps := m_src_caps m,
                 m_srcs := filter (\<lambda>s. \<not> is_v4 s) (m_srcs m), m_dsts := filter (\<lambda>d. \<not> is_v4 (npr_net d)) (m_dsts m)\<rparr>;
          (v4, v6) = partition_by_family ms
      in (if (m_srcs m4 \<noteq> [] \<or> m_src_caps m4 \<noteq> []) \<and> m_dsts m4 \<noteq> [] then m4 # v4 else v4,
          if (m_srcs m6 \<noteq> [] \<or> m_src_caps m6 \<noteq> []) \<and> m_dsts m6 \<noteq> [] then m6 # v6 else v6))"

fun partition_caps_by_family :: "match_rule list \<Rightarrow> match_rule list \<times> match_rule list" where
  "partition_caps_by_family [] = ([], [])"
| "partition_caps_by_family (m # ms) =
     (let (v4, v6) = partition_caps_by_family ms in
      if m_caps m = [] then (v4, v6)
      else
        let m4 = match_default\<lparr>m_caps := m_caps m, m_srcs := filter is_v4 (m_srcs m)\<rparr>;
            m6 = match_default\<lparr>m_caps := m_caps m, m_srcs := filter (\<lambda>s. \<not> is_v4 s) (m_srcs m)\<rparr>
        in (if m_srcs m4 \<noteq> [] then m4 # v4 else v4, if m_srcs m6 \<noteq> [] then m6 # v6 else v6))"

subsection \<open>What a rule admits\<close>

definition src_allowed :: "cap_test \<Rightarrow> match_rule \<Rightarrow> ipaddr \<Rightarrow> bool" where
  "src_allowed has_cap m src \<longleftrightarrow> (\<exists>p \<in> set (m_srcs m). prefix_contains p src) \<or> (\<exists>c \<in> set (m_src_caps m). has_cap src c)"

definition rule_admits :: "cap_test \<Rightarrow> match_rule \<Rightarrow> packet_info \<Rightarrow> bool" where
  "rule_admits has_cap m q \<longleftrightarrow> pi_proto q \<in> set (m_ip_proto m) \<and> src_allowed has_cap m (pi_src q) \<and>
     (\<exists>d \<in> set (m_dsts m). prefix_contains (npr_net d) (pi_dst q) \<and> port_contains (npr_ports d) (pi_dst_port q))"

definition rule_reaches :: "match_rule \<Rightarrow> packet_info \<Rightarrow> bool" where
  "rule_reaches m q \<longleftrightarrow> (\<exists>p \<in> set (m_srcs m). prefix_contains p (pi_src q)) \<and>
     (\<exists>d \<in> set (m_dsts m). prefix_contains (npr_net d) (pi_dst q))"

definition rule_admits_all_ports :: "match_rule \<Rightarrow> packet_info \<Rightarrow> bool" where
  "rule_admits_all_ports m q \<longleftrightarrow> pi_proto q \<in> set (m_ip_proto m) \<and> (\<exists>p \<in> set (m_srcs m). prefix_contains p (pi_src q)) \<and>
     (\<exists>d \<in> set (m_dsts m). npr_ports d = port_range_all \<and> prefix_contains (npr_net d) (pi_dst q))"

lemma matches_iff: "matches ms q has_cap \<longleftrightarrow> (\<exists>m \<in> set ms. rule_admits has_cap m q)"
  by (induction ms) (auto simp: rule_admits_def src_allowed_def srcs_contains_def list_ex_iff)

lemma ips_only_loop_iff: "ips_only_loop ms q \<longleftrightarrow> (\<exists>m \<in> set ms. rule_reaches m q)"
  by (induction ms) (auto simp: rule_reaches_def srcs_contains_def list_ex_iff)

lemma matches_ips_only_iff:
  "matches_ips_only ms q has_cap \<longleftrightarrow>
     (\<exists>m \<in> set ms. rule_reaches m q \<or> (\<exists>c \<in> set (m_src_caps m). has_cap (pi_src q) c))"
  by (auto simp: matches_ips_only_def ips_only_loop_iff list_ex_iff)

lemma all_ports_iff:
  "matches_proto_and_ips_only_if_all_ports ms q \<longleftrightarrow> (\<exists>m \<in> set ms. rule_admits_all_ports m q)"
  by (induction ms) (auto simp: rule_admits_all_ports_def srcs_contains_def list_ex_iff)

subsection \<open>Splitting by family\<close>

text \<open>The part of a rule that concerns one family, and the split as a filter over these parts.\<close>

definition family_part :: "bool \<Rightarrow> match_rule \<Rightarrow> match_rule" where
  "family_part v4 m = match_default\<lparr>m_ip_proto := m_ip_proto m, m_src_caps := m_src_caps m,
     m_srcs := filter (\<lambda>s. is_v4 s = v4) (m_srcs m), m_dsts := filter (\<lambda>d. is_v4 (npr_net d) = v4) (m_dsts m)\<rparr>"

definition effective :: "match_rule \<Rightarrow> bool" where
  "effective m \<longleftrightarrow> (m_srcs m \<noteq> [] \<or> m_src_caps m \<noteq> []) \<and> m_dsts m \<noteq> []"

lemma partition_by_family_eq:
  "partition_by_family ms = (filter effective (map (family_part True) ms), filter effective (map (family_part False) ms))"
  by (induction ms) (simp_all add: Let_def family_part_def effective_def)

lemma contains_same_family: "prefix_contains p ip \<Longrightarrow> is_v4 p = is_ipv4 ip"
  by (cases ip; cases "pfx_addr p") (simp_all add: is_v4_def prefix_contains.simps)

lemma family_srcs:
  "is_ipv4 ip = v4 \<Longrightarrow> (\<exists>p \<in> set (filter (\<lambda>s. is_v4 s = v4) ps). prefix_contains p ip) \<longleftrightarrow> (\<exists>p \<in> set ps. prefix_contains p ip)"
  by (auto dest: contains_same_family)

lemma family_dsts:
  "is_ipv4 ip = v4 \<Longrightarrow> (\<exists>d \<in> set (filter (\<lambda>d. is_v4 (npr_net d) = v4) ds). P d \<and> prefix_contains (npr_net d) ip) \<longleftrightarrow>
     (\<exists>d \<in> set ds. P d \<and> prefix_contains (npr_net d) ip)"
  by (auto dest: contains_same_family)

lemma family_part_sel [simp]:
  "m_ip_proto (family_part v4 m) = m_ip_proto m" "m_src_caps (family_part v4 m) = m_src_caps m"
  "m_srcs (family_part v4 m) = filter (\<lambda>s. is_v4 s = v4) (m_srcs m)"
  "m_dsts (family_part v4 m) = filter (\<lambda>d. is_v4 (npr_net d) = v4) (m_dsts m)"
  by (simp_all add: family_part_def)

lemma family_part_admits:
  assumes "is_ipv4 (pi_src q) = v4" "is_ipv4 (pi_dst q) = v4"
  shows "rule_admits has_cap (family_part v4 m) q = rule_admits has_cap m q"
    "rule_reaches (family_part v4 m) q = rule_reaches m q"
    "rule_admits_all_ports (family_part v4 m) q = rule_admits_all_ports m q"
proof -
  note src = family_srcs[OF assms(1)] and dst = family_dsts[OF assms(2)]
  show "rule_admits has_cap (family_part v4 m) q = rule_admits has_cap m q"
    unfolding rule_admits_def src_allowed_def family_part_sel src conj_commute[of "prefix_contains _ _"] dst ..
  show "rule_reaches (family_part v4 m) q = rule_reaches m q"
    using src[of "m_srcs m"] dst[of "m_dsts m" "\<lambda>_. True"] unfolding rule_reaches_def family_part_sel by simp
  show "rule_admits_all_ports (family_part v4 m) q = rule_admits_all_ports m q"
    unfolding rule_admits_all_ports_def family_part_sel src dst ..
qed

lemma admits_effective:
  "rule_admits has_cap m q \<Longrightarrow> effective m" "rule_reaches m q \<Longrightarrow> effective m"
  "rule_admits_all_ports m q \<Longrightarrow> effective m"
  by (auto simp: rule_admits_def rule_reaches_def rule_admits_all_ports_def src_allowed_def effective_def)

definition family_rules :: "bool \<Rightarrow> match_rule list \<Rightarrow> match_rule list" where
  "family_rules v4 ms = (if v4 then fst (partition_by_family ms) else snd (partition_by_family ms))"

lemma set_family_rules: "set (family_rules v4 ms) = {m. \<exists>r \<in> set ms. m = family_part v4 r \<and> effective m}"
  by (auto simp: family_rules_def partition_by_family_eq)

lemma family_rules_ex:
  assumes "\<And>m. P (family_part v4 m) \<longleftrightarrow> P m" "\<And>m. P m \<Longrightarrow> effective m"
  shows "(\<exists>m \<in> set (family_rules v4 ms). P m) \<longleftrightarrow> (\<exists>m \<in> set ms. P m)"
  unfolding set_family_rules using assms by blast

lemma family_rules_matches:
  assumes "is_ipv4 (pi_src q) = v4" "is_ipv4 (pi_dst q) = v4"
  shows "matches (family_rules v4 ms) q has_cap = matches ms q has_cap"
    "matches_proto_and_ips_only_if_all_ports (family_rules v4 ms) q = matches_proto_and_ips_only_if_all_ports ms q"
    "ips_only_loop (family_rules v4 ms) q = ips_only_loop ms q"
  unfolding matches_iff all_ports_iff ips_only_loop_iff
  by (rule family_rules_ex; simp add: family_part_admits[OF assms] admits_effective)+

lemma family_rules_ips_only:
  assumes "is_ipv4 (pi_src q) = v4" "is_ipv4 (pi_dst q) = v4"
  shows "matches_ips_only (family_rules v4 ms) q has_cap \<longleftrightarrow>
    (\<exists>m \<in> set ms. rule_reaches m q \<or>
       ((\<exists>c \<in> set (m_src_caps m). has_cap (pi_src q) c) \<and> (\<exists>d \<in> set (m_dsts m). is_v4 (npr_net d) = v4)))"
proof -
  let ?held = "\<lambda>m. \<exists>c \<in> set (m_src_caps m). has_cap (pi_src q) c"
  have eff: "effective (family_part v4 m) \<longleftrightarrow> (\<exists>d \<in> set (m_dsts m). is_v4 (npr_net d) = v4)" if "?held m" for m
    using that by (auto simp: effective_def filter_empty_conv)
  have "(\<exists>m \<in> set (family_rules v4 ms). ?held m) \<longleftrightarrow>
      (\<exists>m \<in> set ms. ?held (family_part v4 m) \<and> effective (family_part v4 m))"
    unfolding set_family_rules by blast
  also have "\<dots> \<longleftrightarrow> (\<exists>m \<in> set ms. ?held m \<and> (\<exists>d \<in> set (m_dsts m). is_v4 (npr_net d) = v4))"
    unfolding family_part_sel using eff by blast
  finally show ?thesis
    using family_rules_matches(3)[OF assms, of ms]
    unfolding matches_ips_only_def list_ex_iff ips_only_loop_iff by blast
qed

text \<open>The capability grants, split by the family of the source.\<close>

definition cap_part :: "bool \<Rightarrow> match_rule \<Rightarrow> match_rule" where
  "cap_part v4 m = match_default\<lparr>m_caps := m_caps m, m_srcs := filter (\<lambda>s. is_v4 s = v4) (m_srcs m)\<rparr>"

lemma partition_caps_by_family_eq:
  "partition_caps_by_family ms =
     (filter (\<lambda>m. m_caps m \<noteq> [] \<and> m_srcs m \<noteq> []) (map (cap_part True) ms),
      filter (\<lambda>m. m_caps m \<noteq> [] \<and> m_srcs m \<noteq> []) (map (cap_part False) ms))"
  by (induction ms) (simp_all add: Let_def cap_part_def)

end
