(* ===== verification/Tailcfg_Filter.thy ===== *)
theory Tailcfg_Filter
  imports Std_Net
begin

text \<open>
  The packet-filter part of the control protocol (\<open>crates/tailcfg/src/filter.rs\<close>): the rules as
  the control server sends them, before the filter compiles them.  A \<open>String\<close> is the list of the
  bytes of its UTF-8 encoding; an \<open>i32\<close> is a 32-bit word that is read with \<open>sint\<close>; a \<open>BTreeMap\<close> is
  the list of its entries in iteration order.
\<close>

type_synonym i32 = "32 word"
type_synonym node_capability = string
type_synonym raw_message = string
type_synonym peer_cap_map = "(node_capability \<times> raw_message list) list"

record tc_port_range =
  First :: u16
  Last :: u16

definition tc_port_range_all :: tc_port_range where
  "tc_port_range_all = \<lparr>First = 0, Last = 65535\<rparr>"

definition tc_port_contains :: "tc_port_range \<Rightarrow> u16 \<Rightarrow> bool" where
  "tc_port_contains r port \<longleftrightarrow> First r \<le> port \<and> port \<le> Last r"

record tc_net_port_range =
  IP :: string
  Bits :: "i32 option"
  Ports :: tc_port_range

record cap_grant =
  Dsts :: "string list"
  Caps :: "node_capability list"
  CapMap :: peer_cap_map

record filter_rule =
  SrcIPs :: "string list"
  SrcBits :: "i32 list"
  DstPorts :: "tc_net_port_range list"
  IPProto :: "i32 list"
  CapGrant :: "cap_grant list"

definition filter_allow_all :: "filter_rule list" where
  "filter_allow_all =
     [\<lparr>SrcIPs = [''*''], SrcBits = [],
       DstPorts = [\<lparr>IP = ''*'', Bits = None, Ports = tc_port_range_all\<rparr>],
       IPProto = [], CapGrant = []\<rparr>]"

end
