(* ===== verification/Filter_Parse.thy ===== *)
theory Filter_Parse
  imports Filter_Match Tailcfg_Filter
begin

text \<open>
  Compiling the rules of the control server (\<open>crates/filter/src/parse.rs\<close>).  The lemmas give the
  meaning of an IP-set string as a set of addresses and show that a compiled rule admits what the
  strings of the rule say.
\<close>

definition DEFAULT_PROTOS :: "u8 list" where
  "DEFAULT_PROTOS = [TCP, UDP, ICMP_V4, ICMP_V6]"

datatype ip_set_result = Prefixes "ip_prefix list" | Cap string

text \<open>
  The string has one \<open>-\<close> in the range branch, so \<open>split_once(..).unwrap()\<close> does not panic; the last
  branch of the match on the two addresses is the \<open>unreachable!()\<close> that follows the family test.
\<close>

definition parse_range :: "string \<Rightarrow> string \<Rightarrow> string \<Rightarrow> parse_error + ip_set_result" where
  "parse_range arg a b =
     (case parse_ip a of
        None \<Rightarrow> Inl (InvalidIp a)
      | Some ip1 \<Rightarrow>
          (case parse_ip b of
             None \<Rightarrow> Inl (InvalidIp b)
           | Some ip2 \<Rightarrow>
               if is_ipv4 ip1 \<noteq> is_ipv4 ip2 then Inl (InvalidRange arg)
               else
                 (case (ip1, ip2) of
                    (V4 s, V4 e) \<Rightarrow>
                      if e < s then Inl (InvalidRange arg)
                      else let pfxs = range_to_prefixes_v4 s e in
                           if pfxs = [] then Inl (InvalidRange arg) else Inr (Prefixes pfxs)
                  | (V6 s, V6 e) \<Rightarrow>
                      if e < s then Inl (InvalidRange arg)
                      else let pfxs = range_to_prefixes_v6 s e in
                           if pfxs = [] then Inl (InvalidRange arg) else Inr (Prefixes pfxs)
                  | _ \<Rightarrow> Inl (InvalidRange arg))))"

definition parse_ip_set :: "string \<Rightarrow> parse_error + ip_set_result" where
  "parse_ip_set arg =
     (if arg = ''*'' then Inr (Prefixes wildcard_prefixes)
      else case strip_prefix ''cap:'' arg of
        Some cap \<Rightarrow> Inr (Cap cap)
      | None \<Rightarrow>
          if CHR ''/'' \<in> set arg then
            (case parse_cidr arg of Inl e \<Rightarrow> Inl e | Inr p \<Rightarrow> Inr (Prefixes [p]))
          else
            (case (if length (filter (\<lambda>c. c = CHR ''-'') arg) = 1 then split_once CHR ''-'' arg else None) of
               Some (a, b) \<Rightarrow> parse_range arg a b
             | None \<Rightarrow>
                 (case parse_ip arg of
                    None \<Rightarrow> Inl (InvalidIp arg)
                  | Some ip \<Rightarrow> Inr (Prefixes [host_prefix ip]))))"

text \<open>\<open>if first_err.is_none() { first_err = Some(e) }\<close>\<close>

definition note_err :: "parse_error \<Rightarrow> parse_error option \<Rightarrow> parse_error option" where
  "note_err e first_err = (case first_err of None \<Rightarrow> Some e | Some _ \<Rightarrow> first_err)"

fun parse_srcs :: "string list \<Rightarrow> match_rule \<Rightarrow> parse_error option \<Rightarrow> match_rule \<times> parse_error option" where
  "parse_srcs [] m first_err = (m, first_err)"
| "parse_srcs (s # ss) m first_err =
     (case parse_ip_set s of
        Inr (Prefixes pfxs) \<Rightarrow> parse_srcs ss (m\<lparr>m_srcs := m_srcs m @ pfxs\<rparr>) first_err
      | Inr (Cap cap) \<Rightarrow> parse_srcs ss (m\<lparr>m_src_caps := m_src_caps m @ [cap]\<rparr>) first_err
      | Inl e \<Rightarrow> parse_srcs ss m (note_err e first_err))"

text \<open>The error for a capability in \<open>DstPorts\<close> also prints the entry, which is left out here.\<close>

fun parse_dsts :: "tc_net_port_range list \<Rightarrow> match_rule \<Rightarrow> parse_error option \<Rightarrow>
    parse_error + match_rule \<times> parse_error option" where
  "parse_dsts [] m first_err = Inr (m, first_err)"
| "parse_dsts (d # ds) m first_err =
     (if Bits d \<noteq> None
      then Inl (InvalidCidr ''unexpected DstBits; control plane should not send this to this client version'')
      else case parse_ip_set (IP d) of
        Inr (Prefixes pfxs) \<Rightarrow>
          parse_dsts ds
            (m\<lparr>m_dsts := m_dsts m @
               map (\<lambda>pfx. \<lparr>npr_net = pfx, npr_ports = \<lparr>pr_first = First (Ports d), pr_last = Last (Ports d)\<rparr>\<rparr>) pfxs\<rparr>)
            first_err
      | Inr (Cap _) \<Rightarrow> parse_dsts ds m (note_err (InvalidIp ''unexpected capability in DstPorts'') first_err)
      | Inl e \<Rightarrow> parse_dsts ds m (note_err e first_err))"

definition parse_cap_grant :: "cap_grant \<Rightarrow> cap_match list" where
  "parse_cap_grant grant =
     concat (map (\<lambda>dst_str.
       case parse_ip_set dst_str of
         Inr (Prefixes pfxs) \<Rightarrow>
           concat (map (\<lambda>pfx.
             map (\<lambda>cap. \<lparr>cm_dst = pfx, cm_cap = cap, cm_values = []\<rparr>) (Caps grant) @
             map (\<lambda>(cap, vals). \<lparr>cm_dst = pfx, cm_cap = cap, cm_values = vals\<rparr>) (CapMap grant)) pfxs)
       | _ \<Rightarrow> []) (Dsts grant))"

definition rule_protos :: "filter_rule \<Rightarrow> u8 list" where
  "rule_protos r =
     (if IPProto r = [] then DEFAULT_PROTOS
      else map ucast (filter (\<lambda>n. 0 \<le> sint n \<and> sint n \<le> 255) (IPProto r)))"

fun rules_loop :: "filter_rule list \<Rightarrow> match_rule list \<Rightarrow> parse_error option \<Rightarrow>
    parse_error + match_rule list \<times> parse_error option" where
  "rules_loop [] ms first_err = Inr (ms, first_err)"
| "rules_loop (r # rs) ms first_err =
     (if SrcBits r \<noteq> []
      then Inl (InvalidCidr ''unexpected SrcBits; control plane should not send this to this client version'')
      else
        let m = match_default\<lparr>m_ip_proto := rule_protos r\<rparr>;
            (m, first_err) = parse_srcs (SrcIPs r) m first_err
        in case parse_dsts (DstPorts r) m first_err of
             Inl e \<Rightarrow> Inl e
           | Inr (m, first_err) \<Rightarrow>
               let m = m\<lparr>m_caps := m_caps m @ concat (map parse_cap_grant (CapGrant r))\<rparr>
               in rules_loop rs (ms @ [m]) first_err)"

definition matches_from_filter_rules :: "filter_rule list \<Rightarrow> parse_error + match_rule list" where
  "matches_from_filter_rules rules =
     (case rules_loop rules [] None of
        Inl e \<Rightarrow> Inl e
      | Inr (ms, Some e) \<Rightarrow> Inl e
      | Inr (ms, None) \<Rightarrow> Inr ms)"

subsection \<open>The meaning of an IP-set string\<close>

fun in_range :: "ipaddr \<Rightarrow> ipaddr \<Rightarrow> ipaddr \<Rightarrow> bool" where
  "in_range (V4 s) (V4 e) (V4 x) \<longleftrightarrow> s \<le> x \<and> x \<le> e"
| "in_range (V6 s) (V6 e) (V6 x) \<longleftrightarrow> s \<le> x \<and> x \<le> e"
| "in_range _ _ _ \<longleftrightarrow> False"

definition denotes :: "string \<Rightarrow> ipaddr \<Rightarrow> bool" where
  "denotes arg ip \<longleftrightarrow>
     (if arg = ''*'' then True
      else if CHR ''/'' \<in> set arg then \<exists>p. parse_cidr arg = Inr p \<and> prefix_contains p ip
      else if length (filter (\<lambda>c. c = CHR ''-'') arg) = 1 then
        \<exists>a b s e. arg = a @ CHR ''-'' # b \<and> parse_ip a = Some s \<and> parse_ip b = Some e \<and> in_range s e ip
      else parse_ip arg = Some ip)"

lemma wildcard_contains: "\<exists>p \<in> set wildcard_prefixes. prefix_contains p ip"
  by (cases ip) (simp_all add: wildcard_prefixes_def fp.contains_zero unspecified4_def unspecified6_def)

lemma host_prefix_contains: "prefix_contains (host_prefix a) ip \<longleftrightarrow> ip = a"
  using fp.contains_host[of "host_prefix a" ip] by (simp add: host_prefix_def addr_len_def)

lemma range_v4_contains:
  "(\<exists>p \<in> set (range_to_prefixes_v4 s e). prefix_contains p ip) \<longleftrightarrow> in_range (V4 s) (V4 e) ip"
proof (cases ip)
  case (V6 x)
  have "is_v4 p" if "p \<in> set (range_to_prefixes_v4 s e)" for p
    using that by (auto simp: range_to_prefixes_v4_def is_v4_def split: if_splits)
  then show ?thesis using V6 contains_same_family[of _ ip] by force
qed (simp add: range_to_prefixes_v4_contains)

lemma range_v6_contains:
  "(\<exists>p \<in> set (range_to_prefixes_v6 s e). prefix_contains p ip) \<longleftrightarrow> in_range (V6 s) (V6 e) ip"
proof (cases ip)
  case (V4 x)
  have "\<not> is_v4 p" if "p \<in> set (range_to_prefixes_v6 s e)" for p
    using that by (auto simp: range_to_prefixes_v6_def is_v4_def split: if_splits)
  then show ?thesis using V4 contains_same_family[of _ ip] by force
qed (simp add: range_to_prefixes_v6_contains)

lemma parse_range_contains:
  assumes "parse_range arg a b = Inr r"
  obtains ps s e where "r = Prefixes ps" "parse_ip a = Some s" "parse_ip b = Some e"
    "\<And>ip. (\<exists>p \<in> set ps. prefix_contains p ip) \<longleftrightarrow> in_range s e ip"
proof -
  obtain s where s: "parse_ip a = Some s" using assms by (cases "parse_ip a") (simp_all add: parse_range_def)
  obtain e where e: "parse_ip b = Some e" using assms s by (cases "parse_ip b") (simp_all add: parse_range_def)
  show ?thesis
  proof (cases s)
    case (V4 x)
    then obtain y where "e = V4 y" using assms s e by (cases e) (simp_all add: parse_range_def)
    then show ?thesis using that[OF _ s e] assms s e V4
      by (auto simp: parse_range_def Let_def range_v4_contains split: if_splits)
  next
    case (V6 x)
    then obtain y where "e = V6 y" using assms s e by (cases e) (simp_all add: parse_range_def)
    then show ?thesis using that[OF _ s e] assms s e V6
      by (auto simp: parse_range_def Let_def range_v6_contains split: if_splits)
  qed
qed

lemma split_dash:
  assumes "length (filter (\<lambda>c. c = CHR ''-'') arg) = 1"
  obtains a b where "split_once CHR ''-'' arg = Some (a, b)" "\<And>a' b'. arg = a' @ CHR ''-'' # b' \<longleftrightarrow> a' = a \<and> b' = b"
proof -
  have "filter (\<lambda>c. c = CHR ''-'') arg \<noteq> []" using assms by auto
  then have "CHR ''-'' \<in> set arg" by (auto simp: filter_empty_conv)
  then obtain a b where ab: "split_once CHR ''-'' arg = Some (a, b)"
    using split_once_None[of "CHR ''-''" arg] by (cases "split_once CHR ''-'' arg") auto
  then have arg: "arg = a @ CHR ''-'' # b" "CHR ''-'' \<notin> set a" by (simp_all add: split_once_Some)
  then have "filter (\<lambda>c. c = CHR ''-'') b = []" using assms by simp
  then have b: "CHR ''-'' \<notin> set b" by (auto simp: filter_empty_conv)
  have "a' = a \<and> b' = b" if "arg = a' @ CHR ''-'' # b'" for a' b'
  proof -
    have "filter (\<lambda>c. c = CHR ''-'') a' = []" using assms unfolding that by simp
    then have "CHR ''-'' \<notin> set a'" by (auto simp: filter_empty_conv)
    then have "split_once CHR ''-'' arg = Some (a', b')" using that by (simp add: split_once_Some)
    then show ?thesis using ab by simp
  qed
  then show ?thesis using that[OF ab] arg(1) by blast
qed

lemma parse_ip_set_denotes:
  assumes "parse_ip_set arg = Inr (Prefixes ps)"
  shows "(\<exists>p \<in> set ps. prefix_contains p ip) \<longleftrightarrow> denotes arg ip"
proof -
  consider (star) "arg = ''*''" | (slash) "arg \<noteq> ''*''" "CHR ''/'' \<in> set arg"
    | (dash) "arg \<noteq> ''*''" "CHR ''/'' \<notin> set arg" "length (filter (\<lambda>c. c = CHR ''-'') arg) = 1"
    | (bare) "arg \<noteq> ''*''" "CHR ''/'' \<notin> set arg" "length (filter (\<lambda>c. c = CHR ''-'') arg) \<noteq> 1"
    by blast
  then show ?thesis
  proof cases
    case star
    then show ?thesis using assms wildcard_contains by (simp add: parse_ip_set_def denotes_def)
  next
    case slash
    then show ?thesis using assms
      by (auto simp: parse_ip_set_def denotes_def split: option.splits sum.splits)
  next
    case dash
    obtain a b where ab: "split_once CHR ''-'' arg = Some (a, b)" "\<And>a' b'. arg = a' @ CHR ''-'' # b' \<longleftrightarrow> a' = a \<and> b' = b"
      by (rule split_dash[OF dash(3)]) blast
    then have "parse_range arg a b = Inr (Prefixes ps)"
      using assms dash by (auto simp: parse_ip_set_def split: option.splits)
    then show ?thesis using dash ab(2) by (auto simp: denotes_def elim!: parse_range_contains)
  next
    case bare
    then show ?thesis using assms
      by (auto simp: parse_ip_set_def denotes_def host_prefix_contains split: option.splits)
  qed
qed

subsection \<open>The meaning of a rule\<close>

definition src_denotes :: "cap_test \<Rightarrow> string \<Rightarrow> ipaddr \<Rightarrow> bool" where
  "src_denotes has_cap arg ip =
     (case (if arg = ''*'' then None else strip_prefix ''cap:'' arg) of Some cap \<Rightarrow> has_cap ip cap | None \<Rightarrow> denotes arg ip)"

definition rule_allows :: "cap_test \<Rightarrow> filter_rule \<Rightarrow> packet_info \<Rightarrow> bool" where
  "rule_allows has_cap r q \<longleftrightarrow> pi_proto q \<in> set (rule_protos r) \<and>
     (\<exists>s \<in> set (SrcIPs r). src_denotes has_cap s (pi_src q)) \<and>
     (\<exists>d \<in> set (DstPorts r). denotes (IP d) (pi_dst q) \<and> tc_port_contains (Ports d) (pi_dst_port q))"

definition rule_compiles :: "filter_rule \<Rightarrow> bool" where
  "rule_compiles r \<longleftrightarrow> SrcBits r = [] \<and> (\<forall>s \<in> set (SrcIPs r). \<exists>x. parse_ip_set s = Inr x) \<and>
     (\<forall>d \<in> set (DstPorts r). Bits d = None \<and> (\<exists>ps. parse_ip_set (IP d) = Inr (Prefixes ps)))"

text \<open>What the two inner loops compute when no string is in error.\<close>

definition src_prefixes :: "string \<Rightarrow> ip_prefix list" where
  "src_prefixes s = (case parse_ip_set s of Inr (Prefixes ps) \<Rightarrow> ps | _ \<Rightarrow> [])"

definition src_cap :: "string \<Rightarrow> string list" where
  "src_cap s = (case parse_ip_set s of Inr (Cap c) \<Rightarrow> [c] | _ \<Rightarrow> [])"

definition dst_ranges :: "tc_net_port_range \<Rightarrow> net_port_range list" where
  "dst_ranges d = map (\<lambda>pfx. \<lparr>npr_net = pfx, npr_ports = \<lparr>pr_first = First (Ports d), pr_last = Last (Ports d)\<rparr>\<rparr>)
     (src_prefixes (IP d))"

lemma note_err_None [simp]: "note_err e fe \<noteq> None"
  by (simp add: note_err_def split: option.split)

lemma parse_srcs_eq:
  "parse_srcs ss m fe = (m', fe') \<Longrightarrow>
     m' = m\<lparr>m_srcs := m_srcs m @ concat (map src_prefixes ss), m_src_caps := m_src_caps m @ concat (map src_cap ss)\<rparr> \<and>
     (fe' = None \<longleftrightarrow> fe = None \<and> (\<forall>s \<in> set ss. \<exists>x. parse_ip_set s = Inr x))"
  by (induction ss m fe rule: parse_srcs.induct)
    (auto simp: src_prefixes_def src_cap_def split: sum.splits ip_set_result.splits)

lemma parse_dsts_eq:
  "(\<exists>e. parse_dsts ds m fe = Inl e) \<and> (\<exists>d \<in> set ds. Bits d \<noteq> None) \<or>
   (\<exists>fe'. parse_dsts ds m fe = Inr (m\<lparr>m_dsts := m_dsts m @ concat (map dst_ranges ds)\<rparr>, fe') \<and>
     (fe' = None \<longleftrightarrow> fe = None \<and> (\<forall>d \<in> set ds. Bits d = None \<and> (\<exists>ps. parse_ip_set (IP d) = Inr (Prefixes ps)))) \<and>
     (\<forall>d \<in> set ds. Bits d = None))"
  by (induction ds m fe rule: parse_dsts.induct)
    (auto simp: dst_ranges_def src_prefixes_def split: sum.splits ip_set_result.splits)

definition compiled :: "filter_rule \<Rightarrow> match_rule" where
  "compiled r = \<lparr>m_ip_proto = rule_protos r, m_srcs = concat (map src_prefixes (SrcIPs r)),
     m_src_caps = concat (map src_cap (SrcIPs r)), m_dsts = concat (map dst_ranges (DstPorts r)),
     m_caps = concat (map parse_cap_grant (CapGrant r))\<rparr>"

lemma rules_loop_eq:
  "(\<exists>e. rules_loop rs ms fe = Inl e) \<and> (\<exists>r \<in> set rs. \<not> rule_compiles r) \<or>
   (\<exists>fe'. rules_loop rs ms fe = Inr (ms @ map compiled rs, fe') \<and>
     (fe' = None \<longleftrightarrow> fe = None \<and> (\<forall>r \<in> set rs. rule_compiles r)))"
proof (induction rs arbitrary: ms fe)
  case (Cons r rs)
  show ?case
  proof (cases "SrcBits r = []")
    case True
    let ?m = "match_default\<lparr>m_ip_proto := rule_protos r\<rparr>"
    obtain m1 fe1 where p1: "parse_srcs (SrcIPs r) ?m fe = (m1, fe1)" by force
    note s1 = parse_srcs_eq[OF p1]
    from parse_dsts_eq[of "DstPorts r" m1 fe1] show ?thesis
    proof (elim disjE conjE exE)
      fix e assume "parse_dsts (DstPorts r) m1 fe1 = Inl e" "\<exists>d \<in> set (DstPorts r). Bits d \<noteq> None"
      then show ?thesis using True p1 by (auto simp: rule_compiles_def)
    next
      fix fe2 assume d: "parse_dsts (DstPorts r) m1 fe1 =
          Inr (m1\<lparr>m_dsts := m_dsts m1 @ concat (map dst_ranges (DstPorts r))\<rparr>, fe2)"
        "(fe2 = None) \<longleftrightarrow> fe1 = None \<and>
          (\<forall>d \<in> set (DstPorts r). Bits d = None \<and> (\<exists>ps. parse_ip_set (IP d) = Inr (Prefixes ps)))"
      have "fe2 = None \<longleftrightarrow> fe = None \<and> rule_compiles r" using d(2) s1 True unfolding rule_compiles_def by blast
      moreover have "rules_loop (r # rs) ms fe = rules_loop rs (ms @ [compiled r]) fe2"
        using True p1 d(1) s1 by (simp add: Let_def compiled_def match_default_def)
      ultimately show ?thesis using Cons.IH[of "ms @ [compiled r]" fe2] by auto
    qed
  qed (simp add: rule_compiles_def)
qed simp

lemma matches_from_filter_rules_Inr:
  "matches_from_filter_rules rules = Inr ms \<longleftrightarrow> list_all rule_compiles rules \<and> ms = map compiled rules"
  using rules_loop_eq[of rules "[]" None]
  by (auto simp: matches_from_filter_rules_def list_all_iff split: sum.splits option.splits)

lemma parse_ip_set_Cap: "parse_ip_set s = Inr (Cap c) \<longleftrightarrow> s \<noteq> ''*'' \<and> strip_prefix ''cap:'' s = Some c"
  by (auto simp: parse_ip_set_def split: option.splits sum.splits if_splits elim!: parse_range_contains)

lemma src_denotes_eq:
  assumes "parse_ip_set s = Inr x"
  shows "src_denotes has_cap s ip \<longleftrightarrow> (\<exists>p \<in> set (src_prefixes s). prefix_contains p ip) \<or> (\<exists>c \<in> set (src_cap s). has_cap ip c)"
proof (cases x)
  case (Prefixes ps)
  then have "(if s = ''*'' then None else strip_prefix ''cap:'' s) = None"
    using assms parse_ip_set_Cap[of s] by (cases "strip_prefix ''cap:'' s") auto
  then show ?thesis using parse_ip_set_denotes[of s ps ip] assms Prefixes
    by (simp add: src_denotes_def src_prefixes_def src_cap_def)
next
  case (Cap c)
  then show ?thesis using assms parse_ip_set_Cap[of s c] by (simp add: src_denotes_def src_prefixes_def src_cap_def)
qed

lemma compiled_admits:
  assumes "rule_compiles r"
  shows "rule_admits has_cap (compiled r) q \<longleftrightarrow> rule_allows has_cap r q"
proof -
  have "src_allowed has_cap (compiled r) (pi_src q) \<longleftrightarrow> (\<exists>s \<in> set (SrcIPs r). src_denotes has_cap s (pi_src q))"
  proof -
    have "src_denotes has_cap s (pi_src q) \<longleftrightarrow>
        (\<exists>p \<in> set (src_prefixes s). prefix_contains p (pi_src q)) \<or> (\<exists>c \<in> set (src_cap s). has_cap (pi_src q) c)"
      if "s \<in> set (SrcIPs r)" for s
      using assms that src_denotes_eq[of s _ has_cap "pi_src q"] unfolding rule_compiles_def by blast
    then show ?thesis unfolding src_allowed_def compiled_def by auto
  qed
  moreover have "(\<exists>d \<in> set (m_dsts (compiled r)). prefix_contains (npr_net d) (pi_dst q) \<and>
        port_contains (npr_ports d) (pi_dst_port q)) \<longleftrightarrow>
      (\<exists>d \<in> set (DstPorts r). denotes (IP d) (pi_dst q) \<and> tc_port_contains (Ports d) (pi_dst_port q))"
  proof -
    have "(\<exists>x \<in> set (dst_ranges d). prefix_contains (npr_net x) (pi_dst q) \<and> port_contains (npr_ports x) (pi_dst_port q)) \<longleftrightarrow>
        denotes (IP d) (pi_dst q) \<and> tc_port_contains (Ports d) (pi_dst_port q)" if d: "d \<in> set (DstPorts r)" for d
    proof -
      obtain ps where ps: "parse_ip_set (IP d) = Inr (Prefixes ps)" using assms d unfolding rule_compiles_def by blast
      show ?thesis using parse_ip_set_denotes[OF ps, of "pi_dst q"]
        by (auto simp: dst_ranges_def src_prefixes_def ps port_contains_def tc_port_contains_def)
    qed
    then show ?thesis by (auto simp: compiled_def)
  qed
  ultimately show ?thesis by (simp add: rule_admits_def rule_allows_def compiled_def)
qed

subsection \<open>Properties\<close>

text \<open>C15. Compiling a list of filter rules succeeds exactly if every rule is well formed: no
deprecated \<open>SrcBits\<close> or \<open>DstBits\<close>, every source string is an IP set or a capability, and every
destination string is an IP set.  One bad string anywhere rejects the whole list.\<close>

theorem filter_rules_compile_iff:
  "(\<exists>ms. matches_from_filter_rules rules = Inr ms) \<longleftrightarrow> list_all rule_compiles rules"
  by (simp add: matches_from_filter_rules_Inr)

text \<open>C8. A compiled rule list matches a packet exactly if one of the rules allows it as written: the
protocol is listed (or a default), a source string denotes the source address or names a capability
it holds, and a destination string denotes the destination address with the port in its range.
Ranges and wildcards are covered exactly by the prefixes they compile to.\<close>

theorem compiled_rules_match:
  assumes "matches_from_filter_rules rules = Inr ms"
  shows "matches ms q has_cap \<longleftrightarrow> list_ex (\<lambda>r. rule_allows has_cap r q) rules"
  using assms compiled_admits
  by (auto simp: matches_from_filter_rules_Inr matches_iff list_all_iff list_ex_iff)

theorem compiled_rules_match_witness:
  "\<exists>ms. matches_from_filter_rules filter_allow_all = Inr ms \<and>
     (matches ms packet_info_default (\<lambda>_ _. False) \<longleftrightarrow>
        list_ex (\<lambda>r. rule_allows (\<lambda>_ _. False) r packet_info_default) filter_allow_all)"
proof -
  have ok: "matches_from_filter_rules filter_allow_all = Inr (map compiled filter_allow_all)"
    by (simp add: matches_from_filter_rules_Inr rule_compiles_def filter_allow_all_def parse_ip_set_def)
  show ?thesis using compiled_rules_match[OF ok] ok by blast
qed

end
