(* ===== verification/Flowtrack.thy ===== *)
theory Flowtrack
  imports Std_Net "HOL-Library.Monad_Syntax" "HOL-Library.AList"
begin

text \<open>
  \<open>crates/flowtrack/src/lib.rs\<close>: packed flow tuples and the LRU cache keyed by them.  The cache
  is a doubly linked list inside a vector of nodes with a free list; the hash map from keys to
  node indices is an association list.  An operation is \<open>None\<close> where the code panics (an index out
  of range or an empty slot).  The last part shows that the cache refines a list of key-value pairs
  in order of last use, and packs the laws into a locale for clients.
\<close>

subsection \<open>Tuples\<close>

record tuple =
  t_src :: bytes
  t_dst :: bytes
  t_src_port :: u16
  t_dst_port :: u16
  t_proto :: u8

fun mapped_octets :: "ipaddr \<Rightarrow> bytes" where
  "mapped_octets (V4 a) = octets (V6 (to_ipv6_mapped a))"
| "mapped_octets (V6 a) = octets (V6 a)"

definition unmapped_addr :: "bytes \<Rightarrow> ipaddr" where
  "unmapped_addr os =
     (let addr = from_be_bytes os :: u128
      in case to_ipv4_mapped addr of Some a \<Rightarrow> V4 a | None \<Rightarrow> V6 addr)"

type_synonym socket_addr = "ipaddr \<times> u16"

definition tuple_new :: "u8 \<Rightarrow> socket_addr \<Rightarrow> socket_addr \<Rightarrow> tuple" where
  "tuple_new proto src dst =
     \<lparr>t_src = mapped_octets (fst src), t_dst = mapped_octets (fst dst),
      t_src_port = snd src, t_dst_port = snd dst, t_proto = proto\<rparr>"

definition src_addr :: "tuple \<Rightarrow> ipaddr" where
  "src_addr t = unmapped_addr (t_src t)"

definition dst_addr :: "tuple \<Rightarrow> ipaddr" where
  "dst_addr t = unmapped_addr (t_dst t)"

subsection \<open>The cache\<close>

record 'v node =
  n_key :: tuple
  n_value :: 'v
  n_prev :: "nat option"
  n_next :: "nat option"

record 'v cache =
  c_max_entries :: nat
  c_entries :: "(tuple \<times> nat) list"
  c_nodes :: "'v node option list"
  c_free :: "nat list"
  c_front :: "nat option"
  c_back :: "nat option"

definition cache_default :: "'v cache" where
  "cache_default = \<lparr>c_max_entries = 0, c_entries = [], c_nodes = [], c_free = [], c_front = None, c_back = None\<rparr>"

definition node_at :: "'v cache \<Rightarrow> nat \<Rightarrow> 'v node option" where
  "node_at c i = do { slot \<leftarrow> idx (c_nodes c) i; slot }"

definition modify_node :: "nat \<Rightarrow> ('v node \<Rightarrow> 'v node) \<Rightarrow> 'v cache \<Rightarrow> 'v cache option" where
  "modify_node i f c = do {
     n \<leftarrow> node_at c i;
     Some (c\<lparr>c_nodes := (c_nodes c)[i := Some (f n)]\<rparr>)
   }"

definition cache_len :: "'v cache \<Rightarrow> nat" where
  "cache_len c = length (c_entries c)"

definition allocate_node :: "tuple \<Rightarrow> 'v \<Rightarrow> 'v cache \<Rightarrow> ('v cache \<times> nat) option" where
  "allocate_node key v c =
     (let node = \<lparr>n_key = key, n_value = v, n_prev = None, n_next = None\<rparr> in
      if c_free c \<noteq> [] then
        let index = last (c_free c) in
        if index < length (c_nodes c)
        then Some (c\<lparr>c_free := butlast (c_free c), c_nodes := (c_nodes c)[index := Some node]\<rparr>, index)
        else None
      else
        let ns = c_nodes c @ [Some node] in Some (c\<lparr>c_nodes := ns\<rparr>, length ns - 1))"

definition push_front :: "nat \<Rightarrow> 'v cache \<Rightarrow> 'v cache option" where
  "push_front index c = do {
     let old_front = c_front c;
     c \<leftarrow> modify_node index (\<lambda>n. n\<lparr>n_prev := None, n_next := old_front\<rparr>) c;
     c \<leftarrow> (case old_front of
            Some f \<Rightarrow> modify_node f (\<lambda>n. n\<lparr>n_prev := Some index\<rparr>) c
          | None \<Rightarrow> Some (c\<lparr>c_back := Some index\<rparr>));
     Some (c\<lparr>c_front := Some index\<rparr>)
   }"

definition unlink :: "nat \<Rightarrow> 'v cache \<Rightarrow> 'v cache option" where
  "unlink index c = do {
     node \<leftarrow> node_at c index;
     let prev = n_prev node;
     let nxt = n_next node;
     c \<leftarrow> (case prev of
            Some p \<Rightarrow> modify_node p (\<lambda>n. n\<lparr>n_next := nxt\<rparr>) c
          | None \<Rightarrow> Some (c\<lparr>c_front := nxt\<rparr>));
     (case nxt of
        Some x \<Rightarrow> modify_node x (\<lambda>n. n\<lparr>n_prev := prev\<rparr>) c
      | None \<Rightarrow> Some (c\<lparr>c_back := prev\<rparr>))
   }"

definition move_to_front :: "nat \<Rightarrow> 'v cache \<Rightarrow> 'v cache option" where
  "move_to_front index c =
     (if c_front c = Some index then Some c
      else do { c \<leftarrow> unlink index c; push_front index c })"

definition remove_index :: "nat \<Rightarrow> 'v cache \<Rightarrow> 'v cache option" where
  "remove_index index c = do {
     node \<leftarrow> node_at c index;
     let key = n_key node;
     c \<leftarrow> unlink index c;
     let c = c\<lparr>c_entries := AList.delete key (c_entries c)\<rparr>;
     Some (c\<lparr>c_nodes := (c_nodes c)[index := None], c_free := c_free c @ [index]\<rparr>)
   }"

definition remove_oldest :: "'v cache \<Rightarrow> 'v cache option" where
  "remove_oldest c = (case c_back c of Some index \<Rightarrow> remove_index index c | None \<Rightarrow> Some c)"

definition cache_remove :: "tuple \<Rightarrow> 'v cache \<Rightarrow> 'v cache option" where
  "cache_remove key c =
     (case map_of (c_entries c) key of Some index \<Rightarrow> remove_index index c | None \<Rightarrow> Some c)"

definition cache_add :: "tuple \<Rightarrow> 'v \<Rightarrow> 'v cache \<Rightarrow> 'v cache option" where
  "cache_add key v c =
     (case map_of (c_entries c) key of
        Some index \<Rightarrow> do {
          c \<leftarrow> modify_node index (\<lambda>n. n\<lparr>n_value := v\<rparr>) c;
          move_to_front index c
        }
      | None \<Rightarrow> do {
          (c, index) \<leftarrow> allocate_node key v c;
          let c = c\<lparr>c_entries := AList.update key index (c_entries c)\<rparr>;
          c \<leftarrow> push_front index c;
          if c_max_entries c \<noteq> 0 \<and> c_max_entries c < cache_len c then remove_oldest c else Some c
        })"

definition cache_get :: "tuple \<Rightarrow> 'v cache \<Rightarrow> ('v cache \<times> 'v option) option" where
  "cache_get key c =
     (case map_of (c_entries c) key of
        None \<Rightarrow> Some (c, None)
      | Some index \<Rightarrow> do {
          c \<leftarrow> move_to_front index c;
          n \<leftarrow> node_at c index;
          Some (c, Some (n_value n))
        })"

text \<open>\<open>get_mut\<close> hands out a mutable reference; its effect is that of a function on the value.\<close>

definition cache_get_mut :: "tuple \<Rightarrow> ('v \<Rightarrow> 'v) \<Rightarrow> 'v cache \<Rightarrow> ('v cache \<times> bool) option" where
  "cache_get_mut key f c =
     (case map_of (c_entries c) key of
        None \<Rightarrow> Some (c, False)
      | Some index \<Rightarrow> do {
          c \<leftarrow> move_to_front index c;
          c \<leftarrow> modify_node index (\<lambda>n. n\<lparr>n_value := f (n_value n)\<rparr>) c;
          Some (c, True)
        })"

subsection \<open>The linked list of a cache\<close>

definition hd_opt :: "'a list \<Rightarrow> 'a option" where
  "hd_opt xs = (case xs of [] \<Rightarrow> None | x # _ \<Rightarrow> Some x)"

definition last_opt :: "'a list \<Rightarrow> 'a option" where
  "last_opt xs = (if xs = [] then None else Some (last xs))"

lemma hd_opt_simps [simp]: "hd_opt [] = None" "hd_opt (x # xs) = Some x"
  by (simp_all add: hd_opt_def)

lemma last_opt_simps [simp]: "last_opt [] = None" "last_opt (xs @ [x]) = Some x"
  by (simp_all add: last_opt_def)

lemma last_opt_Cons [simp]: "last_opt (x # xs) = (if xs = [] then Some x else last_opt xs)"
  by (simp add: last_opt_def)

lemma hd_opt_append [simp]: "hd_opt (xs @ ys) = (if xs = [] then hd_opt ys else hd_opt xs)"
  by (cases xs) simp_all

lemma last_opt_append [simp]: "last_opt (xs @ ys) = (if ys = [] then last_opt xs else last_opt ys)"
  by (simp add: last_opt_def)

text \<open>
  \<open>seg c p xs q\<close>: the nodes with the indices \<open>xs\<close> are linked one after another, the first has the
  predecessor \<open>p\<close> and the last the successor \<open>q\<close>.
\<close>

definition link :: "'v cache \<Rightarrow> nat \<Rightarrow> nat option \<Rightarrow> nat option \<Rightarrow> bool" where
  "link c a p q \<longleftrightarrow> (\<exists>n. node_at c a = Some n \<and> n_prev n = p \<and> n_next n = q)"

fun seg :: "'v cache \<Rightarrow> nat option \<Rightarrow> nat list \<Rightarrow> nat option \<Rightarrow> bool" where
  "seg c p [] q = True"
| "seg c p (x # xs) q = (link c x p (if xs = [] then q else hd_opt xs) \<and> seg c (Some x) xs q)"

definition payload_at :: "'v cache \<Rightarrow> nat \<Rightarrow> (tuple \<times> 'v) option" where
  "payload_at c i = map_option (\<lambda>n. (n_key n, n_value n)) (node_at c i)"

definition same_payloads :: "'v cache \<Rightarrow> 'v cache \<Rightarrow> bool" where
  "same_payloads c c' \<longleftrightarrow> payload_at c' = payload_at c \<and> c_entries c' = c_entries c \<and>
     c_free c' = c_free c \<and> c_max_entries c' = c_max_entries c \<and> length (c_nodes c') = length (c_nodes c)"

lemma same_payloads_refl [simp]: "same_payloads c c"
  by (simp add: same_payloads_def)

lemma same_payloads_trans: "same_payloads c d \<Longrightarrow> same_payloads d e \<Longrightarrow> same_payloads c e"
  by (simp add: same_payloads_def)

lemma node_at_fields [simp]:
  "node_at (c\<lparr>c_front := f\<rparr>) = node_at c" "node_at (c\<lparr>c_back := f\<rparr>) = node_at c"
  "node_at (c\<lparr>c_free := fr\<rparr>) = node_at c" "node_at (c\<lparr>c_entries := e\<rparr>) = node_at c"
  by (simp_all add: node_at_def fun_eq_iff)

lemma seg_fields [simp]:
  "seg (c\<lparr>c_front := f\<rparr>) p xs q = seg c p xs q" "seg (c\<lparr>c_back := f\<rparr>) p xs q = seg c p xs q"
  "seg (c\<lparr>c_entries := e\<rparr>) p xs q = seg c p xs q" "seg (c\<lparr>c_free := fr\<rparr>) p xs q = seg c p xs q"
  by (induction xs arbitrary: p) (simp_all add: link_def)

lemma payload_fields [simp]:
  "payload_at (c\<lparr>c_front := f\<rparr>) = payload_at c" "payload_at (c\<lparr>c_back := f\<rparr>) = payload_at c"
  "payload_at (c\<lparr>c_free := fr\<rparr>) = payload_at c" "payload_at (c\<lparr>c_entries := e\<rparr>) = payload_at c"
  by (simp_all add: payload_at_def fun_eq_iff)

lemma node_at_length: "node_at c i = Some n \<Longrightarrow> i < length (c_nodes c)"
  by (auto simp: node_at_def idx_def split: if_splits)

lemma node_at_update:
  "i < length (c_nodes c) \<Longrightarrow>
   node_at (c\<lparr>c_nodes := (c_nodes c)[i := x]\<rparr>) j = (if j = i then x else node_at c j)"
  by (simp add: node_at_def idx_def nth_list_update)

lemma seg_cong: "(\<And>a. a \<in> set xs \<Longrightarrow> node_at c' a = node_at c a) \<Longrightarrow> seg c' p xs q = seg c p xs q"
  by (induction xs arbitrary: p) (simp_all add: link_def)

lemma seg_append:
  "seg c p (ys @ zs) q \<longleftrightarrow>
     seg c p ys (if zs = [] then q else hd_opt zs) \<and> seg c (if ys = [] then p else last_opt ys) zs q"
  by (induction ys arbitrary: p) (auto simp: hd_opt_def split: list.splits)

text \<open>Rewriting the link fields of one node keeps its payload.\<close>

lemma modify_node_links:
  assumes "node_at c i = Some n" and "\<And>n. n_key (f n) = n_key n \<and> n_value (f n) = n_value n"
  obtains c' where "modify_node i f c = Some c'" "same_payloads c c'" "c_front c' = c_front c"
    "c_back c' = c_back c" "node_at c' = (node_at c)(i := Some (f n))"
proof
  let ?c = "c\<lparr>c_nodes := (c_nodes c)[i := Some (f n)]\<rparr>"
  show "modify_node i f c = Some ?c" by (simp add: modify_node_def assms)
  show n: "node_at ?c = (node_at c)(i := Some (f n))"
    by (simp add: fun_eq_iff node_at_update[OF node_at_length[OF assms(1)]])
  show "same_payloads c ?c"
    unfolding same_payloads_def payload_at_def n using assms by auto
qed simp_all

lemma seg_update_outside: "i \<notin> set xs \<Longrightarrow> node_at c' = (node_at c)(i := x) \<Longrightarrow> seg c' p xs q = seg c p xs q"
  by (rule seg_cong) auto

lemma seg_set_next:
  assumes "seg c p (ys @ [a]) q" "a \<notin> set ys" "node_at c a = Some n"
    and "node_at c' = (node_at c)(a := Some (n\<lparr>n_next := q'\<rparr>))"
  shows "seg c' p (ys @ [a]) q'"
  using assms seg_update_outside[OF assms(2,4)]
  by (auto simp: seg_append link_def)

lemma seg_set_prev:
  assumes "seg c p (a # zs) q" "a \<notin> set zs" "node_at c a = Some n"
    and "node_at c' = (node_at c)(a := Some (n\<lparr>n_prev := p'\<rparr>))"
  shows "seg c' p' (a # zs) q"
  using assms seg_update_outside[OF assms(2,4)] by (auto simp: link_def)

definition linked :: "'v cache \<Rightarrow> nat list \<Rightarrow> bool" where
  "linked c xs \<longleftrightarrow> distinct xs \<and> c_front c = hd_opt xs \<and> c_back c = last_opt xs \<and> seg c None xs None"

lemma seg_node: "seg c p xs q \<Longrightarrow> a \<in> set xs \<Longrightarrow> \<exists>n. node_at c a = Some n"
  by (induction xs arbitrary: p) (auto simp: link_def)

lemma unlink_prev:
  assumes "distinct (ys @ i # zs)" "seg c None ys (Some i)" "seg c (Some i) zs None"
    "c_front c = hd_opt (ys @ i # zs)"
  obtains c' where
    "(case last_opt ys of Some p \<Rightarrow> modify_node p (\<lambda>n. n\<lparr>n_next := hd_opt zs\<rparr>) c
      | None \<Rightarrow> Some (c\<lparr>c_front := hd_opt zs\<rparr>)) = Some c'"
    "same_payloads c c'" "seg c' None ys (hd_opt zs)" "seg c' (Some i) zs None"
    "c_front c' = hd_opt (ys @ zs)" "c_back c' = c_back c"
proof (cases ys rule: rev_cases)
  case Nil
  then show ?thesis using assms that[of "c\<lparr>c_front := hd_opt zs\<rparr>"]
    by (simp add: same_payloads_def)
next
  case (snoc ys' p)
  then obtain n where n: "node_at c p = Some n" using assms(2) seg_node by fastforce
  obtain c' where c': "modify_node p (\<lambda>n. n\<lparr>n_next := hd_opt zs\<rparr>) c = Some c'" "same_payloads c c'"
      "c_front c' = c_front c" "c_back c' = c_back c"
      "node_at c' = (node_at c)(p := Some (n\<lparr>n_next := hd_opt zs\<rparr>))"
    using modify_node_links[OF n, of "\<lambda>n. n\<lparr>n_next := hd_opt zs\<rparr>"] by auto
  have "seg c' None ys (hd_opt zs)" "seg c' (Some i) zs None"
    using seg_set_next[of c None ys' p "Some i" n c' "hd_opt zs"] seg_update_outside[OF _ c'(5), of zs]
      assms n c' snoc by auto
  then show ?thesis using that[of c'] c' assms snoc by simp
qed

lemma unlink_next:
  assumes "distinct (ys @ zs)" "seg c None ys (hd_opt zs)" "seg c (Some i) zs None"
    "c_back c = last_opt (ys @ i # zs)"
  obtains c' where
    "(case hd_opt zs of Some x \<Rightarrow> modify_node x (\<lambda>n. n\<lparr>n_prev := last_opt ys\<rparr>) c
      | None \<Rightarrow> Some (c\<lparr>c_back := last_opt ys\<rparr>)) = Some c'"
    "same_payloads c c'" "seg c' None (ys @ zs) None"
    "c_front c' = c_front c" "c_back c' = last_opt (ys @ zs)"
proof (cases zs)
  case Nil
  then show ?thesis using assms that[of "c\<lparr>c_back := last_opt ys\<rparr>"]
    by (simp add: same_payloads_def)
next
  case (Cons x zs')
  then obtain n where n: "node_at c x = Some n" using assms(3) seg_node by fastforce
  obtain c' where c': "modify_node x (\<lambda>n. n\<lparr>n_prev := last_opt ys\<rparr>) c = Some c'" "same_payloads c c'"
      "c_front c' = c_front c" "c_back c' = c_back c"
      "node_at c' = (node_at c)(x := Some (n\<lparr>n_prev := last_opt ys\<rparr>))"
    using modify_node_links[OF n, of "\<lambda>n. n\<lparr>n_prev := last_opt ys\<rparr>"] by auto
  have "seg c' (last_opt ys) zs None" "seg c' None ys (hd_opt zs)"
    using seg_set_prev[of c "Some i" x zs' None n c' "last_opt ys"] seg_update_outside[OF _ c'(5), of ys]
      assms n c' Cons by auto
  then have "seg c' None (ys @ zs) None" using Cons by (auto simp: seg_append)
  then show ?thesis using that[of c'] c' assms Cons by auto
qed

lemma unlink_linked:
  assumes "linked c (ys @ i # zs)"
  obtains c' where "unlink i c = Some c'" "linked c' (ys @ zs)" "same_payloads c c'"
proof -
  have s: "seg c None ys (Some i)" "seg c (Some i) zs None" "link c i (last_opt ys) (hd_opt zs)"
    using assms by (auto simp: linked_def seg_append split: if_splits)
  then obtain n where n: "node_at c i = Some n" "n_prev n = last_opt ys" "n_next n = hd_opt zs"
    by (auto simp: link_def)
  obtain c1 where c1: "(case last_opt ys of Some p \<Rightarrow> modify_node p (\<lambda>n. n\<lparr>n_next := hd_opt zs\<rparr>) c
      | None \<Rightarrow> Some (c\<lparr>c_front := hd_opt zs\<rparr>)) = Some c1"
    "same_payloads c c1" "seg c1 None ys (hd_opt zs)" "seg c1 (Some i) zs None"
    "c_front c1 = hd_opt (ys @ zs)" "c_back c1 = c_back c"
    using unlink_prev[of ys i zs c] assms s by (auto simp: linked_def)
  obtain c2 where c2: "(case hd_opt zs of Some x \<Rightarrow> modify_node x (\<lambda>n. n\<lparr>n_prev := last_opt ys\<rparr>) c1
      | None \<Rightarrow> Some (c1\<lparr>c_back := last_opt ys\<rparr>)) = Some c2"
    "same_payloads c1 c2" "seg c2 None (ys @ zs) None"
    "c_front c2 = c_front c1" "c_back c2 = last_opt (ys @ zs)"
    using unlink_next[of ys zs c1 i] assms c1 by (auto simp: linked_def)
  show ?thesis
  proof (rule that[of c2])
    show "unlink i c = Some c2" using n c1(1) c2(1) by (simp add: unlink_def)
    show "linked c2 (ys @ zs)" using assms c1 c2 by (simp add: linked_def)
    show "same_payloads c c2" using c1 c2 same_payloads_trans by blast
  qed
qed

lemma push_front_linked:
  assumes "linked c xs" "i \<notin> set xs" "node_at c i = Some n"
  obtains c' where "push_front i c = Some c'" "linked c' (i # xs)" "same_payloads c c'"
proof -
  let ?f = "\<lambda>n. n\<lparr>n_prev := None, n_next := c_front c\<rparr>"
  obtain c1 where c1: "modify_node i ?f c = Some c1" "same_payloads c c1" "c_front c1 = c_front c"
      "c_back c1 = c_back c" "node_at c1 = (node_at c)(i := Some (?f n))"
    using modify_node_links[OF assms(3), of ?f] by auto
  have s1: "seg c1 None xs None" "link c1 i None (hd_opt xs)"
    using seg_update_outside[OF assms(2) c1(5)] assms c1 by (auto simp: linked_def link_def)
  show ?thesis
  proof (cases xs)
    case Nil
    then show ?thesis using that[of "c1\<lparr>c_back := Some i, c_front := Some i\<rparr>"] c1 s1 assms
      by (auto simp: linked_def push_front_def same_payloads_def link_def)
  next
    case (Cons x xs')
    obtain m where m: "node_at c1 x = Some m" using s1 Cons by (auto simp: link_def)
    obtain c2 where c2: "modify_node x (\<lambda>n. n\<lparr>n_prev := Some i\<rparr>) c1 = Some c2" "same_payloads c1 c2"
        "c_front c2 = c_front c1" "c_back c2 = c_back c1"
        "node_at c2 = (node_at c1)(x := Some (m\<lparr>n_prev := Some i\<rparr>))"
      using modify_node_links[OF m, of "\<lambda>n. n\<lparr>n_prev := Some i\<rparr>"] by auto
    have "seg c2 (Some i) xs None" "link c2 i None (hd_opt xs)"
      using seg_set_prev[of c1 None x xs' None m c2 "Some i"] s1 m c2 Cons assms
      by (auto simp: linked_def link_def)
    then show ?thesis
      using that[of "c2\<lparr>c_front := Some i\<rparr>"] c1 c2 Cons assms same_payloads_trans[OF c1(2) c2(2)]
      by (auto simp: linked_def push_front_def same_payloads_def link_def)
  qed
qed

lemma move_to_front_linked:
  assumes "linked c xs" "i \<in> set xs"
  obtains c' where "move_to_front i c = Some c'" "linked c' (i # remove1 i xs)" "same_payloads c c'"
proof (cases "c_front c = Some i")
  case True
  then have "i # remove1 i xs = xs" using assms by (cases xs) (auto simp: linked_def)
  then show ?thesis using that[of c] True assms by (simp add: move_to_front_def)
next
  case False
  obtain ys zs where xs: "xs = ys @ i # zs" using assms(2) by (meson split_list)
  moreover have "i \<notin> set ys" "i \<notin> set zs" using assms(1) xs by (auto simp: linked_def)
  ultimately have r: "remove1 i xs = ys @ zs" "i \<notin> set (ys @ zs)" by (auto simp: remove1_append)
  obtain c1 where c1: "unlink i c = Some c1" "linked c1 (ys @ zs)" "same_payloads c c1"
    using unlink_linked assms(1) xs by blast
  have "payload_at c i \<noteq> None"
    using assms seg_node[of c None xs None i] by (auto simp: linked_def payload_at_def)
  with c1(3) have "payload_at c1 i \<noteq> None" by (simp add: same_payloads_def)
  then obtain n where "node_at c1 i = Some n" by (auto simp: payload_at_def)
  then obtain c2 where c2: "push_front i c1 = Some c2" "linked c2 (i # ys @ zs)" "same_payloads c1 c2"
    using push_front_linked[OF c1(2) r(2)] by blast
  show ?thesis using that[of c2] False c1 c2 r same_payloads_trans
    by (metis bind.bind_lunit move_to_front_def)
qed

subsection \<open>Refinement of an LRU list\<close>

text \<open>What a cache promises: a list of key-value pairs, most recently used first.\<close>

definition lru_add :: "nat \<Rightarrow> 'k \<Rightarrow> 'v \<Rightarrow> ('k \<times> 'v) list \<Rightarrow> ('k \<times> 'v) list" where
  "lru_add m k v al =
     (let al' = (k, v) # AList.delete k al
      in if map_of al k = None \<and> m \<noteq> 0 \<and> m < length al' then butlast al' else al')"

definition lru_get :: "'k \<Rightarrow> ('k \<times> 'v) list \<Rightarrow> ('k \<times> 'v) list \<times> 'v option" where
  "lru_get k al =
     (case map_of al k of None \<Rightarrow> (al, None) | Some v \<Rightarrow> ((k, v) # AList.delete k al, Some v))"

definition cache_inv :: "'v cache \<Rightarrow> nat list \<Rightarrow> bool" where
  "cache_inv c xs \<longleftrightarrow> linked c xs \<and>
     distinct (map fst (c_entries c)) \<and>
     (\<forall>k i. map_of (c_entries c) k = Some i \<longleftrightarrow> i \<in> set xs \<and> (\<exists>v. payload_at c i = Some (k, v))) \<and>
     distinct (c_free c) \<and> set (c_free c) = {i. i < length (c_nodes c) \<and> payload_at c i = None} \<and>
     (\<forall>i. payload_at c i \<noteq> None \<longleftrightarrow> i \<in> set xs)"

definition contents :: "'v cache \<Rightarrow> nat list \<Rightarrow> (tuple \<times> 'v) list" where
  "contents c xs = map (\<lambda>i. the (payload_at c i)) xs"

definition cache_rep :: "'v cache \<Rightarrow> (tuple \<times> 'v) list \<Rightarrow> bool" where
  "cache_rep c al \<longleftrightarrow> (\<exists>xs. cache_inv c xs \<and> al = contents c xs)"

lemma contents_simps [simp]:
  "contents c [] = []" "contents c (i # xs) = the (payload_at c i) # contents c xs"
  "contents c (xs @ ys) = contents c xs @ contents c ys" "length (contents c xs) = length xs"
  by (simp_all add: contents_def)

lemma cache_inv_payloads:
  assumes "cache_inv c xs" "same_payloads c c'" "linked c' xs'" "set xs' = set xs"
  shows "cache_inv c' xs'"
  using assms unfolding cache_inv_def same_payloads_def by simp

lemma cache_inv_payload: "cache_inv c xs \<Longrightarrow> i \<in> set xs \<Longrightarrow> \<exists>k v. payload_at c i = Some (k, v)"
  unfolding cache_inv_def by (metis not_None_eq surj_pair)

lemma payload_None_not_linked: "cache_inv c xs \<Longrightarrow> payload_at c i = None \<Longrightarrow> i \<notin> set xs"
  using cache_inv_payload by fastforce

lemma payload_key_unique:
  assumes "cache_inv c xs" "payload_at c i = Some (k, v)" "payload_at c j = Some (k, w)"
  shows "i = j"
proof -
  have "i \<in> set xs" "j \<in> set xs" using assms by (auto simp: cache_inv_def)
  then have "map_of (c_entries c) k = Some i" "map_of (c_entries c) k = Some j"
    using assms unfolding cache_inv_def by blast+
  then show ?thesis by simp
qed

lemma cache_inv_inj:
  assumes "cache_inv c xs" shows "inj_on (\<lambda>i. fst (the (payload_at c i))) (set xs)"
proof (rule inj_onI)
  fix i j assume ij: "i \<in> set xs" "j \<in> set xs" "fst (the (payload_at c i)) = fst (the (payload_at c j))"
  then obtain v w k where "payload_at c i = Some (k, v)" "payload_at c j = Some (k, w)"
    using cache_inv_payload[OF assms ij(1)] cache_inv_payload[OF assms ij(2)] by auto
  then show "i = j" by (rule payload_key_unique[OF assms])
qed

lemma cache_inv_split:
  assumes inv: "cache_inv c xs" and i: "i \<in> set xs" "payload_at c i = Some (k, v)"
  obtains ys zs where "xs = ys @ i # zs" "remove1 i xs = ys @ zs" "i \<notin> set (ys @ zs)"
    "AList.delete k (contents c xs) = contents c (ys @ zs)" "map_of (contents c xs) k = Some v"
proof -
  obtain ys zs where xs: "xs = ys @ i # zs" using i by (meson split_list)
  have d: "i \<notin> set ys" "i \<notin> set zs" using inv xs by (auto simp: cache_inv_def linked_def)
  have k: "fst (the (payload_at c j)) \<noteq> k" if j: "j \<in> set xs" "j \<noteq> i" for j
  proof
    assume "fst (the (payload_at c j)) = k"
    then obtain v' where "payload_at c j = Some (k, v')" using cache_inv_payload[OF inv j(1)] by auto
    with payload_key_unique[OF inv i(2)] j show False by blast
  qed
  have none: "AList.delete k (contents c us) = contents c us" "map_of (contents c us) k = None"
    if "set us \<subseteq> set xs - {i}" for us
    using that k by (induction us) (auto simp: case_prod_beta)
  show ?thesis
  proof (rule that[OF xs])
    show "remove1 i xs = ys @ zs" using d by (simp add: xs remove1_append)
    show "i \<notin> set (ys @ zs)" using d by simp
    have "AList.delete k (contents c (ys @ zs)) = contents c (ys @ zs)"
      by (rule none) (use xs d in auto)
    then show "AList.delete k (contents c xs) = contents c (ys @ zs)"
      by (simp add: xs i AList.delete_eq)
    have "map_of (contents c ys) k = None" by (rule none) (use xs d in auto)
    then show "map_of (contents c xs) k = Some v" by (simp add: xs i map_add_def)
  qed
qed

lemma contents_same: "same_payloads c c' \<Longrightarrow> contents c' xs = contents c xs"
  by (simp add: contents_def same_payloads_def)

lemma entries_lookup:
  assumes "cache_inv c xs" "map_of (c_entries c) k = Some i"
  obtains v n where "i \<in> set xs" "payload_at c i = Some (k, v)" "node_at c i = Some n"
    "n_key n = k" "n_value n = v"
proof -
  obtain v where "i \<in> set xs" "payload_at c i = Some (k, v)" using assms by (auto simp: cache_inv_def)
  then show ?thesis using that by (auto simp: payload_at_def)
qed

lemma entries_absent:
  assumes "cache_inv c xs" "map_of (c_entries c) k = None"
  shows "map_of (contents c xs) k = None" "AList.delete k (contents c xs) = contents c xs"
proof -
  have "fst (the (payload_at c i)) \<noteq> k" if i: "i \<in> set xs" for i
  proof
    assume "fst (the (payload_at c i)) = k"
    then obtain v' where "payload_at c i = Some (k, v')"
      using cache_inv_payload[OF assms(1) i] by auto
    then have "map_of (c_entries c) k = Some i" using assms(1) i unfolding cache_inv_def by blast
    then show False using assms(2) by simp
  qed
  then show "map_of (contents c xs) k = None" "AList.delete k (contents c xs) = contents c xs"
    unfolding contents_def by (induction xs) (auto simp: case_prod_beta)
qed

lemma move_to_front_refines:
  assumes "cache_inv c xs" "i \<in> set xs" "payload_at c i = Some (k, v)"
  obtains c' xs' where "move_to_front i c = Some c'" "cache_inv c' xs'" "same_payloads c c'"
    "contents c' xs' = (k, v) # AList.delete k (contents c xs)"
proof -
  obtain c' where c': "move_to_front i c = Some c'" "linked c' (i # remove1 i xs)" "same_payloads c c'"
    using move_to_front_linked[of c xs i] assms by (auto simp: cache_inv_def)
  obtain ys zs where ys: "remove1 i xs = ys @ zs" "xs = ys @ i # zs"
      "AList.delete k (contents c xs) = contents c (ys @ zs)"
    using cache_inv_split[OF assms] by metis
  show ?thesis
  proof (rule that[OF c'(1) _ c'(3)])
    show "cache_inv c' (i # remove1 i xs)" using cache_inv_payloads[OF assms(1) c'(3,2)] ys by auto
    show "contents c' (i # remove1 i xs) = (k, v) # AList.delete k (contents c xs)"
      using ys assms(3) c'(3)
      by (simp add: contents_same[OF c'(3)] same_payloads_def del: contents_simps(3))
  qed
qed

lemma modify_value_refines:
  assumes inv: "cache_inv c xs" and n: "node_at c i = Some n"
  obtains c' where "modify_node i (\<lambda>n. n\<lparr>n_value := f (n_value n)\<rparr>) c = Some c'" "cache_inv c' xs"
    "payload_at c' = (payload_at c)(i := Some (n_key n, f (n_value n)))"
    "c_entries c' = c_entries c" "c_max_entries c' = c_max_entries c"
proof
  let ?c = "c\<lparr>c_nodes := (c_nodes c)[i := Some (n\<lparr>n_value := f (n_value n)\<rparr>)]\<rparr>"
  show "modify_node i (\<lambda>n. n\<lparr>n_value := f (n_value n)\<rparr>) c = Some ?c"
    by (simp add: modify_node_def n)
  have na: "node_at ?c = (node_at c)(i := Some (n\<lparr>n_value := f (n_value n)\<rparr>))"
    by (simp add: fun_eq_iff node_at_update[OF node_at_length[OF n]])
  then show p: "payload_at ?c = (payload_at c)(i := Some (n_key n, f (n_value n)))"
    by (simp add: payload_at_def fun_eq_iff)
  have "link ?c a p q = link c a p q" for a p q using n by (simp add: link_def na)
  then have "seg ?c p ys q = seg c p ys q" for p ys q by (induction ys arbitrary: p) simp_all
  then have "linked ?c xs" using inv by (simp add: cache_inv_def linked_def)
  moreover have "payload_at c i = Some (n_key n, n_value n)" using n by (simp add: payload_at_def)
  ultimately show "cache_inv ?c xs" using inv unfolding cache_inv_def p by auto
qed simp_all

lemma remove_index_refines:
  assumes "cache_inv c xs" "i \<in> set xs" "payload_at c i = Some (k, v)"
  obtains c' where "remove_index i c = Some c'" "cache_inv c' (remove1 i xs)"
    "contents c' (remove1 i xs) = AList.delete k (contents c xs)" "c_max_entries c' = c_max_entries c"
proof -
  obtain ys zs where xs: "xs = ys @ i # zs" "remove1 i xs = ys @ zs" "i \<notin> set (ys @ zs)"
      "AList.delete k (contents c xs) = contents c (ys @ zs)"
    using cache_inv_split[OF assms] by metis
  obtain n where n: "node_at c i = Some n" "n_key n = k" using assms(3) by (auto simp: payload_at_def)
  obtain c1 where c1: "unlink i c = Some c1" "linked c1 (ys @ zs)" "same_payloads c c1"
    using unlink_linked[of c ys i zs] assms(1) unfolding xs(1) cache_inv_def by blast
  define c' where "c' = c1\<lparr>c_entries := AList.delete k (c_entries c1), c_nodes := (c_nodes c1)[i := None],
      c_free := c_free c1 @ [i]\<rparr>"
  have len: "i < length (c_nodes c1)" using node_at_length[OF n(1)] c1(3) by (simp add: same_payloads_def)
  have na: "node_at c' j = (if j = i then None else node_at c1 j)" for j
    using node_at_update[OF len, of None j] by (simp add: c'_def node_at_def)
  have p: "payload_at c' = (payload_at c)(i := None)"
    using c1(3) by (auto simp: payload_at_def same_payloads_def na fun_eq_iff)
  have "seg c' None (ys @ zs) None = seg c1 None (ys @ zs) None"
    by (rule seg_cong) (use xs na in auto)
  then have "linked c' (ys @ zs)" using c1(2) by (simp add: linked_def c'_def)
  moreover have "distinct (map fst (c_entries c'))"
    using assms(1) c1(3) by (simp add: c'_def cache_inv_def same_payloads_def AList.distinct_delete)
  moreover have "map_of (c_entries c') k' = Some j \<longleftrightarrow> j \<in> set (ys @ zs) \<and> (\<exists>v. payload_at c' j = Some (k', v))"
    for k' j
  proof -
    have "map_of (c_entries c') k' = (if k' = k then None else map_of (c_entries c) k')"
      using c1(3) by (auto simp: c'_def same_payloads_def AList.delete_conv')
    then have "map_of (c_entries c') k' = Some j \<longleftrightarrow>
        k' \<noteq> k \<and> j \<in> set xs \<and> (\<exists>v. payload_at c j = Some (k', v))"
      using assms(1) unfolding cache_inv_def by simp
    also have "\<dots> \<longleftrightarrow> j \<noteq> i \<and> j \<in> set xs \<and> (\<exists>v. payload_at c j = Some (k', v))"
      using payload_key_unique[OF assms(1,3)] assms(3) by fastforce
    finally show ?thesis using xs(1,3) by (auto simp: p)
  qed
  moreover have "distinct (c_free c')" "set (c_free c') = {j. j < length (c_nodes c') \<and> payload_at c' j = None}"
  proof -
    have f: "distinct (c_free c)" "set (c_free c) = {j. j < length (c_nodes c) \<and> payload_at c j = None}"
      using assms(1) by (simp_all add: cache_inv_def)
    then show "distinct (c_free c')" using c1(3) assms(3) by (simp add: c'_def same_payloads_def)
    have "set (c_free c') = insert i (set (c_free c))" "length (c_nodes c') = length (c_nodes c)"
      using c1(3) by (simp_all add: c'_def same_payloads_def)
    then show "set (c_free c') = {j. j < length (c_nodes c') \<and> payload_at c' j = None}"
      using f(2) node_at_length[OF n(1)] unfolding p by auto
  qed
  moreover have "payload_at c' j \<noteq> None \<longleftrightarrow> j \<in> set (ys @ zs)" for j
    using assms(1) xs(1,3) unfolding p cache_inv_def by auto
  ultimately have "cache_inv c' (ys @ zs)" by (simp add: cache_inv_def)
  moreover have "contents c' (ys @ zs) = contents c (ys @ zs)"
    using xs(3) unfolding contents_def p by auto
  moreover have "remove_index i c = Some c'"
    using n c1 by (simp add: remove_index_def c'_def Let_def)
  moreover have "c_max_entries c' = c_max_entries c" using c1(3) by (simp add: c'_def same_payloads_def)
  ultimately show ?thesis using that[of c'] xs(2,4) by simp
qed

lemma cache_len_contents:
  assumes "cache_inv c xs" shows "cache_len c = length (contents c xs)"
proof -
  have "set (map fst (c_entries c)) = dom (map_of (c_entries c))" by (simp add: dom_map_of_conv_image_fst)
  also have "\<dots> = (\<lambda>i. fst (the (payload_at c i))) ` set xs"
  proof (intro equalityI subsetI)
    fix k assume "k \<in> dom (map_of (c_entries c))"
    then obtain i where "map_of (c_entries c) k = Some i" by blast
    then obtain v where "i \<in> set xs" "payload_at c i = Some (k, v)"
      using assms unfolding cache_inv_def by blast
    then show "k \<in> (\<lambda>i. fst (the (payload_at c i))) ` set xs" by (auto intro!: image_eqI[of _ _ i])
  next
    fix k assume "k \<in> (\<lambda>i. fst (the (payload_at c i))) ` set xs"
    then obtain i v where "i \<in> set xs" "payload_at c i = Some (k, v)"
      using cache_inv_payload[OF assms] by fastforce
    then have "map_of (c_entries c) k = Some i" using assms unfolding cache_inv_def by blast
    then show "k \<in> dom (map_of (c_entries c))" by blast
  qed
  finally have "card (set (map fst (c_entries c))) = card (set xs)"
    using cache_inv_inj[OF assms] by (metis card_image)
  moreover have "card (set (map fst (c_entries c))) = length (map fst (c_entries c))"
    using assms distinct_card unfolding cache_inv_def by blast
  moreover have "card (set xs) = length xs"
    using assms distinct_card unfolding cache_inv_def linked_def by blast
  ultimately show ?thesis by (simp add: cache_len_def)
qed

lemma allocate_node_refines:
  assumes inv: "cache_inv c xs"
  obtains c' i where "allocate_node k v c = Some (c', i)" "payload_at c i = None" "linked c' xs"
    "payload_at c' = (payload_at c)(i := Some (k, v))" "c_entries c' = c_entries c"
    "c_max_entries c' = c_max_entries c" "distinct (c_free c')"
    "set (c_free c') = {j. j < length (c_nodes c') \<and> payload_at c' j = None}"
proof -
  let ?node = "\<lparr>n_key = k, n_value = v, n_prev = None, n_next = None\<rparr>"
  have f: "distinct (c_free c)" "set (c_free c) = {j. j < length (c_nodes c) \<and> payload_at c j = None}"
    using inv by (simp_all add: cache_inv_def)
  have linked: "linked c' xs" if "node_at c' = (node_at c)(i := Some ?node)" "payload_at c i = None"
    "c_front c' = c_front c" "c_back c' = c_back c" for c' i
  proof -
    note seg_update_outside[OF payload_None_not_linked[OF inv that(2)] that(1)]
    then show ?thesis using inv that(3,4)
      by (simp add: cache_inv_def linked_def)
  qed
  have payload: "payload_at c' = (payload_at c)(i := Some (k, v))"
    if "node_at c' = (node_at c)(i := Some ?node)" for c' i
    by (simp add: payload_at_def that fun_eq_iff)
  show ?thesis
  proof (cases "c_free c = []")
    case False
    then obtain fr i where free: "c_free c = fr @ [i]" by (meson rev_exhaust)
    let ?c = "c\<lparr>c_free := butlast (c_free c), c_nodes := (c_nodes c)[i := Some ?node]\<rparr>"
    have i: "i < length (c_nodes c)" "payload_at c i = None" using f(2) free by auto
    have na: "node_at ?c = (node_at c)(i := Some ?node)"
      using node_at_update[OF i(1)] by (simp add: fun_eq_iff node_at_def)
    have "set fr = {j. j < length (c_nodes c) \<and> payload_at c j = None} - {i}" "distinct fr"
      using f free by auto
    then have free': "set (c_free ?c) = {j. j < length (c_nodes ?c) \<and> payload_at ?c j = None}"
        "distinct (c_free ?c)"
      unfolding payload[OF na] by (auto simp: free)
    show ?thesis
      by (rule that[of ?c i, OF _ i(2) linked[OF na i(2)] payload[OF na] _ _ free'(2,1)])
        (use i in \<open>simp_all add: allocate_node_def free\<close>)
  next
    case True
    let ?i = "length (c_nodes c)" and ?c = "c\<lparr>c_nodes := c_nodes c @ [Some ?node]\<rparr>"
    have i: "payload_at c ?i = None" by (simp add: payload_at_def node_at_def idx_def)
    have na: "node_at ?c = (node_at c)(?i := Some ?node)"
      by (auto simp: fun_eq_iff node_at_def idx_def nth_append)
    have none: "{j. j < length (c_nodes c) \<and> payload_at c j = None} = {}" using f(2) True by simp
    have free': "set (c_free ?c) = {j. j < length (c_nodes ?c) \<and> payload_at ?c j = None}"
        "distinct (c_free ?c)"
      unfolding payload[OF na] using none True by (auto simp: less_Suc_eq)
    show ?thesis
      by (rule that[of ?c ?i, OF _ i linked[OF na i] payload[OF na] _ _ free'(2,1)])
        (simp_all add: allocate_node_def True)
  qed
qed

lemma insert_refines:
  assumes inv: "cache_inv c xs" and k: "map_of (c_entries c) k = None"
  obtains c1 i c2 xs' where "allocate_node k v c = Some (c1, i)"
    "push_front i (c1\<lparr>c_entries := AList.update k i (c_entries c1)\<rparr>) = Some c2" "cache_inv c2 xs'"
    "contents c2 xs' = (k, v) # contents c xs" "c_max_entries c2 = c_max_entries c"
proof -
  obtain c1 i where c1: "allocate_node k v c = Some (c1, i)" "payload_at c i = None" "linked c1 xs"
    "payload_at c1 = (payload_at c)(i := Some (k, v))" "c_entries c1 = c_entries c"
    "c_max_entries c1 = c_max_entries c" "distinct (c_free c1)"
    "set (c_free c1) = {j. j < length (c_nodes c1) \<and> payload_at c1 j = None}"
    by (rule allocate_node_refines[OF inv, of k v])
  let ?c = "c1\<lparr>c_entries := AList.update k i (c_entries c1)\<rparr>"
  have i: "i \<notin> set xs" using c1(2) inv payload_None_not_linked by blast
  have "linked ?c xs" using c1(3) by (simp add: linked_def)
  moreover have "\<exists>n. node_at ?c i = Some n"
    using c1(4) by (auto simp: payload_at_def fun_eq_iff split: if_splits)
  ultimately obtain c2 where c2: "push_front i ?c = Some c2" "linked c2 (i # xs)" "same_payloads ?c c2"
    using push_front_linked[OF _ i, of ?c] by blast
  then have f: "payload_at c2 = (payload_at c)(i := Some (k, v))"
      "c_entries c2 = AList.update k i (c_entries c)" "c_free c2 = c_free c1"
      "length (c_nodes c2) = length (c_nodes c1)" "c_max_entries c2 = c_max_entries c"
    using c1 by (simp_all add: same_payloads_def)
  have "map_of (c_entries c2) k' = Some j \<longleftrightarrow> j \<in> set (i # xs) \<and> (\<exists>v. payload_at c2 j = Some (k', v))"
    for k' j
  proof -
    have "map_of (c_entries c) k' = Some j \<longleftrightarrow> j \<in> set xs \<and> (\<exists>v. payload_at c j = Some (k', v))"
      for k' j using inv by (simp add: cache_inv_def)
    from this[of k] this[of k'] show ?thesis
      using k i by (cases "k' = k"; cases "j = i") (auto simp: f update_conv')
  qed
  moreover have "payload_at c2 j \<noteq> None \<longleftrightarrow> j \<in> set (i # xs)" for j
    using inv unfolding f cache_inv_def by auto
  ultimately have "cache_inv c2 (i # xs)"
    using inv c1 c2(2) unfolding cache_inv_def by (simp add: f distinct_update)
  moreover have "contents c2 (i # xs) = (k, v) # contents c xs"
    using i unfolding contents_def f by auto
  ultimately show ?thesis using that[OF c1(1) c2(1)] f by blast
qed

lemma delete_contents:
  assumes "cache_inv c xs" "i \<in> set xs" "payload_at c i = Some (k, v)"
  shows "AList.delete k (contents c xs) = contents c (remove1 i xs)" "map_of (contents c xs) k = Some v"
  using cache_inv_split[OF assms] by metis+

lemma cache_get_refines:
  assumes "cache_rep c al"
  shows "\<exists>c'. cache_get k c = Some (c', snd (lru_get k al)) \<and> cache_rep c' (fst (lru_get k al)) \<and>
           c_max_entries c' = c_max_entries c"
proof -
  obtain xs where inv: "cache_inv c xs" and al: "al = contents c xs" using assms by (auto simp: cache_rep_def)
  show ?thesis
  proof (cases "map_of (c_entries c) k")
    case None
    then show ?thesis using entries_absent[OF inv None] assms al by (simp add: cache_get_def lru_get_def)
  next
    case (Some i)
    obtain v n where i: "i \<in> set xs" "payload_at c i = Some (k, v)" using entries_lookup[OF inv Some] by metis
    obtain c' xs' where c': "move_to_front i c = Some c'" "cache_inv c' xs'" "same_payloads c c'"
        "contents c' xs' = (k, v) # AList.delete k (contents c xs)"
      using move_to_front_refines[OF inv i] by metis
    have "payload_at c' i = Some (k, v)" "c_max_entries c' = c_max_entries c"
      using c'(3) i(2) by (simp_all add: same_payloads_def)
    moreover from this obtain n where "node_at c' i = Some n" "n_value n = v" by (auto simp: payload_at_def)
    ultimately show ?thesis using Some c' delete_contents(2)[OF inv i] unfolding al
      by (auto simp: cache_get_def lru_get_def cache_rep_def)
  qed
qed

lemma cache_get_mut_refines:
  assumes "cache_rep c al"
  shows "\<exists>c'. cache_get_mut k f c = Some (c', map_of al k \<noteq> None) \<and>
           cache_rep c' (case map_of al k of None \<Rightarrow> al | Some v \<Rightarrow> (k, f v) # AList.delete k al) \<and>
           c_max_entries c' = c_max_entries c"
proof -
  obtain xs where inv: "cache_inv c xs" and al: "al = contents c xs" using assms by (auto simp: cache_rep_def)
  show ?thesis
  proof (cases "map_of (c_entries c) k")
    case None
    then show ?thesis using entries_absent[OF inv None] assms al by (simp add: cache_get_mut_def)
  next
    case (Some i)
    obtain v n where i: "i \<in> set xs" "payload_at c i = Some (k, v)" using entries_lookup[OF inv Some] by metis
    obtain c1 where c1: "move_to_front i c = Some c1" "linked c1 (i # remove1 i xs)" "same_payloads c c1"
      using move_to_front_linked[of c xs i] inv i by (auto simp: cache_inv_def)
    have dist: "distinct xs" using inv by (simp add: cache_inv_def linked_def)
    then have "set (i # remove1 i xs) = set xs" using i(1) by (auto simp: set_remove1_eq)
    note inv1 = cache_inv_payloads[OF inv c1(3,2) this]
    have p1: "payload_at c1 i = Some (k, v)" using c1(3) i(2) by (simp add: same_payloads_def)
    then obtain n where n: "node_at c1 i = Some n" "n_key n = k" "n_value n = v" by (auto simp: payload_at_def)
    obtain c2 where c2: "modify_node i (\<lambda>n. n\<lparr>n_value := f (n_value n)\<rparr>) c1 = Some c2"
        "cache_inv c2 (i # remove1 i xs)" "payload_at c2 = (payload_at c1)(i := Some (k, f v))"
        "c_max_entries c2 = c_max_entries c1"
      by (rule modify_value_refines[OF inv1 n(1), of f, unfolded n(2,3)])
    have "i \<notin> set (remove1 i xs)" using dist by simp
    then have "contents c2 (i # remove1 i xs) = (k, f v) # AList.delete k al"
      using delete_contents(1)[OF inv i] c1(3) unfolding al contents_def c2(3)
      by (auto simp: same_payloads_def)
    then have "cache_rep c2 ((k, f v) # AList.delete k al)" using c2(2) by (auto simp: cache_rep_def)
    then show ?thesis using Some c1 c2 delete_contents(2)[OF inv i]
      by (auto simp: cache_get_mut_def al same_payloads_def)
  qed
qed

lemma cache_remove_refines:
  assumes "cache_rep c al"
  shows "\<exists>c'. cache_remove k c = Some c' \<and> cache_rep c' (AList.delete k al) \<and>
           c_max_entries c' = c_max_entries c"
proof -
  obtain xs where inv: "cache_inv c xs" and al: "al = contents c xs" using assms by (auto simp: cache_rep_def)
  show ?thesis
  proof (cases "map_of (c_entries c) k")
    case None
    then show ?thesis using entries_absent[OF inv None] assms al by (simp add: cache_remove_def)
  next
    case (Some i)
    obtain v n where i: "i \<in> set xs" "payload_at c i = Some (k, v)" using entries_lookup[OF inv Some] by metis
    obtain c' where "remove_index i c = Some c'" "cache_inv c' (remove1 i xs)"
        "contents c' (remove1 i xs) = AList.delete k (contents c xs)" "c_max_entries c' = c_max_entries c"
      by (rule remove_index_refines[OF inv i])
    then show ?thesis using Some unfolding al by (auto simp: cache_remove_def cache_rep_def)
  qed
qed

lemma remove_oldest_refines:
  assumes "cache_rep c al"
  shows "\<exists>c'. remove_oldest c = Some c' \<and> cache_rep c' (butlast al) \<and> c_max_entries c' = c_max_entries c"
proof -
  obtain xs where inv: "cache_inv c xs" and al: "al = contents c xs" using assms by (auto simp: cache_rep_def)
  have bk: "c_back c = last_opt xs" using inv by (simp add: cache_inv_def linked_def)
  show ?thesis
  proof (cases xs rule: rev_cases)
    case Nil
    then show ?thesis using assms bk al by (simp add: remove_oldest_def)
  next
    case (snoc ys i)
    then have i: "i \<in> set xs" "remove1 i xs = ys"
      using inv by (auto simp: cache_inv_def linked_def remove1_append)
    obtain k v where kv: "payload_at c i = Some (k, v)" using cache_inv_payload[OF inv i(1)] by blast
    obtain c' where "remove_index i c = Some c'" "cache_inv c' (remove1 i xs)"
        "contents c' (remove1 i xs) = AList.delete k (contents c xs)" "c_max_entries c' = c_max_entries c"
      by (rule remove_index_refines[OF inv i(1) kv])
    moreover have "AList.delete k (contents c xs) = butlast al"
      using delete_contents(1)[OF inv i(1) kv] i(2) snoc al by simp
    ultimately show ?thesis using snoc bk by (auto simp: remove_oldest_def cache_rep_def)
  qed
qed

lemma cache_add_refines:
  assumes "cache_rep c al"
  shows "\<exists>c'. cache_add k v c = Some c' \<and> cache_rep c' (lru_add (c_max_entries c) k v al) \<and>
           c_max_entries c' = c_max_entries c"
proof -
  obtain xs where inv: "cache_inv c xs" and al: "al = contents c xs" using assms by (auto simp: cache_rep_def)
  show ?thesis
  proof (cases "map_of (c_entries c) k")
    case (Some i)
    obtain v0 n where i: "i \<in> set xs" "payload_at c i = Some (k, v0)" "node_at c i = Some n" "n_key n = k"
      using entries_lookup[OF inv Some] by metis
    obtain c1 where c1: "modify_node i (\<lambda>n. n\<lparr>n_value := v\<rparr>) c = Some c1" "cache_inv c1 xs"
        "payload_at c1 = (payload_at c)(i := Some (k, v))" "c_max_entries c1 = c_max_entries c"
      by (rule modify_value_refines[OF inv i(3), of "\<lambda>_. v", unfolded i(4)])
    have p1: "payload_at c1 i = Some (k, v)" using c1(3) by simp
    obtain c2 xs' where c2: "move_to_front i c1 = Some c2" "cache_inv c2 xs'" "same_payloads c1 c2"
        "contents c2 xs' = (k, v) # AList.delete k (contents c1 xs)"
      using move_to_front_refines[OF c1(2) i(1) p1] by metis
    have "i \<notin> set (remove1 i xs)" using inv by (auto simp: cache_inv_def linked_def)
    then have "contents c1 (remove1 i xs) = contents c (remove1 i xs)"
      unfolding contents_def c1(3) by auto
    then have "AList.delete k (contents c1 xs) = AList.delete k al"
      using delete_contents(1)[OF c1(2) i(1) p1] delete_contents(1)[OF inv i(1,2)] al by simp
    moreover have "map_of al k \<noteq> None" using delete_contents(2)[OF inv i(1,2)] al by simp
    ultimately have "contents c2 xs' = lru_add (c_max_entries c) k v al"
      using c2(4) by (auto simp: lru_add_def Let_def)
    then have "cache_rep c2 (lru_add (c_max_entries c) k v al)" using c2(2) by (auto simp: cache_rep_def)
    then show ?thesis using Some c1 c2 by (auto simp: cache_add_def same_payloads_def)
  next
    case None
    obtain c1 i c2 xs' where c2: "allocate_node k v c = Some (c1, i)"
        "push_front i (c1\<lparr>c_entries := AList.update k i (c_entries c1)\<rparr>) = Some c2" "cache_inv c2 xs'"
        "contents c2 xs' = (k, v) # contents c xs" "c_max_entries c2 = c_max_entries c"
      by (rule insert_refines[OF inv None])
    have abs: "lru_add (c_max_entries c) k v al =
        (if c_max_entries c2 \<noteq> 0 \<and> c_max_entries c2 < cache_len c2 then butlast (contents c2 xs')
         else contents c2 xs')"
      using entries_absent[OF inv None] cache_len_contents[OF c2(3)] c2(4,5) al
      by (simp add: lru_add_def Let_def del: butlast.simps)
    have rep: "cache_rep c2 (contents c2 xs')" using c2(3) by (auto simp: cache_rep_def)
    show ?thesis using None c2 remove_oldest_refines[OF rep] rep
      by (auto simp: cache_add_def abs simp del: contents_simps)
  qed
qed

lemma cache_rep_distinct:
  assumes "cache_rep c al" shows "distinct (map fst al)"
proof -
  obtain xs where inv: "cache_inv c xs" and al: "al = contents c xs" using assms by (auto simp: cache_rep_def)
  then show ?thesis using inv cache_inv_inj[OF inv]
    by (simp add: al contents_def cache_inv_def linked_def distinct_map comp_def)
qed

lemma cache_rep_len: "cache_rep c al \<Longrightarrow> cache_len c = length al"
  by (auto simp: cache_rep_def cache_len_contents)

lemma cache_rep_default: "cache_rep (cache_default\<lparr>c_max_entries := m\<rparr>) []"
proof -
  have "cache_inv (cache_default\<lparr>c_max_entries := m\<rparr>) []"
    by (simp add: cache_inv_def linked_def cache_default_def payload_at_def node_at_def idx_def)
  then show ?thesis by (force simp: cache_rep_def)
qed

subsection \<open>The interface of an LRU cache\<close>

lemma delete_length: "distinct (map fst al) \<Longrightarrow>
  length (AList.delete k al) = (if map_of al k = None then length al else length al - 1)"
proof (induction al)
  case (Cons a al)
  show ?case
  proof (cases "fst a = k")
    case True
    then have "k \<notin> fst ` set al" using Cons.prems by auto
    then show ?thesis using True by (cases a) (simp add: AList.delete_id)
  next
    case False
    moreover have "0 < length al" if "map_of al k \<noteq> None" using that by (cases al) auto
    ultimately show ?thesis using Cons by (cases a) auto
  qed
qed simp

lemma lru_add_length:
  assumes "distinct (map fst al)" "m \<noteq> 0" "length al \<le> m"
  shows "length (lru_add m k v al) \<le> m"
  using assms delete_length[OF assms(1), of k] by (auto simp: lru_add_def Let_def)

lemma lru_add_lookup: "map_of (lru_add m k v al) k = Some v"
  by (auto simp: lru_add_def Let_def)

lemma lru_add_other:
  assumes "k' \<noteq> k" "m = 0 \<or> length al < m"
  shows "map_of (lru_add m k v al) k' = map_of al k'"
proof -
  have "length (AList.delete k al) \<le> length al" by (rule AList.length_delete_le)
  then show ?thesis using assms by (auto simp: lru_add_def Let_def AList.delete_conv')
qed

locale lru_interface =
  fixes rep :: "'c \<Rightarrow> ('k \<times> 'v) list \<Rightarrow> bool"
    and cap :: "'c \<Rightarrow> nat"
    and len :: "'c \<Rightarrow> nat"
    and add :: "'k \<Rightarrow> 'v \<Rightarrow> 'c \<Rightarrow> 'c option"
    and get :: "'k \<Rightarrow> 'c \<Rightarrow> ('c \<times> 'v option) option"
  assumes rep_distinct: "rep c al \<Longrightarrow> distinct (map fst al)"
    and rep_len: "rep c al \<Longrightarrow> len c = length al"
    and rep_add: "rep c al \<Longrightarrow> \<exists>c'. add k v c = Some c' \<and> rep c' (lru_add (cap c) k v al) \<and> cap c' = cap c"
    and rep_get: "rep c al \<Longrightarrow> \<exists>c'. get k c = Some (c', snd (lru_get k al)) \<and> rep c' (fst (lru_get k al)) \<and>
      cap c' = cap c"
begin

definition bounded :: "'c \<Rightarrow> bool" where
  "bounded c \<longleftrightarrow> (\<exists>al. rep c al \<and> length al \<le> cap c) \<and> cap c \<noteq> 0"

lemma bounded_len: "bounded c \<Longrightarrow> len c \<le> cap c"
  by (auto simp: bounded_def rep_len)

lemma get_member:
  assumes "rep c al"
  shows "\<exists>c' r. get k c = Some (c', r) \<and> rep c' (fst (lru_get k al)) \<and> cap c' = cap c \<and>
    r = map_of al k \<and> map_of (fst (lru_get k al)) = map_of al \<and> length (fst (lru_get k al)) = length al"
proof -
  have "length (fst (lru_get k al)) = length al"
    using delete_length[OF rep_distinct[OF assms], of k]
    by (cases "map_of al k"; cases al) (auto simp: lru_get_def)
  moreover have "map_of (fst (lru_get k al)) = map_of al" "snd (lru_get k al) = map_of al k"
    by (auto simp: lru_get_def AList.delete_conv' split: option.splits)
  ultimately show ?thesis using rep_get[OF assms, of k] by auto
qed

lemma add_bounded:
  assumes "bounded c"
  shows "\<exists>c'. add k v c = Some c' \<and> bounded c' \<and> cap c' = cap c"
proof -
  obtain al where al: "rep c al" "length al \<le> cap c" "cap c \<noteq> 0" using assms by (auto simp: bounded_def)
  then show ?thesis
    using rep_add[OF al(1), of k v] lru_add_length[OF rep_distinct[OF al(1)] al(3,2), of k v]
    by (auto simp: bounded_def)
qed

lemma get_bounded:
  assumes "bounded c"
  shows "\<exists>c' r. get k c = Some (c', r) \<and> bounded c' \<and> cap c' = cap c"
proof -
  obtain al where al: "rep c al" "length al \<le> cap c" "cap c \<noteq> 0" using assms by (auto simp: bounded_def)
  then show ?thesis using get_member[OF al(1), of k] unfolding bounded_def by metis
qed

end

interpretation flow_cache: lru_interface cache_rep c_max_entries cache_len cache_add cache_get
  by unfold_locales
    (auto simp: cache_rep_len cache_rep_distinct intro: cache_add_refines cache_get_refines)

subsection \<open>Properties\<close>

datatype 'v cache_op =
  Op_Add tuple 'v | Op_Get tuple | Op_Get_Mut tuple "'v \<Rightarrow> 'v" | Op_Remove tuple | Op_Remove_Oldest

fun cache_step :: "'v cache_op \<Rightarrow> 'v cache \<Rightarrow> ('v cache \<times> 'v option) option" where
  "cache_step (Op_Add k v) c = map_option (\<lambda>c. (c, None)) (cache_add k v c)"
| "cache_step (Op_Get k) c = cache_get k c"
| "cache_step (Op_Get_Mut k f) c = map_option (\<lambda>(c, _). (c, None)) (cache_get_mut k f c)"
| "cache_step (Op_Remove k) c = map_option (\<lambda>c. (c, None)) (cache_remove k c)"
| "cache_step Op_Remove_Oldest c = map_option (\<lambda>c. (c, None)) (remove_oldest c)"

fun lru_step :: "nat \<Rightarrow> 'v cache_op \<Rightarrow> (tuple \<times> 'v) list \<Rightarrow> (tuple \<times> 'v) list \<times> 'v option" where
  "lru_step m (Op_Add k v) al = (lru_add m k v al, None)"
| "lru_step m (Op_Get k) al = lru_get k al"
| "lru_step m (Op_Get_Mut k f) al =
     ((case map_of al k of None \<Rightarrow> al | Some v \<Rightarrow> (k, f v) # AList.delete k al), None)"
| "lru_step m (Op_Remove k) al = (AList.delete k al, None)"
| "lru_step m Op_Remove_Oldest al = (butlast al, None)"

fun cache_run :: "'v cache_op list \<Rightarrow> 'v cache \<Rightarrow> ('v cache \<times> 'v option list) option" where
  "cache_run [] c = Some (c, [])"
| "cache_run (op # ops) c = do {
     (c, out) \<leftarrow> cache_step op c;
     (c, outs) \<leftarrow> cache_run ops c;
     Some (c, out # outs)
   }"

fun lru_run :: "nat \<Rightarrow> 'v cache_op list \<Rightarrow> (tuple \<times> 'v) list \<Rightarrow> (tuple \<times> 'v) list \<times> 'v option list" where
  "lru_run m [] al = (al, [])"
| "lru_run m (op # ops) al =
     (let (al, out) = lru_step m op al; (al, outs) = lru_run m ops al in (al, out # outs))"

lemma cache_step_refines:
  assumes "cache_rep c al"
  shows "\<exists>c'. cache_step op c = Some (c', snd (lru_step (c_max_entries c) op al)) \<and>
    cache_rep c' (fst (lru_step (c_max_entries c) op al)) \<and> c_max_entries c' = c_max_entries c"
  using cache_add_refines[OF assms] cache_get_refines[OF assms] cache_get_mut_refines[OF assms]
    cache_remove_refines[OF assms] remove_oldest_refines[OF assms]
  by (cases op) fastforce+

lemma cache_run_refines:
  "cache_rep c al \<Longrightarrow> \<exists>c'. cache_run ops c = Some (c', snd (lru_run (c_max_entries c) ops al)) \<and>
     cache_rep c' (fst (lru_run (c_max_entries c) ops al)) \<and> c_max_entries c' = c_max_entries c"
proof (induction ops arbitrary: c al)
  case (Cons op ops)
  obtain c1 where c1: "cache_step op c = Some (c1, snd (lru_step (c_max_entries c) op al))"
      "cache_rep c1 (fst (lru_step (c_max_entries c) op al))" "c_max_entries c1 = c_max_entries c"
    using cache_step_refines[OF Cons.prems] by blast
  from Cons.IH[OF c1(2)] show ?case using c1 by (auto simp: case_prod_beta Let_def)
qed simp

text \<open>C3. The flow cache is an LRU cache: starting from an empty cache with capacity \<open>m\<close>, no sequence
  of \<open>add\<close>, \<open>get\<close>, \<open>get_mut\<close>, \<open>remove\<close> and \<open>remove_oldest\<close> hits an invalid node index, and every
  result, and the number of entries, is that of the list of key-value pairs ordered by last use
  from which \<open>add\<close> drops the oldest pair when a new key exceeds the capacity.\<close>

theorem cache_refines_lru_list:
  "\<exists>c. cache_run ops (cache_default\<lparr>c_max_entries := m\<rparr>) = Some (c, snd (lru_run m ops [])) \<and>
     cache_len c = length (fst (lru_run m ops [])) \<and>
     cache_rep c (fst (lru_run m ops []))"
  using cache_run_refines[OF cache_rep_default[of m], of ops] cache_rep_len by fastforce

fun canonical_addr :: "ipaddr \<Rightarrow> ipaddr" where
  "canonical_addr (V4 a) = V4 a"
| "canonical_addr (V6 a) = (case to_ipv4_mapped a of Some b \<Rightarrow> V4 b | None \<Rightarrow> V6 a)"

lemma unmapped_mapped: "unmapped_addr (mapped_octets a) = canonical_addr a"
  by (cases a) (simp_all add: unmapped_addr_def Let_def from_to_be_bytes del: to_be_bytes_mapped)

lemma mapped_octets_canonical: "mapped_octets (canonical_addr a) = mapped_octets a"
  by (cases a) (auto split: option.splits dest: to_ipv4_mapped_Some)

lemma mapped_octets_eq_iff: "mapped_octets a = mapped_octets b \<longleftrightarrow> canonical_addr a = canonical_addr b"
  by (metis unmapped_mapped mapped_octets_canonical)

text \<open>C25. Flow tuples identify flows: the address accessors of a tuple return the addresses it was
  built from, with IPv4-mapped IPv6 addresses as IPv4, and two tuples are equal exactly if they
  have the same protocol, ports and addresses up to that mapping.\<close>

theorem tuple_new_identifies_flow:
  "src_addr (tuple_new p s d) = canonical_addr (fst s) \<and> dst_addr (tuple_new p s d) = canonical_addr (fst d) \<and>
   (tuple_new p s d = tuple_new p' s' d' \<longleftrightarrow>
      p = p' \<and> snd s = snd s' \<and> snd d = snd d' \<and>
      canonical_addr (fst s) = canonical_addr (fst s') \<and> canonical_addr (fst d) = canonical_addr (fst d'))"
  by (auto simp: src_addr_def dst_addr_def tuple_new_def unmapped_mapped mapped_octets_eq_iff)

end
