(* ===== verification/Art_Prefix.thy ===== *)
theory Art_Prefix
  imports Prefix_Spec "HOL-Library.List_Lexorder" "HOL-Library.Product_Lexorder"
begin

text \<open>
  The prefix type of the routing table (\<open>crates/art/src/lib.rs\<close>): masking, containment, the
  number of common leading bits, and the split point of two prefixes.  The lemmas describe each
  operation by the leading bits of the address, \<open>pbits\<close>.  Lengths are \<open>u8\<close> values of at most 128,
  kept as natural numbers; the array of 16 octets is a list of length 16.
\<close>

datatype art_prefix = Art_Prefix (a_addr: ipaddr) (a_bits: nat)

definition bit_len :: "ipaddr \<Rightarrow> nat" where
  "bit_len addr = (if is_ipv6 addr then 128 else 32)"

definition prefix_new :: "ipaddr \<Rightarrow> nat \<Rightarrow> art_prefix option" where
  "prefix_new addr bits = (if bits \<le> bit_len addr then Some (Art_Prefix addr bits) else None)"

definition prefix_is_ipv6 :: "art_prefix \<Rightarrow> bool" where
  "prefix_is_ipv6 p = is_ipv6 (a_addr p)"

definition prefix_octets :: "art_prefix \<Rightarrow> bytes" where
  "prefix_octets p =
     (case a_addr p of V4 a \<Rightarrow> octets (V4 a) @ replicate 12 0 | V6 a \<Rightarrow> octets (V6 a))"

text \<open>
  The octets are 16 bytes.  Indexing is a total function here: the callers pass the byte that holds a bit
  below the length of the prefix, which is in range (\<open>byte_index_in_range\<close>, \<open>final_byte_in_range\<close>; for
  \<open>compute_prefix_split\<close>, \<open>compute_prefix_split_spec\<close>).
\<close>

definition byte_at :: "art_prefix \<Rightarrow> nat \<Rightarrow> u8" where
  "byte_at p i = prefix_octets p ! i"

definition from_octets :: "bytes \<Rightarrow> bool \<Rightarrow> nat \<Rightarrow> art_prefix" where
  "from_octets os v6 bits =
     Art_Prefix (if v6 then V6 (from_be_bytes os) else V4 (from_be_bytes (take 4 os))) bits"

text \<open>\<open>os[i..j].fill(0)\<close>.\<close>

definition fill_zero :: "bytes \<Rightarrow> nat \<Rightarrow> nat \<Rightarrow> bytes" where
  "fill_zero os i j = take i os @ replicate (j - i) 0 @ drop j os"

definition masked :: "art_prefix \<Rightarrow> art_prefix" where
  "masked p =
     (let os = prefix_octets p;
          byte_len = bit_len (a_addr p) div 8;
          full_bytes = a_bits p div 8;
          partial_bits = a_bits p mod 8;
          os = (if full_bytes < byte_len then
                  if partial_bits \<noteq> 0 then
                    fill_zero (os[full_bytes := os ! full_bytes AND push_bit (8 - partial_bits) 0xff])
                      (full_bytes + 1) byte_len
                  else fill_zero os full_bytes byte_len
                else os)
      in from_octets os (prefix_is_ipv6 p) (a_bits p))"

text \<open>The loop of \<open>common_bits\<close> over the first bytes of both arrays.\<close>

fun shared_bits :: "(u8 \<times> u8) list \<Rightarrow> nat" where
  "shared_bits [] = 0"
| "shared_bits ((x, y) # r) =
     (let different = x XOR y
      in if different = 0 then 8 + shared_bits r else leading_zeros different)"

definition common_bits :: "art_prefix \<Rightarrow> art_prefix \<Rightarrow> nat \<Rightarrow> nat" where
  "common_bits a b max_bits =
     (let n = (max_bits + 7) div 8
      in min (shared_bits (zip (take n (prefix_octets a)) (take n (prefix_octets b)))) max_bits)"

definition art_contains :: "art_prefix \<Rightarrow> ipaddr \<Rightarrow> bool" where
  "art_contains p addr =
     (if prefix_is_ipv6 p \<noteq> is_ipv6 addr then False
      else common_bits (masked p) (Art_Prefix addr (bit_len addr)) (a_bits p) = a_bits p)"

text \<open>\<open>octets()[index]\<close>, which panics out of range.\<close>

definition addr_byte_at :: "ipaddr \<Rightarrow> nat \<Rightarrow> u8 option" where
  "addr_byte_at addr i = (case addr of V4 a \<Rightarrow> idx (octets (V4 a)) i | V6 a \<Rightarrow> idx (octets (V6 a)) i)"

definition prefix_at_byte_boundary :: "art_prefix \<Rightarrow> nat \<Rightarrow> art_prefix" where
  "prefix_at_byte_boundary p bits =
     masked (from_octets (prefix_octets (masked p)) (prefix_is_ipv6 p) bits)"

definition prefix_strictly_contains :: "art_prefix \<Rightarrow> art_prefix \<Rightarrow> bool" where
  "prefix_strictly_contains parent child =
     (a_bits parent < a_bits child \<and> art_contains parent (a_addr child))"

definition compute_prefix_split :: "art_prefix \<Rightarrow> art_prefix \<Rightarrow> art_prefix \<times> u8 \<times> u8" where
  "compute_prefix_split a b =
     (let a = masked a; b = masked b;
          min_bits = min (a_bits a) (a_bits b);
          shared = common_bits a b min_bits;
          shared = (if shared = min_bits then shared - 1 else shared);
          common_strides = shared div 8
      in (prefix_at_byte_boundary a (common_strides * 8), byte_at a common_strides,
          byte_at b common_strides))"

text \<open>\<open>IpPrefix::from_str\<close>; \<open>None\<close> is its only error.\<close>

definition prefix_from_str :: "string \<Rightarrow> art_prefix option" where
  "prefix_from_str value =
     (case split_once (CHR ''/'') value of
        None \<Rightarrow> None
      | Some (addr, bits) \<Rightarrow>
          (case parse_ip addr of
             None \<Rightarrow> None
           | Some a \<Rightarrow> (case parse_u8 bits of None \<Rightarrow> None | Some b \<Rightarrow> prefix_new a b)))"

subsection \<open>Common prefixes of lists\<close>

fun lcp_len :: "'a list \<Rightarrow> 'a list \<Rightarrow> nat" where
  "lcp_len (x # xs) (y # ys) = (if x = y then Suc (lcp_len xs ys) else 0)"
| "lcp_len _ _ = 0"

lemma lcp_len_le: "lcp_len xs ys \<le> length xs" "lcp_len xs ys \<le> length ys"
  by (induction xs ys rule: lcp_len.induct) auto

lemma take_eq_iff_lcp_len:
  "n \<le> length xs \<Longrightarrow> n \<le> length ys \<Longrightarrow> take n xs = take n ys \<longleftrightarrow> n \<le> lcp_len xs ys"
proof (induction xs ys arbitrary: n rule: lcp_len.induct)
  case (1 x xs y ys)
  then show ?case by (cases n) auto
qed auto

lemma lcp_len_append:
  "length xs = length ys \<Longrightarrow> lcp_len (xs @ us) (ys @ vs) = (if xs = ys then length xs + lcp_len us vs else lcp_len xs ys)"
  by (induction xs ys rule: list_induct2) auto

lemma takeWhile_diff: "length xs = length ys \<Longrightarrow> length (takeWhile Not (map2 (\<noteq>) xs ys)) = lcp_len xs ys"
  by (induction xs ys rule: list_induct2) auto

lemma wbits_xor: "wbits (x XOR y) = map2 (\<noteq>) (wbits x) (wbits y)"
  by (rule nth_equalityI) (simp_all add: bit_xor_iff)

lemma leading_zeros_xor: "leading_zeros (x XOR y) = lcp_len (wbits x) (wbits y)"
  unfolding leading_zeros_def wbits_xor by (rule takeWhile_diff) simp

lemma word_xor_eq_0: "x XOR y = 0 \<longleftrightarrow> x = (y :: 'a::len word)"
  by (simp add: bit_eq_iff bit_xor_iff)

lemma shared_bits_lcp:
  "length xs = length ys \<Longrightarrow>
   shared_bits (zip xs ys) = lcp_len (concat (map wbits xs)) (concat (map wbits ys))"
  by (induction xs ys rule: list_induct2) (auto simp: lcp_len_append leading_zeros_xor word_xor_eq_0 Let_def)

subsection \<open>Prefixes by their leading bits\<close>

definition pbits :: "art_prefix \<Rightarrow> bool list" where
  "pbits p = take (a_bits p) (addr_bits (a_addr p))"

definition prefix_wf :: "art_prefix \<Rightarrow> bool" where
  "prefix_wf p \<longleftrightarrow> a_bits p \<le> addr_len (a_addr p)"

lemma bit_len_addr_len: "bit_len a = addr_len a"
  by (simp add: bit_len_def addr_len_def is_ipv6_def)

lemma length_pbits [simp]: "prefix_wf p \<Longrightarrow> length (pbits p) = a_bits p"
  by (simp add: pbits_def prefix_wf_def)

lemma length_prefix_octets [simp]: "length (prefix_octets p) = 16"
  by (simp add: prefix_octets_def addr_len_def split: ipaddr.split)

lemma concat_replicate_replicate: "concat (replicate n (replicate m x)) = replicate (m * n) x"
  by (induction n) (simp_all add: replicate_add)

lemma concat_prefix_octets:
  "concat (map wbits (prefix_octets p)) =
     addr_bits (a_addr p) @ replicate (128 - addr_len (a_addr p)) False"
  by (cases "a_addr p")
    (simp_all add: prefix_octets_def addr_len_def concat_wbits_to_be_bytes wbits_zero
      concat_replicate_replicate)

lemma take_bytes: "take (8 * n) (concat (map wbits bs)) = concat (map wbits (take n (bs :: bytes)))"
  by (rule take_concat_const) simp

lemma drop_bytes: "drop (8 * n) (concat (map wbits bs)) = concat (map wbits (drop n (bs :: bytes)))"
  by (rule drop_concat_const) simp

lemma byte_at_bits:
  "8 * k + 8 \<le> addr_len (a_addr p) \<Longrightarrow> wbits (byte_at p k) = take 8 (drop (8 * k) (addr_bits (a_addr p)))"
proof -
  assume k: "8 * k + 8 \<le> addr_len (a_addr p)"
  have "k < 16" using k by (cases "a_addr p") (simp_all add: addr_len_def)
  then have "take 1 (drop k (prefix_octets p)) = [byte_at p k]"
    by (simp add: byte_at_def take_Suc hd_drop_conv_nth)
  moreover have "take 8 (drop (8 * k) (concat (map wbits (prefix_octets p)))) =
      concat (map wbits (take 1 (drop k (prefix_octets p))))"
    using take_bytes[of 1 "drop k (prefix_octets p)"] by (simp add: drop_bytes)
  ultimately show ?thesis using k by (simp add: concat_prefix_octets)
qed

lemma addr_byte_at_prefix:
  "8 * k + 8 \<le> addr_len a \<Longrightarrow> addr_byte_at a k = Some (byte_at (Art_Prefix a n) k)"
  by (cases a) (simp_all add: addr_byte_at_def byte_at_def prefix_octets_def addr_len_def nth_append)

lemma from_octets_bits:
  assumes "length os = 16"
  shows "addr_bits (a_addr (from_octets os v6 n)) = take (if v6 then 128 else 32) (concat (map wbits os))"
    "is_ipv4 (a_addr (from_octets os v6 n)) = (\<not> v6)" "a_bits (from_octets os v6 n) = n"
proof -
  have "take 32 (concat (map wbits os)) = concat (map wbits (take 4 os))"
    using take_bytes[of 4 os] by simp
  moreover have "length (concat (map wbits os)) = 128"
    using length_concat_const[of os wbits 8] assms by simp
  ultimately show "addr_bits (a_addr (from_octets os v6 n)) = take (if v6 then 128 else 32) (concat (map wbits os))"
    using assms by (simp add: from_octets_def wbits_from_be_bytes)
qed (simp_all add: from_octets_def)

lemma common_bits_lcp:
  assumes "m \<le> addr_len (a_addr a)" "m \<le> addr_len (a_addr b)"
  shows "common_bits a b m = min m (lcp_len (addr_bits (a_addr a)) (addr_bits (a_addr b)))"
proof (rule antisym)
  let ?n = "(m + 7) div 8" and ?A = "addr_bits (a_addr a)" and ?B = "addr_bits (a_addr b)"
  let ?s = "shared_bits (zip (take ?n (prefix_octets a)) (take ?n (prefix_octets b)))"
  let ?oa = "concat (map wbits (take ?n (prefix_octets a)))"
    and ?ob = "concat (map wbits (take ?n (prefix_octets b)))"
  have s: "?s = lcp_len ?oa ?ob" by (rule shared_bits_lcp) simp
  have n: "m \<le> 8 * ?n" "?n \<le> 16" using assms by (auto simp: addr_len_def split: if_splits)
  have len: "length ?oa = 8 * ?n" "length ?ob = 8 * ?n"
    using n by (simp_all add: length_concat_const[of _ wbits 8])
  have t: "take k ?oa = take k ?A" "take k ?ob = take k ?B" if "k \<le> m" for k
  proof -
    have "take k ?oa = take k (take (8 * ?n) (concat (map wbits (prefix_octets a))))"
      by (simp only: take_bytes)
    then show "take k ?oa = take k ?A" using that n assms by (simp add: concat_prefix_octets min_absorb1)
    have "take k ?ob = take k (take (8 * ?n) (concat (map wbits (prefix_octets b))))"
      by (simp only: take_bytes)
    then show "take k ?ob = take k ?B" using that n assms by (simp add: concat_prefix_octets min_absorb1)
  qed
  have iff: "k \<le> lcp_len ?oa ?ob \<longleftrightarrow> k \<le> lcp_len ?A ?B" if "k \<le> m" for k
    using that t[OF that] len n assms take_eq_iff_lcp_len[of k ?oa ?ob] take_eq_iff_lcp_len[of k ?A ?B] by simp
  show "common_bits a b m \<le> min m (lcp_len ?A ?B)"
    using iff[of "min ?s m"] by (simp add: common_bits_def s Let_def)
  show "min m (lcp_len ?A ?B) \<le> common_bits a b m"
    using iff[of "min m (lcp_len ?A ?B)"] by (simp add: common_bits_def s Let_def)
qed

text \<open>Masking keeps the leading bits and clears the rest.\<close>

lemma concat_fill_zero:
  fixes os :: bytes
  assumes "i \<le> j" "j \<le> length os"
  shows "concat (map wbits (fill_zero os i j)) =
    take (8 * i) (concat (map wbits os)) @ replicate (8 * (j - i)) False @ drop (8 * j) (concat (map wbits os))"
  using assms
  by (simp add: fill_zero_def take_bytes drop_bytes wbits_zero concat_replicate_replicate)

lemma concat_mask_byte:
  fixes os :: bytes
  assumes "i < length os" "0 < r" "r < 8"
  shows "take (8 * (i + 1)) (concat (map wbits (os[i := os ! i AND push_bit (8 - r) 0xff]))) =
    take (8 * i + r) (concat (map wbits os)) @ replicate (8 - r) False"
proof -
  have "wbits (os ! i AND push_bit (8 - r) (- 1 :: u8)) = take r (wbits (os ! i)) @ replicate (8 - r) False"
    using wbits_high_mask[of r "os ! i"] assms by simp
  moreover have "take (i + 1) (os[i := x]) = take i os @ [x]" for x
    using assms by (simp add: take_Suc_conv_app_nth)
  ultimately show ?thesis
    using assms take_concat_bytes[of i os r] by (simp only: take_bytes u8_max) simp
qed

lemma masked_bits:
  assumes "prefix_wf p"
  shows "addr_bits (a_addr (masked p)) = pbits p @ replicate (addr_len (a_addr p) - a_bits p) False"
proof -
  let ?L = "addr_len (a_addr p)" and ?n = "a_bits p" and ?O = "concat (map wbits (prefix_octets p))"
  define full part where "full = ?n div 8" and "part = ?n mod 8"
  have n: "?n = 8 * full + part" "part < 8" by (simp_all add: full_def part_def)
  have L: "8 * (?L div 8) = ?L" "?L \<le> 128" by (simp_all add: addr_len_def)
  have nL: "?n \<le> ?L" using assms by (simp add: prefix_wf_def)
  define os where "os = (if full < ?L div 8 then
      if part \<noteq> 0 then fill_zero ((prefix_octets p)[full := prefix_octets p ! full AND push_bit (8 - part) 0xff])
        (full + 1) (?L div 8)
      else fill_zero (prefix_octets p) full (?L div 8)
    else prefix_octets p)"
  have m: "masked p = from_octets os (prefix_is_ipv6 p) ?n"
    by (simp add: masked_def Let_def os_def bit_len_addr_len full_def part_def)
  have "concat (map wbits os) = take ?n ?O @ replicate (?L - ?n) False @ drop ?L ?O \<and> length os = 16"
  proof (cases "full < ?L div 8")
    case True
    then have f: "full < 16" "full + 1 \<le> ?L div 8" "?L div 8 \<le> 16" using L by simp_all
    show ?thesis
    proof (cases "part = 0")
      case True
      then show ?thesis using f n L \<open>full < ?L div 8\<close>
        concat_fill_zero[of full "?L div 8" "prefix_octets p"]
        by (simp add: os_def diff_mult_distrib2 fill_zero_def)
    next
      case False
      let ?os = "(prefix_octets p)[full := prefix_octets p ! full AND push_bit (8 - part) 0xff]"
      have "drop ?L (concat (map wbits ?os)) = drop ?L ?O"
        using f L drop_bytes[of "?L div 8" ?os] drop_bytes[of "?L div 8" "prefix_octets p"]
        by simp
      moreover have "take (8 * (full + 1)) (concat (map wbits ?os)) = take ?n ?O @ replicate (8 - part) False"
        using concat_mask_byte[of full "prefix_octets p" part] f n False by simp
      moreover have "concat (map wbits os) = take (8 * (full + 1)) (concat (map wbits ?os)) @
          replicate (8 * (?L div 8 - (full + 1))) False @ drop (8 * (?L div 8)) (concat (map wbits ?os))"
        using concat_fill_zero[of "full + 1" "?L div 8" ?os] f False \<open>full < ?L div 8\<close>
        by (simp add: os_def)
      ultimately have "concat (map wbits os) = (take ?n ?O @ replicate (8 - part) False) @
          replicate (8 * (?L div 8 - (full + 1))) False @ drop ?L ?O"
        by (simp only: L)
      moreover have "8 - part + 8 * (?L div 8 - (full + 1)) = ?L - ?n"
        using n L f by (simp add: diff_mult_distrib2)
      then have "replicate (?L - ?n) False =
          replicate (8 - part) False @ replicate (8 * (?L div 8 - (full + 1))) False"
        by (simp only: flip: replicate_add)
      ultimately show ?thesis using f False \<open>full < ?L div 8\<close>
        by (simp add: os_def fill_zero_def)
    qed
  next
    case False
    then have "?n = ?L" using n L nL by linarith
    then show ?thesis using False by (simp add: os_def)
  qed
  then have c: "concat (map wbits os) = take ?n ?O @ replicate (?L - ?n) False @ drop ?L ?O" "length os = 16"
    by blast+
  have "take ?n ?O = pbits p" using nL by (simp add: concat_prefix_octets pbits_def)
  moreover have "length (pbits p) = ?n" using assms by simp
  moreover have "(if prefix_is_ipv6 p then 128 else 32) = ?L"
    by (simp add: prefix_is_ipv6_def is_ipv6_def addr_len_def)
  ultimately show ?thesis
    using c from_octets_bits(1)[OF c(2), of "prefix_is_ipv6 p" ?n] nL by (simp add: m)
qed

lemma masked_sel [simp]:
  "a_bits (masked p) = a_bits p" "is_ipv4 (a_addr (masked p)) = is_ipv4 (a_addr p)"
  by (simp_all add: masked_def Let_def from_octets_def prefix_is_ipv6_def is_ipv6_def)

lemma addr_len_masked [simp]: "addr_len (a_addr (masked p)) = addr_len (a_addr p)"
  by (simp add: addr_len_def)

lemma prefix_wf_masked [simp]: "prefix_wf (masked p) = prefix_wf p"
  by (simp add: prefix_wf_def)

lemma pbits_masked [simp]: "prefix_wf p \<Longrightarrow> pbits (masked p) = pbits p"
  using masked_bits[of p] by (simp add: pbits_def[of "masked p"])

lemma masked_eq_iff:
  assumes "prefix_wf p" "prefix_wf q"
  shows "masked p = masked q \<longleftrightarrow> is_ipv4 (a_addr p) = is_ipv4 (a_addr q) \<and> pbits p = pbits q"
proof
  assume eq: "masked p = masked q"
  then have "pbits (masked p) = pbits (masked q)" "is_ipv4 (a_addr (masked p)) = is_ipv4 (a_addr (masked q))"
    by simp_all
  then show "is_ipv4 (a_addr p) = is_ipv4 (a_addr q) \<and> pbits p = pbits q" using assms by simp
next
  assume eq: "is_ipv4 (a_addr p) = is_ipv4 (a_addr q) \<and> pbits p = pbits q"
  then have "a_bits p = a_bits q" using assms by (metis length_pbits)
  moreover have "a_addr (masked p) = a_addr (masked q)"
    unfolding addr_eq_iff using eq masked_bits[OF assms(1)] masked_bits[OF assms(2)] calculation
    by (simp add: addr_len_def)
  ultimately show "masked p = masked q" by (simp add: art_prefix.expand)
qed

lemma masked_masked [simp]: "prefix_wf p \<Longrightarrow> masked (masked p) = masked p"
  by (subst masked_eq_iff) simp_all

lemma addr_bits_eq_of_masked:
  assumes "masked p = p" "prefix_wf p"
  shows "addr_bits (a_addr p) = pbits p @ replicate (addr_len (a_addr p) - a_bits p) False"
  using masked_bits[OF assms(2)] assms(1) by simp

lemma art_contains_iff:
  assumes "prefix_wf p"
  shows "art_contains p ip \<longleftrightarrow> leading_bits_agree (a_addr p) (a_bits p) ip"
proof (cases "is_ipv4 ip = is_ipv4 (a_addr p)")
  case True
  then have len: "a_bits p \<le> addr_len ip" "addr_len ip = addr_len (a_addr p)"
    using assms by (simp_all add: prefix_wf_def addr_len_def)
  have "art_contains p ip \<longleftrightarrow> a_bits p \<le> lcp_len (addr_bits (a_addr (masked p))) (addr_bits ip)"
    using True len assms common_bits_lcp[of "a_bits p" "masked p" "Art_Prefix ip (bit_len ip)"]
    by (auto simp: art_contains_def prefix_is_ipv6_def is_ipv6_def prefix_wf_def)
  also have "\<dots> \<longleftrightarrow> take (a_bits p) (addr_bits (a_addr (masked p))) = take (a_bits p) (addr_bits ip)"
    using len assms by (subst take_eq_iff_lcp_len) (simp_all add: prefix_wf_def)
  also have "take (a_bits p) (addr_bits (a_addr (masked p))) = take (a_bits p) (addr_bits (a_addr p))"
    using pbits_masked[OF assms] by (simp add: pbits_def)
  finally show ?thesis using True by (auto simp: leading_bits_agree_def)
next
  case False
  then show ?thesis by (auto simp: art_contains_def leading_bits_agree_def prefix_is_ipv6_def is_ipv6_def)
qed

interpretation art_prefix: prefix_containment art_contains a_addr a_bits
  by unfold_locales (simp add: art_contains_iff prefix_wf_def)

lemma art_contains_pbits:
  "prefix_wf p \<Longrightarrow> art_contains p ip \<longleftrightarrow>
     is_ipv4 ip = is_ipv4 (a_addr p) \<and> pbits p = take (a_bits p) (addr_bits ip)"
  by (auto simp: art_contains_iff leading_bits_agree_def pbits_def)

lemma prefix_at_byte_boundary_bits:
  assumes "prefix_wf p" "n \<le> a_bits p"
  shows "a_bits (prefix_at_byte_boundary p n) = n"
    "is_ipv4 (a_addr (prefix_at_byte_boundary p n)) = is_ipv4 (a_addr p)"
    "prefix_wf (prefix_at_byte_boundary p n)" "pbits (prefix_at_byte_boundary p n) = take n (pbits p)"
    "masked (prefix_at_byte_boundary p n) = prefix_at_byte_boundary p n"
proof -
  let ?q = "from_octets (prefix_octets (masked p)) (prefix_is_ipv6 p) n"
  have fam: "is_ipv4 (a_addr ?q) = is_ipv4 (a_addr p)" and n: "a_bits ?q = n"
    by (simp_all add: from_octets_def prefix_is_ipv6_def is_ipv6_def)
  then have len: "addr_len (a_addr ?q) = addr_len (a_addr p)" by (simp add: addr_len_def)
  then have wf: "prefix_wf ?q" using assms n by (simp add: prefix_wf_def)
  have "addr_bits (a_addr ?q) = take (addr_len (a_addr p)) (concat (map wbits (prefix_octets (masked p))))"
    using from_octets_bits(1)[of "prefix_octets (masked p)" "prefix_is_ipv6 p" n]
    by (simp add: prefix_is_ipv6_def is_ipv6_def addr_len_def)
  then have "addr_bits (a_addr ?q) = addr_bits (a_addr (masked p))" by (simp add: concat_prefix_octets)
  then have "pbits ?q = take n (pbits p)"
    using assms masked_bits[OF assms(1)] n by (simp add: pbits_def[of ?q])
  then show "a_bits (prefix_at_byte_boundary p n) = n"
    "is_ipv4 (a_addr (prefix_at_byte_boundary p n)) = is_ipv4 (a_addr p)"
    "prefix_wf (prefix_at_byte_boundary p n)" "pbits (prefix_at_byte_boundary p n) = take n (pbits p)"
    "masked (prefix_at_byte_boundary p n) = prefix_at_byte_boundary p n"
    using fam n wf by (simp_all add: prefix_at_byte_boundary_def)
qed

lemma prefix_strictly_contains_iff:
  assumes "prefix_wf p" "prefix_wf q"
  shows "prefix_strictly_contains p q \<longleftrightarrow>
    is_ipv4 (a_addr q) = is_ipv4 (a_addr p) \<and> a_bits p < a_bits q \<and> pbits p = take (a_bits p) (pbits q)"
  using assms by (auto simp: prefix_strictly_contains_def art_contains_pbits pbits_def[of q] min_def)

lemma byte_block_le: "8 dvd L \<Longrightarrow> n < L \<Longrightarrow> 8 * (n div 8) + 8 \<le> (L :: nat)"
  by presburger

lemma byte_at_eq_imp_take_eq:
  assumes "8 * k + 8 \<le> addr_len (a_addr a)" "addr_len (a_addr a) = addr_len (a_addr b)"
    and "take (8 * k) (addr_bits (a_addr a)) = take (8 * k) (addr_bits (a_addr b))" "byte_at a k = byte_at b k"
  shows "take (8 * k + 8) (addr_bits (a_addr a)) = take (8 * k + 8) (addr_bits (a_addr b))"
  using byte_at_bits[of k a] byte_at_bits[of k b] assms by (simp add: take_add)

lemma compute_prefix_split_spec:
  assumes wf: "prefix_wf a" "prefix_wf b" and fam: "is_ipv4 (a_addr a) = is_ipv4 (a_addr b)"
    and masked: "masked a = a" "masked b = b" and pos: "0 < a_bits a" "0 < a_bits b"
    and ncont: "\<not> prefix_strictly_contains a b"
  obtains k where "compute_prefix_split a b = (prefix_at_byte_boundary a (8 * k), byte_at a k, byte_at b k)"
    "8 * k < a_bits a" "8 * k < a_bits b" "take (8 * k) (pbits a) = take (8 * k) (pbits b)"
    "8 < a_bits b - 8 * k \<Longrightarrow> byte_at a k \<noteq> byte_at b k"
    "\<And>j. j < a_bits a \<Longrightarrow> j < a_bits b \<Longrightarrow> take j (pbits a) = take j (pbits b) \<Longrightarrow> j div 8 \<le> k"
proof -
  let ?A = "addr_bits (a_addr a)" and ?B = "addr_bits (a_addr b)" and ?m = "min (a_bits a) (a_bits b)"
  have L: "addr_len (a_addr a) = addr_len (a_addr b)" using fam by (simp add: addr_len_def)
  have m: "?m \<le> addr_len (a_addr a)" "?m \<le> addr_len (a_addr b)" using wf by (auto simp: prefix_wf_def)
  define lcp where "lcp = lcp_len ?A ?B"
  define sh where "sh = (if min ?m lcp = ?m then ?m - 1 else min ?m lcp)"
  define k where "k = sh div 8"
  have cb: "common_bits a b ?m = min ?m lcp" using common_bits_lcp[OF m] by (simp add: lcp_def)
  have sh: "sh < ?m" "sh \<le> lcp" using pos by (auto simp: sh_def split: if_splits)
  then have k: "8 * k \<le> sh" by (simp add: k_def)
  have tk: "take j ?A = take j ?B" if "j \<le> lcp" "j \<le> ?m" for j
    using take_eq_iff_lcp_len[of j ?A ?B] that m by (simp add: lcp_def)
  show ?thesis
  proof (rule that[of k])
    show "compute_prefix_split a b = (prefix_at_byte_boundary a (8 * k), byte_at a k, byte_at b k)"
      by (simp add: compute_prefix_split_def masked cb Let_def k_def sh_def mult.commute)
    show "8 * k < a_bits a" "8 * k < a_bits b" using k sh by simp_all
    show "take (8 * k) (pbits a) = take (8 * k) (pbits b)"
      using tk[of "8 * k"] k sh by (simp add: pbits_def min_absorb1)
    show "j div 8 \<le> k" if j: "j < a_bits a" "j < a_bits b" "take j (pbits a) = take j (pbits b)" for j
    proof -
      have "take j ?A = take j ?B" using j by (simp add: pbits_def min_absorb1)
      then have "j \<le> lcp" using take_eq_iff_lcp_len[of j ?A ?B] j wf by (simp add: lcp_def prefix_wf_def)
      then have "j \<le> sh" using j by (auto simp: sh_def)
      then show ?thesis by (simp add: k_def div_le_mono)
    qed
    assume gt: "8 < a_bits b - 8 * k"
    have "lcp < ?m"
    proof (rule ccontr)
      assume "\<not> lcp < ?m"
      then have s: "sh = ?m - 1" "take ?m ?A = take ?m ?B" using tk[of ?m] by (auto simp: sh_def)
      show False
      proof (cases "a_bits a < a_bits b")
        case True
        with s ncont wf fam show False
          by (simp add: prefix_strictly_contains_iff) (simp add: pbits_def min_def)
      next
        case False
        then have "k = (a_bits b - 1) div 8" using s by (simp add: k_def)
        then show False using gt by linarith
      qed
    qed
    then have kl: "k = lcp div 8" by (auto simp: k_def sh_def min_def)
    show "byte_at a k \<noteq> byte_at b k"
    proof
      assume eq: "byte_at a k = byte_at b k"
      have "lcp < addr_len (a_addr a)" using \<open>lcp < ?m\<close> m(1) by (rule less_le_trans)
      then have "8 * k + 8 \<le> addr_len (a_addr a)"
        unfolding kl by (intro byte_block_le) (simp_all add: addr_len_def)
      from byte_at_eq_imp_take_eq[OF this L _ eq] have "take (8 * k + 8) ?A = take (8 * k + 8) ?B"
        using tk[of "8 * k"] k sh by simp
      then have "8 * k + 8 \<le> lcp"
        using take_eq_iff_lcp_len[of "8 * k + 8" ?A ?B] L \<open>8 * k + 8 \<le> addr_len (a_addr a)\<close>
        by (simp add: lcp_def)
      then show False using kl by linarith
    qed
  qed
qed

subsection \<open>The order of prefixes\<close>

text \<open>\<open>Ord\<close>: the family first, then the octets, then the length.\<close>

definition prefix_key :: "art_prefix \<Rightarrow> bool \<times> bytes \<times> nat" where
  "prefix_key p = (prefix_is_ipv6 p, prefix_octets p, a_bits p)"

lemma to_be_bytes_inject:
  "8 dvd LENGTH('a) \<Longrightarrow> to_be_bytes v = to_be_bytes w \<longleftrightarrow> v = (w :: 'a::len word)"
  by (metis from_to_be_bytes)

lemma prefix_key_inject: "prefix_key p = prefix_key q \<longleftrightarrow> p = q"
proof
  assume "prefix_key p = prefix_key q"
  then show "p = q"
    by (cases p; cases q; cases "a_addr p"; cases "a_addr q")
      (auto simp: prefix_key_def prefix_is_ipv6_def is_ipv6_def prefix_octets_def
        to_be_bytes_inject)
qed simp

instantiation art_prefix :: linorder
begin

definition less_eq_art_prefix :: "art_prefix \<Rightarrow> art_prefix \<Rightarrow> bool" where
  "less_eq_art_prefix p q = (prefix_key p \<le> prefix_key q)"

definition less_art_prefix :: "art_prefix \<Rightarrow> art_prefix \<Rightarrow> bool" where
  "less_art_prefix p q = (prefix_key p < prefix_key q)"

instance
  by standard (auto simp: less_eq_art_prefix_def less_art_prefix_def prefix_key_inject
      simp flip: prefix_key_inject)

end

lemma byte_index_in_range: "prefix_wf p \<Longrightarrow> 8 * k < a_bits p \<Longrightarrow> k < length (prefix_octets p)"
  by (cases "a_addr p") (auto simp: prefix_octets_def prefix_wf_def addr_len_def)

lemma final_byte_in_range: "prefix_wf p \<Longrightarrow> 0 < a_bits p \<Longrightarrow> (a_bits p - 1) div 8 < length (prefix_octets p)"
  by (rule byte_index_in_range) auto

end
