(* ===== verification/Lpm_Spec.thy ===== *)
theory Lpm_Spec
  imports Prelude
begin

text \<open>
  Longest-prefix match on bit lists: the reference definition that the routing table is compared
  with, and the laws of updating one route.
\<close>

function lpm :: "(bool list \<Rightarrow> 'r option) \<Rightarrow> bool list \<Rightarrow> 'r option" where
  "lpm R bs = (case R bs of Some r \<Rightarrow> Some r | None \<Rightarrow> if bs = [] then None else lpm R (butlast bs))"
  by pat_completeness auto
termination by (relation "measure (\<lambda>(_, bs). length bs)") auto

declare lpm.simps [simp del]

lemma lpm_Nil [simp]: "lpm R [] = R []"
  by (subst lpm.simps) (simp split: option.split)

lemma lpm_snoc: "lpm R (bs @ [b]) = (case R (bs @ [b]) of Some r \<Rightarrow> Some r | None \<Rightarrow> lpm R bs)"
  by (subst lpm.simps) (simp split: option.split)

lemma lpm_cong: "(\<And>n. n \<le> length bs \<Longrightarrow> R (take n bs) = R' (take n bs)) \<Longrightarrow> lpm R bs = lpm R' bs"
proof (induction bs rule: rev_induct)
  case Nil
  from Nil[of 0] show ?case by simp
next
  case (snoc b bs)
  have "lpm R bs = lpm R' bs"
  proof (rule snoc.IH)
    fix n assume "n \<le> length bs"
    then show "R (take n bs) = R' (take n bs)" using snoc.prems[of n] by simp
  qed
  then show ?case using snoc.prems[of "Suc (length bs)"] by (simp add: lpm_snoc split: option.split)
qed

lemma lpm_Some_iff:
  "lpm R bs = Some r \<longleftrightarrow>
     (\<exists>n \<le> length bs. R (take n bs) = Some r \<and> (\<forall>m \<le> length bs. n < m \<longrightarrow> R (take m bs) = None))"
proof (induction bs rule: rev_induct)
  case (snoc b bs)
  show ?case
  proof (cases "R (bs @ [b])")
    case None
    then have "lpm R (bs @ [b]) = Some r \<longleftrightarrow> lpm R bs = Some r" by (simp add: lpm_snoc)
    also have "\<dots> \<longleftrightarrow> (\<exists>n \<le> length (bs @ [b]). R (take n (bs @ [b])) = Some r \<and>
        (\<forall>m \<le> length (bs @ [b]). n < m \<longrightarrow> R (take m (bs @ [b])) = None))"
      unfolding snoc using None by (auto simp: le_Suc_eq)
    finally show ?thesis .
  next
    case (Some s)
    then show ?thesis by (auto simp: lpm_snoc le_Suc_eq)
  qed
qed auto

lemma lpm_None_iff: "lpm R bs = None \<longleftrightarrow> (\<forall>n \<le> length bs. R (take n bs) = None)"
proof (induction bs rule: rev_induct)
  case (snoc b bs)
  show ?case
  proof (cases "R (bs @ [b])")
    case None
    then have "lpm R (bs @ [b]) = None \<longleftrightarrow> lpm R bs = None" by (simp add: lpm_snoc)
    then show ?thesis unfolding snoc using None by (auto simp: le_Suc_eq)
  qed (auto simp: lpm_snoc)
qed auto

text \<open>A route strictly below \<open>p\<close> on the way to \<open>p @ q\<close>.\<close>

definition blocked :: "(bool list \<Rightarrow> 'r option) \<Rightarrow> bool list \<Rightarrow> bool list \<Rightarrow> bool" where
  "blocked R p q \<longleftrightarrow> (\<exists>k \<le> length q. 0 < k \<and> R (p @ take k q) \<noteq> None)"

lemma blocked_Nil [simp]: "\<not> blocked R p []"
  by (simp add: blocked_def)

lemma ex_le_Suc: "(\<exists>k \<le> Suc n. P k) \<longleftrightarrow> (\<exists>k \<le> n. P k) \<or> P (Suc n)"
  by (metis le_Suc_eq)

lemma blocked_snoc: "blocked R p (q @ [b]) \<longleftrightarrow> blocked R p q \<or> R (p @ q @ [b]) \<noteq> None"
proof -
  have "(\<exists>k \<le> Suc (length q). 0 < k \<and> R (p @ take k (q @ [b])) \<noteq> None) \<longleftrightarrow>
      (\<exists>k \<le> length q. 0 < k \<and> R (p @ take k (q @ [b])) \<noteq> None) \<or> R (p @ take (Suc (length q)) (q @ [b])) \<noteq> None"
    by (subst ex_le_Suc) simp
  also have "\<dots> \<longleftrightarrow> blocked R p q \<or> R (p @ q @ [b]) \<noteq> None"
    by (simp add: blocked_def cong: conj_cong)
  finally show ?thesis by (simp add: blocked_def)
qed

lemma blocked_update [simp]: "blocked (R(p := x)) p q = blocked R p q"
proof -
  have "p @ take k q \<noteq> p" if "0 < k" "k \<le> length q" for k using that by auto
  then show ?thesis unfolding blocked_def by (metis fun_upd_other)
qed

lemma lpm_unblocked: "\<not> blocked R p q \<Longrightarrow> lpm R (p @ q) = lpm R p"
proof (induction q rule: rev_induct)
  case (snoc b q)
  then have "\<not> blocked R p q" "R (p @ q @ [b]) = None" by (auto simp: blocked_snoc)
  with snoc.IH lpm_snoc[of R "p @ q" b] show ?case by simp
qed simp

lemma lpm_blocked:
  assumes "blocked R p q" shows "lpm (R(p := x)) (p @ q) = lpm R (p @ q)"
proof -
  define R' where "R' = R(p := x)"
  have upd: "R' (p @ c # cs) = R (p @ c # cs)" for c cs by (simp add: R'_def)
  have "blocked R p q \<Longrightarrow> lpm R' (p @ q) = lpm R (p @ q)"
  proof (induction q rule: rev_induct)
    case (snoc b q)
    have "R' (p @ q @ [b]) = R (p @ q @ [b])" using upd by (cases q) simp_all
    then show ?case
      using snoc lpm_snoc[of R "p @ q" b] lpm_snoc[of R' "p @ q" b]
      by (cases "R (p @ q @ [b])") (simp_all add: blocked_snoc)
  qed simp
  then show ?thesis using assms by (simp add: R'_def)
qed

lemma lpm_update_outside: "\<nexists>q. bs = p @ q \<Longrightarrow> lpm (R(p := x)) bs = lpm R bs"
proof (rule lpm_cong)
  fix n assume "\<nexists>q. bs = p @ q"
  then have "take n bs \<noteq> p" by (metis append_take_drop_id)
  then show "(R(p := x)) (take n bs) = R (take n bs)" by simp
qed

lemma lpm_parent: "R p = None \<Longrightarrow> p \<noteq> [] \<Longrightarrow> lpm R p = lpm R (butlast p)"
  using lpm.simps[of R p] by simp

lemma lpm_in_range: "lpm R bs = Some r \<Longrightarrow> \<exists>n \<le> length bs. R (take n bs) = Some r"
  by (auto simp: lpm_Some_iff)

text \<open>Routes longer than \<open>k\<close> bits take precedence over the others.\<close>

lemma lpm_split:
  assumes "k \<le> length bs"
  shows "lpm R bs = (case lpm (\<lambda>cs. if k < length cs then R cs else None) bs of
    Some r \<Rightarrow> Some r | None \<Rightarrow> lpm R (take k bs))"
  using assms
proof (induction bs rule: rev_induct)
  case Nil
  then show ?case by simp
next
  case (snoc b bs)
  let ?R = "\<lambda>cs. if k < length cs then R cs else None"
  show ?case
  proof (cases "k \<le> length bs")
    case True
    then show ?thesis
      using snoc.IH by (auto simp: lpm_snoc split: option.splits)
  next
    case False
    then have "k = length (bs @ [b])" using snoc.prems by simp
    moreover have "lpm ?R (bs @ [b]) = None" using calculation by (auto simp: lpm_None_iff)
    ultimately show ?thesis by simp
  qed
qed

end
