(* ===== verification/Art_Stride.thy ===== *)
theory Art_Stride
  imports Art_Prefix Lpm_Spec
begin

text \<open>
  \<open>crates/art/src/stride_table.rs\<close>: the 8-bit stride table.  The array of 512 entries is a
  function on indices: index \<open>1\<close> is the whole stride, \<open>2 * i\<close> and \<open>2 * i + 1\<close> are the halves of
  \<open>i\<close>, so that an index is the path \<open>pidx bs\<close> of a bit list of length at most 8.  The array of 256
  children is a function on bytes.  Every index the code forms is inside the array
  (\<open>stride_index_in_range\<close>).  The lemmas show that the entries are the longest-prefix
  match of the routes rooted in the stride, and that \<open>allot\<close> keeps them so.
\<close>

definition FIRST_HOST_INDEX :: nat where "FIRST_HOST_INDEX = 2 ^ 8"

datatype stride = Stride
  (s_prefix: art_prefix)
  (s_entries: "nat \<Rightarrow> nat option")
  (s_children: "u8 \<Rightarrow> stride option")
  (s_route_refs: nat)
  (s_child_refs: nat)

definition stride_new :: "art_prefix \<Rightarrow> stride" where
  "stride_new prefix = Stride prefix (\<lambda>_. None) (\<lambda>_. None) 0 0"

definition set_prefix :: "art_prefix \<Rightarrow> stride \<Rightarrow> stride" where
  "set_prefix p s = Stride p (s_entries s) (s_children s) (s_route_refs s) (s_child_refs s)"

text \<open>\<open>self.children[addr] = Some(child)\<close>, the write through a mutable reference to a child.\<close>

definition put_child :: "u8 \<Rightarrow> stride \<Rightarrow> stride \<Rightarrow> stride" where
  "put_child addr c s =
     Stride (s_prefix s) (s_entries s) ((s_children s)(addr := Some c)) (s_route_refs s) (s_child_refs s)"

definition child_prefix_of :: "art_prefix \<Rightarrow> u8 \<Rightarrow> art_prefix" where
  "child_prefix_of parent st =
     (let bits = a_bits parent
      in from_octets ((prefix_octets parent)[bits div 8 := st]) (prefix_is_ipv6 parent) (bits + 8))"

text \<open>Returns the table, the child in it, and whether the child was created.\<close>

definition get_or_create_child :: "u8 \<Rightarrow> stride \<Rightarrow> stride \<times> stride \<times> bool" where
  "get_or_create_child addr s =
     (case s_children s addr of
        Some c \<Rightarrow> (s, c, False)
      | None \<Rightarrow>
          let c = stride_new (child_prefix_of (s_prefix s) addr)
          in (Stride (s_prefix s) (s_entries s) ((s_children s)(addr := Some c)) (s_route_refs s)
                (s_child_refs s + 1), c, True))"

definition set_child :: "u8 \<Rightarrow> stride \<Rightarrow> stride \<Rightarrow> stride" where
  "set_child addr c s =
     Stride (s_prefix s) (s_entries s) ((s_children s)(addr := Some c)) (s_route_refs s)
       (if s_children s addr = None then s_child_refs s + 1 else s_child_refs s)"

definition delete_child :: "u8 \<Rightarrow> stride \<Rightarrow> stride" where
  "delete_child addr s =
     Stride (s_prefix s) (s_entries s) ((s_children s)(addr := None)) (s_route_refs s)
       (if s_children s addr \<noteq> None then s_child_refs s - 1 else s_child_refs s)"

text \<open>The first child in the order of the array; \<open>None\<close> if there is none (the code panics).\<close>

definition take_first_child :: "stride \<Rightarrow> stride option" where
  "take_first_child s =
     (case List.find (\<lambda>i. s_children s (of_nat i) \<noteq> None) [0..<256] of
        Some i \<Rightarrow> s_children s (of_nat i)
      | None \<Rightarrow> None)"

definition prefix_index :: "u8 \<Rightarrow> nat \<Rightarrow> nat" where
  "prefix_index addr prefix_len = drop_bit (8 - prefix_len) (unat addr) + 2 ^ prefix_len"

definition host_index :: "u8 \<Rightarrow> nat" where
  "host_index addr = unat addr + FIRST_HOST_INDEX"

lemma stride_index_in_range:
  "prefix_len \<le> 8 \<Longrightarrow> 0 < prefix_index addr prefix_len \<and> prefix_index addr prefix_len < 512" "host_index addr < 512"
proof -
  have a: "unat addr < 256" using unat_less_2p[of addr] by simp
  then show "host_index addr < 512" by (simp add: host_index_def FIRST_HOST_INDEX_def)
  assume len: "prefix_len \<le> 8"
  have "unat addr div 2 ^ (8 - prefix_len) < 2 ^ prefix_len"
    using a len by (simp add: div_less_iff_less_mult flip: power_add)
  moreover have "(2 :: nat) ^ prefix_len \<le> 2 ^ 8" using len by (intro power_increasing) simp_all
  ultimately show "0 < prefix_index addr prefix_len \<and> prefix_index addr prefix_len < 512"
    by (simp add: prefix_index_def drop_bit_eq_div)
qed

definition parent_index :: "nat \<Rightarrow> nat option" where
  "parent_index index = (if index = 1 then None else Some (index div 2))"

definition has_prefix_rooted_at :: "(nat \<Rightarrow> nat option) \<Rightarrow> nat \<Rightarrow> bool" where
  "has_prefix_rooted_at e index =
     (case e index of
        None \<Rightarrow> False
      | Some v \<Rightarrow> (case parent_index index of None \<Rightarrow> True | Some parent \<Rightarrow> e parent \<noteq> Some v))"

text \<open>Indices start at 1 (\<open>prefix_index\<close> is never 0), where the recursion ends.\<close>

function allot :: "nat \<Rightarrow> nat option \<Rightarrow> nat option \<Rightarrow> (nat \<Rightarrow> nat option) \<Rightarrow> nat \<Rightarrow> nat option" where
  "allot index old new e =
     (if e index \<noteq> old then e
      else
        let e = e(index := new)
        in if FIRST_HOST_INDEX \<le> index \<or> index = 0 then e
           else allot (2 * index + 1) old new (allot (2 * index) old new e))"
  by pat_completeness auto
termination
  by (relation "measure (\<lambda>(index, _). 512 - index)") (auto simp: FIRST_HOST_INDEX_def)

declare allot.simps [simp del]

definition stride_insert :: "u8 \<Rightarrow> nat \<Rightarrow> nat \<Rightarrow> stride \<Rightarrow> stride \<times> nat option" where
  "stride_insert addr prefix_len route s =
     (let e = s_entries s;
          index = prefix_index addr prefix_len;
          previous = (if has_prefix_rooted_at e index then e index else None);
          refs = (if previous = None then s_route_refs s + 1 else s_route_refs s);
          old = e index
      in (Stride (s_prefix s) (allot index old (Some route) e) (s_children s) refs (s_child_refs s),
          previous))"

definition stride_delete :: "u8 \<Rightarrow> nat \<Rightarrow> stride \<Rightarrow> (stride \<times> nat) option" where
  "stride_delete addr prefix_len s =
     (let e = s_entries s; index = prefix_index addr prefix_len in
      if \<not> has_prefix_rooted_at e index then None
      else case e index of
        None \<Rightarrow> None
      | Some old \<Rightarrow>
          let parent = (case parent_index index of None \<Rightarrow> None | Some parent \<Rightarrow> e parent)
          in Some (Stride (s_prefix s) (allot index (Some old) parent e) (s_children s)
                     (s_route_refs s - 1) (s_child_refs s), old))"

definition get_val_and_child :: "u8 \<Rightarrow> stride \<Rightarrow> nat option \<times> stride option" where
  "get_val_and_child addr s = (s_entries s (host_index addr), s_children s addr)"

subsection \<open>Indices are bit paths\<close>

definition pidx :: "bool list \<Rightarrow> nat" where
  "pidx bs = foldl (\<lambda>i b. 2 * i + of_bool b) 1 bs"

lemma pidx_Nil [simp]: "pidx [] = 1"
  by (simp add: pidx_def)

lemma pidx_snoc [simp]: "pidx (bs @ [b]) = 2 * pidx bs + of_bool b"
  by (simp add: pidx_def)

lemma pidx_bounds: "2 ^ length bs \<le> pidx bs" "pidx bs < 2 ^ Suc (length bs)"
  by (induction bs rule: rev_induct) auto

lemma pidx_pos [simp]: "0 < pidx bs"
  using pidx_bounds(1)[of bs] by (metis less_le_trans zero_less_numeral zero_less_power)

lemma pidx_neq_0 [simp]: "pidx bs \<noteq> 0"
  using pidx_pos[of bs] by simp

lemma pidx_length_less: "length bs < length cs \<Longrightarrow> pidx bs < pidx cs"
proof -
  assume "length bs < length cs"
  then have "2 ^ Suc (length bs) \<le> (2 :: nat) ^ length cs" by (intro power_increasing) auto
  then show ?thesis using pidx_bounds(2)[of bs] pidx_bounds(1)[of cs] by linarith
qed

lemma pidx_inject: "pidx bs = pidx cs \<longleftrightarrow> bs = cs"
proof
  assume "pidx bs = pidx cs"
  moreover from this have "length bs = length cs"
    by (metis linorder_neqE_nat nat_neq_iff pidx_length_less)
  ultimately show "bs = cs"
  proof (induction bs arbitrary: cs rule: rev_induct)
    case (snoc b bs)
    then obtain c ds where cs: "cs = ds @ [c]" by (cases cs rule: rev_cases) auto
    with snoc.prems have "2 * pidx bs + of_bool b = 2 * pidx ds + of_bool c" by simp
    then have "pidx bs = pidx ds" "b = c" by (cases b; cases c; simp add: double_not_eq_Suc_double Suc_double_not_eq_double)+
    with snoc cs show ?case by simp
  qed simp
qed simp

lemma parent_index_pidx: "parent_index (pidx bs) = (if bs = [] then None else Some (pidx (butlast bs)))"
proof (cases bs rule: rev_cases)
  case (snoc cs b)
  have "2 * pidx cs + of_bool b \<noteq> 1" using pidx_pos[of cs] by (cases b) simp_all
  then show ?thesis using snoc by (simp add: parent_index_def)
qed (simp add: parent_index_def)

lemma pidx_lt_iff: "pidx bs < FIRST_HOST_INDEX \<longleftrightarrow> length bs < 8"
proof
  assume "length bs < 8"
  then have "2 ^ Suc (length bs) \<le> (2 :: nat) ^ 8" by (intro power_increasing) auto
  then show "pidx bs < FIRST_HOST_INDEX" using pidx_bounds(2)[of bs] by (simp add: FIRST_HOST_INDEX_def)
next
  assume "pidx bs < FIRST_HOST_INDEX"
  then have "(2 :: nat) ^ length bs < 2 ^ 8" using pidx_bounds(1)[of bs] by (simp add: FIRST_HOST_INDEX_def)
  then show "length bs < 8" by (rule power_less_imp_less_exp[rotated]) simp
qed

lemma foldl_pidx: "foldl (\<lambda>i b. 2 * i + of_bool b) (a :: nat) bs = a * 2 ^ length bs + foldl (\<lambda>i b. 2 * i + of_bool b) 0 bs"
  by (induction bs rule: rev_induct) (simp_all add: algebra_simps)

lemma value_take_wbits:
  fixes w :: "'a::len word"
  shows "n \<le> LENGTH('a) \<Longrightarrow> foldl (\<lambda>i b. 2 * i + of_bool b) 0 (take n (wbits w)) = drop_bit (LENGTH('a) - n) (unat w)"
proof (induction n)
  case 0
  have "unat w div 2 ^ LENGTH('a) = 0" using unat_less_2p[of w] by (intro div_less)
  then show ?case by (simp add: drop_bit_eq_div)
next
  case (Suc n)
  let ?k = "LENGTH('a) - Suc n"
  have k: "LENGTH('a) - n = Suc ?k" using Suc.prems by simp
  have "take (Suc n) (wbits w) = take n (wbits w) @ [bit w ?k]"
    using Suc.prems by (simp add: take_Suc_conv_app_nth)
  then have "foldl (\<lambda>i b. 2 * i + of_bool b) 0 (take (Suc n) (wbits w)) =
      2 * drop_bit (Suc ?k) (unat w) + of_bool (bit (unat w) ?k)"
    using Suc k by (simp add: bit_unsigned_iff)
  also have "\<dots> = drop_bit ?k (unat w)"
    by (simp add: drop_bit_eq_div bit_iff_odd power_Suc2 div_mult2_eq del: power_Suc)
  finally show ?case .
qed

lemma prefix_index_pidx: "n \<le> 8 \<Longrightarrow> prefix_index a n = pidx (take n (wbits a))"
  using foldl_pidx[of 1 "take n (wbits a)"] value_take_wbits[of n a]
  by (simp add: prefix_index_def pidx_def)

lemma host_index_pidx: "host_index a = pidx (wbits a)"
  using prefix_index_pidx[of 8 a] by (simp add: host_index_def prefix_index_def FIRST_HOST_INDEX_def)

subsection \<open>Allotment\<close>

text \<open>The entries that \<open>allot\<close> replaces: those below \<open>p\<close> that it reaches through old values.\<close>

definition reached :: "(nat \<Rightarrow> nat option) \<Rightarrow> nat option \<Rightarrow> bool list \<Rightarrow> bool list \<Rightarrow> bool" where
  "reached e old p bs \<longleftrightarrow> (\<exists>q. bs = p @ q \<and> (\<forall>k \<le> length q. e (pidx (p @ take k q)) = old))"

lemma reached_self [simp]: "reached e old p p \<longleftrightarrow> e (pidx p) = old"
  by (simp add: reached_def)

lemma all_le_Suc_shift: "(\<forall>k \<le> Suc n. P k) \<longleftrightarrow> P 0 \<and> (\<forall>k \<le> n. P (Suc k))"
  by (metis Suc_le_mono le0 not0_implies_Suc)

lemma reached_step:
  "reached e old p (p @ b # q) \<longleftrightarrow> e (pidx p) = old \<and> reached e old (p @ [b]) (p @ b # q)"
proof -
  have "reached e old p (p @ b # q) \<longleftrightarrow> (\<forall>k \<le> Suc (length q). e (pidx (p @ take k (b # q))) = old)"
    by (simp add: reached_def)
  also have "\<dots> \<longleftrightarrow> e (pidx p) = old \<and> (\<forall>k \<le> length q. e (pidx ((p @ [b]) @ take k q)) = old)"
    by (subst all_le_Suc_shift) simp
  also have "\<dots> \<longleftrightarrow> e (pidx p) = old \<and> reached e old (p @ [b]) (p @ b # q)"
    by (simp add: reached_def)
  finally show ?thesis .
qed

lemma reached_cong:
  assumes "\<And>q. e (pidx (p @ q)) = e' (pidx (p @ q))"
  shows "reached e old p bs = reached e' old p bs"
  using assms by (simp add: reached_def)

lemma reached_prefix: "reached e old p bs \<Longrightarrow> \<exists>q. bs = p @ q"
  by (auto simp: reached_def)

lemma allot_entries:
  "length p \<le> 8 \<Longrightarrow> length bs \<le> 8 \<Longrightarrow>
   allot (pidx p) old new e (pidx bs) = (if reached e old p bs then new else e (pidx bs))"
proof (induction "8 - length p" arbitrary: p e bs)
  case 0
  then have p: "length p = 8" by simp
  then have "\<not> pidx p < FIRST_HOST_INDEX" by (simp add: pidx_lt_iff)
  moreover have "reached e old p bs \<longleftrightarrow> bs = p \<and> e (pidx p) = old"
    using p 0 by (auto simp: reached_def)
  ultimately show ?case by (subst allot.simps) (auto simp: pidx_inject)
next
  case (Suc n)
  then have p: "length p < 8" "pidx p < FIRST_HOST_INDEX" by (simp_all add: pidx_lt_iff)
  show ?case
  proof (cases "e (pidx p) = old")
    case False
    then have "\<not> reached e old p bs" by (force simp: reached_def)
    then show ?thesis using False by (subst allot.simps) simp
  next
    case True
    define e1 where "e1 = e(pidx p := new)"
    define e2 where "e2 = allot (pidx (p @ [False])) old new e1"
    have IH: "allot (pidx (p @ [b])) old new f (pidx cs) =
        (if reached f old (p @ [b]) cs then new else f (pidx cs))" if "length cs \<le> 8" for b f cs
      using Suc.hyps(1)[of "p @ [b]" cs f] Suc.hyps(2) p(1) that by simp
    have a: "allot (pidx p) old new e = allot (pidx (p @ [True])) old new e2"
      using p True by (subst allot.simps) (simp add: e1_def e2_def not_le Let_def)
    have e1: "e1 (pidx (p @ b # q)) = e (pidx (p @ b # q))" for b q by (simp add: e1_def pidx_inject)
    have r1: "reached e1 old (p @ [b]) cs = reached e old (p @ [b]) cs" for b cs
      by (rule reached_cong) (simp add: e1)
    have "e2 (pidx (p @ [True] @ q)) = e1 (pidx (p @ [True] @ q))" if "length (p @ [True] @ q) \<le> 8" for q
      unfolding e2_def using IH[OF that, of False e1] by (auto dest: reached_prefix)
    then have r2: "reached e2 old (p @ [True]) bs = reached e old (p @ [True]) bs"
      using Suc.prems(2) e1 by (auto simp: reached_def)
    have "allot (pidx p) old new e (pidx bs) =
        (if reached e old (p @ [True]) bs \<or> reached e old (p @ [False]) bs then new else e1 (pidx bs))"
      using IH[OF Suc.prems(2), of True e2] IH[OF Suc.prems(2), of False e1] r1[of False bs]
      unfolding a e2_def[symmetric] r2 by simp
    also have "\<dots> = (if reached e old p bs then new else e (pidx bs))"
    proof (cases "\<exists>q. bs = p @ q")
      case False
      then have "\<not> reached e old p bs" "\<not> reached e old (p @ [b]) bs" "bs \<noteq> p" for b
        by (auto simp: reached_def)
      then show ?thesis by (simp add: e1_def pidx_inject)
    next
      case inside: True
      then obtain q where bs: "bs = p @ q" by blast
      show ?thesis
      proof (cases q)
        case Nil
        have "\<not> reached e old (p @ [b]) p" for b by (simp add: reached_def)
        then show ?thesis using bs Nil True by (simp add: e1_def)
      next
        case (Cons b r)
        have "\<not> reached e old (p @ [\<not> b]) (p @ b # r)" by (simp add: reached_def)
        then show ?thesis using bs Cons True by (cases b) (simp_all add: reached_step e1)
      qed
    qed
    finally show ?thesis .
  qed
qed

subsection \<open>Entries as longest-prefix match\<close>

definition entries_rep :: "(nat \<Rightarrow> nat option) \<Rightarrow> (bool list \<Rightarrow> nat option) \<Rightarrow> bool" where
  "entries_rep e M \<longleftrightarrow> (\<forall>bs. length bs \<le> 8 \<longrightarrow> e (pidx bs) = lpm M bs) \<and>
     (\<forall>bs. M bs \<noteq> None \<longrightarrow> length bs \<le> 8) \<and>
     (\<forall>bs cs r. M bs = Some r \<longrightarrow> M cs = Some r \<longrightarrow> bs = cs)"

text \<open>The routes rooted in a stride can be read off its entries.\<close>

definition local_routes :: "(nat \<Rightarrow> nat option) \<Rightarrow> bool list \<Rightarrow> nat option" where
  "local_routes e bs = (if length bs \<le> 8 \<and> has_prefix_rooted_at e (pidx bs) then e (pidx bs) else None)"

lemma entries_rep_lookup: "entries_rep e M \<Longrightarrow> length bs \<le> 8 \<Longrightarrow> e (pidx bs) = lpm M bs"
  by (simp add: entries_rep_def)

lemma entries_rep_inj: "entries_rep e M \<Longrightarrow> M bs = Some r \<Longrightarrow> M cs = Some r \<Longrightarrow> bs = cs"
  unfolding entries_rep_def by blast

lemma entries_rep_short: "entries_rep e M \<Longrightarrow> \<not> length bs \<le> 8 \<Longrightarrow> M bs = None"
  unfolding entries_rep_def by blast

lemma rooted_iff:
  assumes rep: "entries_rep e M" and p: "length p \<le> 8"
  shows "has_prefix_rooted_at e (pidx p) \<longleftrightarrow> M p \<noteq> None"
proof (cases "M p")
  case None
  then show ?thesis
    using entries_rep_lookup[OF rep, of p] entries_rep_lookup[OF rep, of "butlast p"] p
    by (cases "p = []") (auto simp: has_prefix_rooted_at_def parent_index_pidx lpm_parent split: option.splits)
next
  case (Some v)
  then have ep: "e (pidx p) = Some v"
    using entries_rep_lookup[OF rep p] lpm.simps[of M p] by simp
  moreover have "e (pidx (butlast p)) \<noteq> Some v" if "p \<noteq> []"
  proof
    assume "e (pidx (butlast p)) = Some v"
    then have "lpm M (butlast p) = Some v" using entries_rep_lookup[OF rep, of "butlast p"] p by simp
    from lpm_in_range[OF this] obtain n where "M (take n (butlast p)) = Some v" by auto
    then have "take n (butlast p) = p" using entries_rep_inj[OF rep] Some by blast
    then have "length p \<le> length p - 1" by (metis length_butlast length_take min.cobounded1)
    then show False using that by (cases p) simp_all
  qed
  ultimately show ?thesis using Some
    by (auto simp: has_prefix_rooted_at_def parent_index_pidx)
qed

lemma local_routes_rep: "entries_rep e M \<Longrightarrow> local_routes e = M"
proof
  fix bs assume rep: "entries_rep e M"
  show "local_routes e bs = M bs"
  proof (cases "length bs \<le> 8")
    case True
    then show ?thesis
      using rooted_iff[OF rep True] entries_rep_lookup[OF rep True] lpm.simps[of M bs]
      by (auto simp: local_routes_def)
  next
    case False
    then show ?thesis using entries_rep_short[OF rep False] by (simp add: local_routes_def)
  qed
qed

lemma reached_iff_unblocked:
  assumes rep: "entries_rep e M" and len: "length (p @ q) \<le> 8"
  shows "reached e (e (pidx p)) p (p @ q) \<longleftrightarrow> \<not> blocked M p q"
proof
  assume r: "reached e (e (pidx p)) p (p @ q)"
  show "\<not> blocked M p q"
  proof
    assume "blocked M p q"
    then obtain k s where k: "k \<le> length q" "0 < k" "M (p @ take k q) = Some s"
      by (auto simp: blocked_def)
    then have "e (pidx (p @ take k q)) = Some s"
      using entries_rep_lookup[OF rep, of "p @ take k q"] len lpm.simps[of M "p @ take k q"] by simp
    then have "lpm M p = Some s" using r k entries_rep_lookup[OF rep, of p] len by (auto simp: reached_def)
    from lpm_in_range[OF this] obtain n where "M (take n p) = Some s" by auto
    then have "take n p = p @ take k q" using entries_rep_inj[OF rep] k(3) by blast
    then have "length (take n p) = length (p @ take k q)" by (rule arg_cong)
    then show False using k by simp
  qed
next
  assume nb: "\<not> blocked M p q"
  have "e (pidx (p @ take k q)) = e (pidx p)" if k: "k \<le> length q" for k
  proof -
    have "\<not> blocked M p (take k q)"
    proof
      assume "blocked M p (take k q)"
      then obtain j where j: "j \<le> length (take k q)" "0 < j" "M (p @ take j (take k q)) \<noteq> None"
        unfolding blocked_def by blast
      then have "j \<le> length q" "take j (take k q) = take j q" using k by auto
      then have "blocked M p q" using j unfolding blocked_def by metis
      then show False using nb by simp
    qed
    then show ?thesis using lpm_unblocked[of M p "take k q"] len k
        entries_rep_lookup[OF rep, of p] entries_rep_lookup[OF rep, of "p @ take k q"] by simp
  qed
  then show "reached e (e (pidx p)) p (p @ q)" by (auto simp: reached_def)
qed

lemma allot_rep:
  assumes rep: "entries_rep e M" and p: "length p \<le> 8" and new: "new = lpm (M(p := x)) p"
    and fresh: "\<And>bs r. x = Some r \<Longrightarrow> M bs = Some r \<Longrightarrow> bs = p"
  shows "entries_rep (allot (pidx p) (e (pidx p)) new e) (M(p := x))"
  unfolding entries_rep_def
proof (intro conjI allI impI)
  fix bs :: "bool list" assume bs: "length bs \<le> 8"
  show "allot (pidx p) (e (pidx p)) new e (pidx bs) = lpm (M(p := x)) bs"
  proof (cases "\<exists>q. bs = p @ q")
    case True
    then obtain q where q: "bs = p @ q" by blast
    show ?thesis
      using allot_entries[OF p bs] reached_iff_unblocked[OF rep bs[unfolded q]] q new
        lpm_unblocked[of "M(p := x)" p q] lpm_blocked[of M p q x] entries_rep_lookup[OF rep bs]
      by (cases "blocked M p q") simp_all
  next
    case False
    then have "\<not> reached e (e (pidx p)) p bs" by (auto dest: reached_prefix)
    then show ?thesis
      using allot_entries[OF p bs, of "e (pidx p)" new e] lpm_update_outside[OF False, of M x]
        entries_rep_lookup[OF rep bs] by simp
  qed
next
  fix bs assume "(M(p := x)) bs \<noteq> None"
  then show "length bs \<le> 8" using p entries_rep_short[OF rep, of bs] by (metis fun_upd_apply)
next
  fix bs cs r assume "(M(p := x)) bs = Some r" "(M(p := x)) cs = Some r"
  then show "bs = cs" using entries_rep_inj[OF rep, of bs r cs] fresh[of r bs] fresh[of r cs]
    by (metis fun_upd_apply)
qed

lemma entries_rep_empty: "entries_rep (\<lambda>_. None) (\<lambda>_. None)"
  by (simp add: entries_rep_def lpm_None_iff eq_commute[of None])

lemma finite_local: "entries_rep e M \<Longrightarrow> finite (dom M)"
proof -
  assume "entries_rep e M"
  then have "dom M \<subseteq> {bs. set bs \<subseteq> UNIV \<and> length bs \<le> 8}" by (auto simp: entries_rep_def)
  then show ?thesis by (rule finite_subset) (rule finite_lists_length_le, simp)
qed

text \<open>The state of one stride: entries for the routes \<open>M\<close>, counted by \<open>route_refs\<close>.\<close>

definition stride_rep :: "stride \<Rightarrow> (bool list \<Rightarrow> nat option) \<Rightarrow> bool" where
  "stride_rep s M \<longleftrightarrow> entries_rep (s_entries s) M \<and> s_route_refs s = card (dom M)"

lemma stride_insert_rep:
  assumes rep: "stride_rep s M" and n: "n \<le> 8" and p: "p = take n (wbits a)"
    and fresh: "\<And>bs. M bs \<noteq> Some r"
  obtains s' where "stride_insert a n r s = (s', M p)" "stride_rep s' (M(p \<mapsto> r))"
    "s_prefix s' = s_prefix s" "s_children s' = s_children s" "s_child_refs s' = s_child_refs s"
proof -
  let ?e = "s_entries s"
  have e: "entries_rep ?e M" using rep by (simp add: stride_rep_def)
  have i: "prefix_index a n = pidx p" "length p \<le> 8" using n by (simp_all add: p prefix_index_pidx)
  have prev: "(if has_prefix_rooted_at ?e (pidx p) then ?e (pidx p) else None) = M p"
    using rooted_iff[OF e i(2)] entries_rep_lookup[OF e i(2)] lpm.simps[of M p] by auto
  let ?s = "Stride (s_prefix s) (allot (pidx p) (?e (pidx p)) (Some r) ?e) (s_children s)
    (if M p = None then s_route_refs s + 1 else s_route_refs s) (s_child_refs s)"
  have "lpm (M(p \<mapsto> r)) p = Some r" by (subst lpm.simps) simp
  then have "entries_rep (allot (pidx p) (?e (pidx p)) (Some r) ?e) (M(p \<mapsto> r))"
    using fresh by (intro allot_rep[OF e i(2)]) auto
  moreover have "card (dom (M(p \<mapsto> r))) = (if M p = None then card (dom M) + 1 else card (dom M))"
    using finite_local[OF e] by (auto simp: insert_absorb domIff card_insert_if)
  ultimately have "stride_rep ?s (M(p \<mapsto> r))" using rep by (simp add: stride_rep_def)
  then show ?thesis using that[of ?s] prev i by (simp add: stride_insert_def Let_def)
qed

lemma stride_delete_rep:
  assumes rep: "stride_rep s M" and n: "n \<le> 8" and p: "p = take n (wbits a)" and M: "M p = Some r"
  obtains s' where "stride_delete a n s = Some (s', r)" "stride_rep s' (M(p := None))"
    "s_prefix s' = s_prefix s" "s_children s' = s_children s" "s_child_refs s' = s_child_refs s"
proof -
  let ?e = "s_entries s"
  have e: "entries_rep ?e M" using rep by (simp add: stride_rep_def)
  have i: "prefix_index a n = pidx p" "length p \<le> 8" using n by (simp_all add: p prefix_index_pidx)
  have ep: "?e (pidx p) = Some r" using entries_rep_lookup[OF e i(2)] lpm.simps[of M p] M by simp
  define parent where "parent = (case parent_index (pidx p) of None \<Rightarrow> None | Some q \<Rightarrow> ?e q)"
  have "parent = lpm (M(p := None)) p"
  proof (cases "p = []")
    case False
    have "\<nexists>q. butlast p = p @ q"
    proof
      assume "\<exists>q. butlast p = p @ q"
      then obtain q where "butlast p = p @ q" by blast
      then have "length p - 1 = length p + length q" by (metis length_append length_butlast)
      then show False using False by (cases p) simp_all
    qed
    then have "lpm (M(p := None)) p = lpm M (butlast p)"
      using False lpm_parent[of "M(p := None)" p] lpm_update_outside[of "butlast p" p M None] by auto
    then show ?thesis using False entries_rep_lookup[OF e, of "butlast p"] i(2)
      by (simp add: parent_def parent_index_pidx)
  qed (simp add: parent_def parent_index_def)
  then have "entries_rep (allot (pidx p) (?e (pidx p)) parent ?e) (M(p := None))"
    by (intro allot_rep[OF e i(2)]) auto
  moreover have "card (dom (M(p := None))) = card (dom M) - 1"
    using finite_local[OF e] M by (auto simp: card_Diff_singleton domIff)
  ultimately have "stride_rep (Stride (s_prefix s) (allot (pidx p) (Some r) parent ?e) (s_children s)
      (s_route_refs s - 1) (s_child_refs s)) (M(p := None))"
    using rep ep by (simp add: stride_rep_def)
  then show ?thesis
    using that rooted_iff[OF e i(2)] M ep i by (simp add: stride_delete_def Let_def parent_def)
qed

lemma stride_delete_absent:
  "stride_rep s M \<Longrightarrow> n \<le> 8 \<Longrightarrow> M (take n (wbits a)) = None \<Longrightarrow> stride_delete a n s = None"
  using rooted_iff[of "s_entries s" M "take n (wbits a)"]
  by (simp add: stride_delete_def stride_rep_def prefix_index_pidx)

end
