(* ===== verification/Art_Tree.thy ===== *)
theory Art_Tree
  imports Art_Stride "HOL-Library.Monad_Syntax"
begin

text \<open>
  The trie of stride tables of one address family (\<open>insert_into\<close>, \<open>delete_from\<close>,
  \<open>clean_empty_strides\<close> and the loop of \<open>get\<close> in \<open>crates/art/src/lib.rs\<close>).  The loops descend
  into a child, so they terminate on every tree.  The lemmas show that the well-formed trees are
  closed under the operations and describe them by the set of routes of a tree.
\<close>

definition child_rel :: "(stride \<times> stride) set" where
  "child_rel = {(c, s). \<exists>a. s_children s a = Some c}"

lemma wf_child_rel: "wf child_rel"
proof (rule wfUNIVI)
  fix P s assume step: "\<forall>s. (\<forall>c. (c, s) \<in> child_rel \<longrightarrow> P c) \<longrightarrow> P s"
  show "P s"
  proof (induction s rule: stride.induct)
    case (Stride p e ch rr cr)
    then have "P c" if "ch a = Some c" for a c using that by (metis option.set_intros rangeI)
    then have "\<forall>c. (c, Stride p e ch rr cr) \<in> child_rel \<longrightarrow> P c" by (auto simp: child_rel_def)
    then show ?case using step by blast
  qed
qed

lemma child_relI [intro]: "s_children s a = Some c \<Longrightarrow> (c, s) \<in> child_rel"
  by (auto simp: child_rel_def)

subsection \<open>Insertion and deletion in a tree of strides\<close>

function insert_loop ::
  "art_prefix \<Rightarrow> nat \<Rightarrow> nat \<Rightarrow> nat \<Rightarrow> art_prefix \<Rightarrow> stride \<Rightarrow> nat \<Rightarrow> nat \<Rightarrow> stride \<times> nat option" where
  "insert_loop prefix route final_byte final_bits final_stride_prefix current byte_index bits_remaining =
     (if bits_remaining \<le> 8 then stride_insert (byte_at prefix final_byte) final_bits route current
      else
        let addr = byte_at prefix byte_index in
        case s_children current addr of
          None \<Rightarrow>
            let (current, child, created) = get_or_create_child addr current;
                child = set_prefix final_stride_prefix child;
                (child, result) = stride_insert (byte_at prefix final_byte) final_bits route child
            in (put_child addr child current, result)
        | Some child \<Rightarrow>
            if \<not> prefix_strictly_contains (s_prefix child) prefix then
              let (intermediate_prefix, existing_stride, new_stride) = compute_prefix_split (s_prefix child) prefix;
                  intermediate = set_child existing_stride child (stride_new intermediate_prefix);
                  (intermediate, result) =
                    (if a_bits prefix - a_bits (s_prefix intermediate) \<le> 8 then
                       stride_insert (byte_at prefix final_byte) final_bits route intermediate
                     else
                       let (intermediate, new_child, was_created) = get_or_create_child new_stride intermediate;
                           new_child = set_prefix final_stride_prefix new_child;
                           (new_child, result) =
                             stride_insert (byte_at prefix final_byte) final_bits route new_child
                       in (put_child new_stride new_child intermediate, result))
              in (put_child addr intermediate current, result)
            else
              let (child', result) =
                    insert_loop prefix route final_byte final_bits final_stride_prefix child
                      (a_bits (s_prefix child) div 8) (a_bits prefix - a_bits (s_prefix child))
              in (put_child addr child' current, result))"
  by pat_completeness auto
termination
  by (relation "inv_image child_rel (\<lambda>(_, _, _, _, _, current, _, _). current)")
    (auto simp: wf_child_rel)

declare insert_loop.simps [simp del]

definition insert_into :: "stride \<Rightarrow> art_prefix \<Rightarrow> nat \<Rightarrow> stride \<times> nat option" where
  "insert_into s prefix route =
     (if a_bits prefix = 0 then stride_insert 0 0 route s
      else
        let final_byte = (a_bits prefix - 1) div 8;
            final_bits = a_bits prefix - final_byte * 8;
            final_stride_prefix = prefix_at_byte_boundary prefix (final_byte * 8)
        in insert_loop prefix route final_byte final_bits final_stride_prefix s 0 (a_bits prefix))"

text \<open>The descent of \<open>delete_from\<close>: the updated tree, the path taken and the removed route.\<close>

function delete_loop :: "art_prefix \<Rightarrow> stride \<Rightarrow> nat \<Rightarrow> nat \<Rightarrow> (stride \<times> u8 list \<times> nat) option" where
  "delete_loop prefix current byte_index bits_remaining =
     (if 8 < bits_remaining then
        let addr = byte_at prefix byte_index in
        case s_children current addr of
          None \<Rightarrow> None
        | Some child \<Rightarrow>
            if a_bits prefix < a_bits (s_prefix child) then None
            else case delete_loop prefix child (a_bits (s_prefix child) div 8)
                        (a_bits prefix - a_bits (s_prefix child)) of
              None \<Rightarrow> None
            | Some (child', path, removed) \<Rightarrow> Some (put_child addr child' current, addr # path, removed)
      else if \<not> prefix_strictly_contains (s_prefix current) prefix then None
      else case stride_delete (byte_at prefix byte_index) bits_remaining current of
        None \<Rightarrow> None
      | Some (current', removed) \<Rightarrow> Some (current', [], removed))"
  by pat_completeness auto
termination
  by (relation "inv_image child_rel (\<lambda>(_, current, _, _). current)")
    (auto simp: wf_child_rel)

declare delete_loop.simps [simp del]

fun clean_empty_strides :: "u8 list \<Rightarrow> stride \<Rightarrow> stride option" where
  "clean_empty_strides [] s = Some s"
| "clean_empty_strides (addr # rest) s = do {
     child \<leftarrow> s_children s addr;
     child \<leftarrow> clean_empty_strides rest child;
     let s = put_child addr child s;
     if s_route_refs child \<noteq> 0 \<or> 1 < s_child_refs child then Some s
     else if s_child_refs child = 0 then Some (delete_child addr s)
     else do {
       replacement \<leftarrow> take_first_child child;
       Some (set_child addr replacement s)
     }
   }"

definition delete_from :: "stride \<Rightarrow> art_prefix \<Rightarrow> (stride \<times> nat option) option" where
  "delete_from s prefix =
     (if a_bits prefix = 0 then
        (case stride_delete 0 0 s of None \<Rightarrow> Some (s, None) | Some (s', r) \<Rightarrow> Some (s', Some r))
      else case delete_loop prefix s 0 (a_bits prefix) of
        None \<Rightarrow> Some (s, None)
      | Some (s', path, removed) \<Rightarrow> do {
          s'' \<leftarrow> clean_empty_strides path s';
          Some (s'', Some removed)
        })"

function get_loop :: "ipaddr \<Rightarrow> stride \<Rightarrow> nat \<Rightarrow> (art_prefix \<times> nat) list option" where
  "get_loop addr s byte_index = do {
     b \<leftarrow> addr_byte_at addr byte_index;
     let (route, child) = get_val_and_child b s;
     let here = (case route of Some r \<Rightarrow> [(s_prefix s, r)] | None \<Rightarrow> []);
     (case child of
        None \<Rightarrow> Some here
      | Some c \<Rightarrow> do {
          rest \<leftarrow> get_loop addr c (a_bits (s_prefix c) div 8);
          Some (here @ rest)
        })
   }"
  by pat_completeness auto
termination
  by (relation "inv_image child_rel (\<lambda>(_, s, _). s)")
    (auto simp: wf_child_rel get_val_and_child_def)

declare get_loop.simps [simp del]

subsection \<open>Routes and well-formedness of a tree\<close>

definition sbits :: "stride \<Rightarrow> bool list" where
  "sbits s = pbits (s_prefix s)"

definition slocal :: "stride \<Rightarrow> bool list \<Rightarrow> nat option" where
  "slocal s = local_routes (s_entries s)"

inductive has_route :: "stride \<Rightarrow> bool list \<Rightarrow> nat \<Rightarrow> bool" where
  here: "slocal s q = Some r \<Longrightarrow> has_route s (sbits s @ q) r"
| below: "s_children s a = Some c \<Longrightarrow> has_route c bs r \<Longrightarrow> has_route s bs r"

lemma has_route_iff:
  "has_route s bs r \<longleftrightarrow> (\<exists>q. bs = sbits s @ q \<and> slocal s q = Some r) \<or>
     (\<exists>a c. s_children s a = Some c \<and> has_route c bs r)"
  by (subst has_route.simps) auto

text \<open>The prefix of a stride: normalised, at a byte boundary, shorter than an address.\<close>

definition stride_prefix_ok :: "bool \<Rightarrow> art_prefix \<Rightarrow> bool" where
  "stride_prefix_ok v4 p \<longleftrightarrow> prefix_wf p \<and> masked p = p \<and> is_ipv4 (a_addr p) = v4 \<and>
     a_bits p mod 8 = 0 \<and> a_bits p < addr_len (a_addr p)"

text \<open>A child at byte \<open>a\<close>: below that byte, with no route of its own length.\<close>

definition child_ok :: "stride \<Rightarrow> u8 \<Rightarrow> stride \<Rightarrow> bool" where
  "child_ok s a c \<longleftrightarrow> (\<exists>q. sbits c = sbits s @ wbits a @ q) \<and> slocal c [] = None"

inductive tree_ok :: "bool \<Rightarrow> stride \<Rightarrow> bool" for v4 where
  tree_okI: "stride_prefix_ok v4 (s_prefix s) \<Longrightarrow> stride_rep s (slocal s) \<Longrightarrow>
     s_child_refs s = card {a. s_children s a \<noteq> None} \<Longrightarrow>
     (\<And>a c. s_children s a = Some c \<Longrightarrow> child_ok s a c) \<Longrightarrow>
     (\<And>a c. s_children s a = Some c \<Longrightarrow> tree_ok v4 c) \<Longrightarrow> tree_ok v4 s"

lemma tree_okD:
  assumes "tree_ok v4 s"
  shows "stride_prefix_ok v4 (s_prefix s)" "stride_rep s (slocal s)"
    "s_child_refs s = card {a. s_children s a \<noteq> None}"
    "s_children s a = Some c \<Longrightarrow> child_ok s a c" "s_children s a = Some c \<Longrightarrow> tree_ok v4 c"
  using assms by (auto elim: tree_ok.cases)

lemma tree_ok_len:
  assumes "tree_ok v4 s"
  shows "length (sbits s) = a_bits (s_prefix s)" "length (sbits s) mod 8 = 0"
    "length (sbits s) + 8 \<le> (if v4 then 32 else 128)"
proof -
  have ok: "stride_prefix_ok v4 (s_prefix s)" by (rule tree_okD[OF assms])
  then show l: "length (sbits s) = a_bits (s_prefix s)" by (simp add: sbits_def stride_prefix_ok_def)
  show "length (sbits s) mod 8 = 0" using ok l by (simp add: stride_prefix_ok_def)
  have "a_bits (s_prefix s) < (if v4 then 32 else 128)" "a_bits (s_prefix s) mod 8 = 0"
    using ok by (auto simp: stride_prefix_ok_def addr_len_def)
  then show "length (sbits s) + 8 \<le> (if v4 then 32 else 128)"
    unfolding l by (cases v4) (simp_all, presburger+)
qed

lemma slocal_rep: "tree_ok v4 s \<Longrightarrow> entries_rep (s_entries s) (slocal s)"
  using tree_okD(2) by (auto simp: stride_rep_def)

lemma slocal_len: "tree_ok v4 s \<Longrightarrow> slocal s q = Some r \<Longrightarrow> length q \<le> 8"
  using entries_rep_short[OF slocal_rep] by fastforce

lemma slocal_stride_rep: "stride_rep s M \<Longrightarrow> slocal s = M"
  by (simp add: slocal_def stride_rep_def local_routes_rep)

text \<open>The routes of a child lie strictly below its byte.\<close>

lemma has_route_extends:
  "has_route s bs r \<Longrightarrow> tree_ok v4 s \<Longrightarrow>
     \<exists>q. bs = sbits s @ q \<and> length bs \<le> (if v4 then 32 else 128) \<and> (slocal s [] = None \<longrightarrow> q \<noteq> [])"
proof (induction rule: has_route.induct)
  case (here s q r)
  then show ?case using slocal_len[OF here(2,1)] tree_ok_len(3)[OF here(2)] by auto
next
  case (below s a c bs r)
  have c: "tree_ok v4 c" "child_ok s a c" using tree_okD[OF below(4)] below(1) by blast+
  from below.IH[OF c(1)] c(2) show ?case by (auto simp: child_ok_def)
qed

lemma child_route:
  assumes "tree_ok v4 s" "s_children s a = Some c" "has_route c bs r"
  shows "\<exists>q. bs = sbits s @ wbits a @ q \<and> q \<noteq> []"
proof -
  have c: "tree_ok v4 c" "child_ok s a c" using tree_okD[OF assms(1)] assms(2) by blast+
  from has_route_extends[OF assms(3) c(1)] c(2) show ?thesis by (auto simp: child_ok_def)
qed

lemma has_route_unique: "has_route s bs r \<Longrightarrow> tree_ok v4 s \<Longrightarrow> has_route s bs r' \<Longrightarrow> r' = r"
proof (induction arbitrary: r' rule: has_route.induct)
  case (here s q r)
  from here(3) show ?case
  proof (cases rule: has_route.cases)
    case (below a c)
    from child_route[OF here(2) below] slocal_len[OF here(2,1)] show ?thesis by auto
  qed (use here in auto)
next
  case (below s a c bs r)
  obtain q where q: "bs = sbits s @ wbits a @ q" "q \<noteq> []" using child_route[OF below(4,1,2)] by blast
  from below(5) show ?case
  proof (cases rule: has_route.cases)
    case (here q')
    then show ?thesis using q slocal_len[OF below(4) here(2)] by auto
  next
    case below': (below b d)
    obtain q' where q': "bs = sbits s @ wbits b @ q'" using child_route[OF below(4) below'] by blast
    then have "b = a" using q by (simp add: append_eq_append_conv)
    then show ?thesis using below' below tree_okD(5)[OF below(4)] by auto
  qed
qed

lemma has_route_short:
  assumes "tree_ok v4 s" "length bs \<le> length (sbits s) + 8"
  shows "has_route s bs r \<longleftrightarrow> (\<exists>q. bs = sbits s @ q \<and> slocal s q = Some r)"
proof -
  have "\<not> (s_children s a = Some c \<and> has_route c bs r)" for a c
    using child_route[OF assms(1), of a c bs r] assms(2) by auto
  then show ?thesis by (subst has_route_iff) blast
qed

lemma has_route_long:
  assumes "tree_ok v4 s" "length (sbits s) + 8 < length bs"
  shows "has_route s bs r \<longleftrightarrow> (\<exists>a c. s_children s a = Some c \<and> has_route c bs r)"
proof -
  have "\<not> (bs = sbits s @ q \<and> slocal s q = Some r)" for q
    using slocal_len[OF assms(1), of q r] assms(2) by auto
  then show ?thesis by (subst has_route_iff) blast
qed

definition tree_map :: "stride \<Rightarrow> bool list \<Rightarrow> nat option" where
  "tree_map s bs = (if \<exists>r. has_route s bs r then Some (THE r. has_route s bs r) else None)"

lemma tree_map_Some: "tree_ok v4 s \<Longrightarrow> tree_map s bs = Some r \<longleftrightarrow> has_route s bs r"
proof -
  assume ok: "tree_ok v4 s"
  have "(THE r. has_route s bs r) = r'" if "has_route s bs r'" for r'
    using that has_route_unique[OF _ ok] by (intro the_equality) blast+
  then show ?thesis unfolding tree_map_def by (metis option.distinct(1) option.inject)
qed

lemma tree_map_None: "tree_map s bs = None \<longleftrightarrow> (\<nexists>r. has_route s bs r)"
  by (simp add: tree_map_def)

subsection \<open>Lookup\<close>

definition pick :: "ipaddr \<Rightarrow> (art_prefix \<times> nat) list \<Rightarrow> nat option" where
  "pick addr ms = map_option snd (List.find (\<lambda>(prefix, route). art_contains prefix addr) (rev ms))"

lemma find_append: "List.find P (xs @ ys) = (case List.find P xs of Some x \<Rightarrow> Some x | None \<Rightarrow> List.find P ys)"
  by (induction xs) auto

lemma pick_append: "pick addr (xs @ ys) = (case pick addr ys of Some r \<Rightarrow> Some r | None \<Rightarrow> pick addr xs)"
  by (simp add: pick_def find_append split: option.split)

lemma pick_Nil [simp]: "pick addr [] = None"
  by (simp add: pick_def)

lemma pick_single: "pick addr [(p, r)] = (if art_contains p addr then Some r else None)"
  by (simp add: pick_def)

lemma lpm_shift:
  assumes "\<And>m. m < length P \<Longrightarrow> R (take m P) = None"
  shows "lpm R (P @ q) = lpm (\<lambda>q. R (P @ q)) q"
proof (induction q rule: rev_induct)
  case Nil
  have "lpm R (butlast P) = None" if "P \<noteq> []"
  proof -
    have "R (take m (butlast P)) = None" if "m \<le> length (butlast P)" for m
      using assms[of m] that \<open>P \<noteq> []\<close> by (cases P rule: rev_cases) auto
    then show ?thesis by (simp add: lpm_None_iff)
  qed
  then show ?case by (subst lpm.simps) (auto split: option.split)
next
  case (snoc b q)
  then show ?case
    using lpm_snoc[of R "P @ q" b] lpm_snoc[of "\<lambda>q. R (P @ q)" q b]
    by (cases "R (P @ q @ [b])") simp_all
qed

text \<open>The stride that matches an address, and the child on the way to it.\<close>

lemma local_lookup:
  assumes ok: "tree_ok v4 s" and X: "sbits s = take n X" "n = length (sbits s)" "n + 8 \<le> length X"
    and b: "wbits b = take 8 (drop n X)"
  shows "lpm (tree_map s) (take (n + 8) X) = s_entries s (host_index b)"
proof -
  have "tree_map s (take m (sbits s)) = None" if "m < length (sbits s)" for m
  proof -
    have "\<not> has_route s (take m (sbits s)) r" for r
      using has_route_extends[OF _ ok, of "take m (sbits s)" r] that by (metis length_append length_take
          min.absorb4 not_add_less1)
    then show ?thesis by (simp add: tree_map_None)
  qed
  from lpm_shift[of "sbits s" "tree_map s" "wbits b", OF this]
  moreover have "take (n + 8) X = sbits s @ wbits b" using X(1) b by (simp add: take_add)
  ultimately have "lpm (tree_map s) (take (n + 8) X) = lpm (\<lambda>q. tree_map s (sbits s @ q)) (wbits b)"
    by simp
  also have "\<dots> = lpm (slocal s) (wbits b)"
  proof (rule lpm_cong)
    fix k assume "k \<le> length (wbits b)"
    have "has_route s (sbits s @ take k (wbits b)) r \<longleftrightarrow> slocal s (take k (wbits b)) = Some r" for r
      by (subst has_route_short[OF ok]) auto
    then show "tree_map s (sbits s @ take k (wbits b)) = slocal s (take k (wbits b))"
      using tree_map_Some[OF ok] by (metis not_None_eq)
  qed
  also have "\<dots> = s_entries s (host_index b)"
    using entries_rep_lookup[OF slocal_rep[OF ok], of "wbits b"] by (simp add: host_index_pidx)
  finally show ?thesis .
qed

lemma tree_map_eqI:
  assumes "tree_ok v4 s" "tree_ok v4' s'" "\<And>r. has_route s bs r \<longleftrightarrow> has_route s' bs' r"
  shows "tree_map s bs = tree_map s' bs'"
  using assms tree_map_Some[OF assms(1), of bs] tree_map_Some[OF assms(2), of bs']
  by (metis not_None_eq)

lemma child_byte_unique:
  assumes "tree_ok v4 s" "s_children s a = Some c" "has_route c (take m X) r"
    and "sbits s = take n X" "length (sbits s) = n" "n + 8 \<le> length X" "wbits b = take 8 (drop n X)"
  shows "a = b" "n + 8 < length (take m X)"
proof -
  obtain q where q: "take m X = sbits s @ wbits a @ q" "q \<noteq> []" using child_route[OF assms(1-3)] by blast
  then show "n + 8 < length (take m X)" using assms(5) by simp
  moreover have "take 8 (drop n (take m X)) = wbits a" using q assms(5) by simp
  ultimately have "take 8 (drop n X) = wbits a" by (simp add: drop_take min_def split: if_splits)
  then show "a = b" using assms(7) by simp
qed

lemma lpm_below:
  assumes ok: "tree_ok v4 s" and X: "sbits s = take n X" "length (sbits s) = n" "n + 8 \<le> length X"
    and b: "wbits b = take 8 (drop n X)"
  shows "lpm (\<lambda>cs. if n + 8 < length cs then tree_map s cs else None) X =
    (case s_children s b of None \<Rightarrow> None | Some c \<Rightarrow> lpm (tree_map c) X)"
proof -
  let ?R = "\<lambda>cs. case s_children s b of None \<Rightarrow> None | Some c \<Rightarrow> tree_map c cs"
  have "(if n + 8 < length (take m X) then tree_map s (take m X) else None) = ?R (take m X)"
    if "m \<le> length X" for m
  proof -
    have routes: "has_route s (take m X) r \<longleftrightarrow> (\<exists>c. s_children s b = Some c \<and> has_route c (take m X) r)"
      if "n + 8 < length (take m X)" for r
      using has_route_long[OF ok, of "take m X" r] that X(2) child_byte_unique(1)[OF ok _ _ X b] by metis
    show ?thesis
    proof (cases "s_children s b")
      case None
      then show ?thesis using routes by (simp add: tree_map_None)
    next
      case (Some c)
      have c: "tree_ok v4 c" using tree_okD(5)[OF ok Some] .
      show ?thesis
      proof (cases "n + 8 < length (take m X)")
        case True
        then show ?thesis using Some routes[OF True] tree_map_eqI[OF ok c, of "take m X" "take m X"] by simp
      next
        case False
        then have "\<not> has_route c (take m X) r" for r
          using child_byte_unique(2)[OF ok Some _ X b, of m r] by blast
        then have "tree_map c (take m X) = None" by (simp add: tree_map_None)
        then show ?thesis unfolding if_not_P[OF False] using Some by simp
      qed
    qed
  qed
  then have "lpm (\<lambda>cs. if n + 8 < length cs then tree_map s cs else None) X = lpm ?R X"
    by (intro lpm_cong)
  also have "\<dots> = (case s_children s b of None \<Rightarrow> None | Some c \<Rightarrow> lpm (tree_map c) X)"
    by (cases "s_children s b") (simp_all add: lpm_None_iff)
  finally show ?thesis .
qed

lemma lpm_no_match:
  assumes "tree_ok v4 s" "sbits s \<noteq> take (length (sbits s)) X"
  shows "lpm (tree_map s) X = None"
proof -
  have "\<not> has_route s (take m X) r" for m r
  proof
    assume "has_route s (take m X) r"
    then obtain q where q: "take m X = sbits s @ q" using has_route_extends[OF _ assms(1)] by blast
    then have "length (sbits s) \<le> m" by (metis le_add1 length_append length_take min.boundedE)
    then have "take (length (sbits s)) X = take (length (sbits s)) (take m X)" by (simp add: min_absorb1)
    then show False using q assms(2) by simp
  qed
  then show ?thesis by (simp add: lpm_None_iff tree_map_None)
qed

lemma stride_contains:
  assumes "tree_ok v4 s" "is_ipv4 addr = v4"
  shows "art_contains (s_prefix s) addr \<longleftrightarrow> sbits s = take (length (sbits s)) (addr_bits addr)"
  using tree_okD(1)[OF assms(1)] tree_ok_len(1)[OF assms(1)] assms(2)
  by (simp add: art_contains_pbits stride_prefix_ok_def sbits_def)

lemma get_loop_lpm:
  assumes "tree_ok v4 s" "is_ipv4 addr = v4"
  shows "\<exists>ms. get_loop addr s (length (sbits s) div 8) = Some ms \<and>
    8 * length ms + length (sbits s) \<le> length (addr_bits addr) \<and>
    pick addr ms = lpm (tree_map s) (addr_bits addr)"
  using assms(1)
proof (induction rule: tree_ok.induct)
  case (tree_okI s)
  have ok: "tree_ok v4 s" by (rule tree_ok.intros) (use tree_okI in auto)
  define n X where "n = length (sbits s)" and "X = addr_bits addr"
  note len = tree_ok_len[OF ok]
  have L: "length X = addr_len addr" "addr_len addr = (if v4 then 32 else 128)"
    using assms(2) by (simp_all add: X_def addr_len_def)
  have nX: "n + 8 \<le> length X" using len(3) L by (simp add: n_def)
  have n8: "8 * (n div 8) = n" using len(2) by (auto simp: n_def)
  define b where "b = byte_at (Art_Prefix addr 0) (n div 8)"
  have b: "addr_byte_at addr (n div 8) = Some b" "wbits b = take 8 (drop n X)"
    using addr_byte_at_prefix[of "n div 8" addr 0] byte_at_bits[of "n div 8" "Art_Prefix addr 0"] nX L n8
    by (simp_all add: b_def X_def)
  let ?here = "case s_entries s (host_index b) of Some r \<Rightarrow> [(s_prefix s, r)] | None \<Rightarrow> []"
  have here: "pick addr ?here = (if sbits s = take n X then s_entries s (host_index b) else None)"
    using stride_contains[OF ok assms(2)] by (simp add: pick_single n_def X_def split: option.split)
  have lpm: "lpm (tree_map s) X =
      (case (case s_children s b of None \<Rightarrow> None | Some c \<Rightarrow> lpm (tree_map c) X) of
         Some r \<Rightarrow> Some r | None \<Rightarrow> s_entries s (host_index b))" if m: "sbits s = take n X"
    using lpm_split[OF nX, of "tree_map s"] lpm_below[OF ok m n_def[symmetric] nX b(2)]
      local_lookup[OF ok m n_def nX b(2)]
    by (simp split: option.split)
  have no_match: "lpm (tree_map s) X = None" if "sbits s \<noteq> take n X"
    using lpm_no_match[OF ok, of X] that unfolding n_def by blast
  show ?case
  proof (cases "s_children s b")
    case None
    then have "get_loop addr s (n div 8) = Some ?here"
      using b(1) by (subst get_loop.simps) (simp add: get_val_and_child_def)
    moreover have "pick addr ?here = lpm (tree_map s) X"
      using here lpm None no_match by (cases "sbits s = take n X") simp_all
    moreover have "8 * length ?here + n \<le> length X" using nX by (simp split: option.split)
    ultimately show ?thesis unfolding n_def X_def by blast
  next
    case (Some c)
    have c: "tree_ok v4 c" "child_ok s b c" using tree_okD(4,5)[OF ok Some] by blast+
    obtain rest where rest: "get_loop addr c (length (sbits c) div 8) = Some rest"
        "8 * length rest + length (sbits c) \<le> length X" "pick addr rest = lpm (tree_map c) X"
      using tree_okI(6)[OF Some] by (auto simp: X_def)
    have "get_loop addr s (n div 8) = Some (?here @ rest)"
      using b(1) Some rest(1) tree_ok_len(1)[OF c(1)]
      by (subst get_loop.simps) (simp add: get_val_and_child_def)
    moreover have "8 * length (?here @ rest) + n \<le> length X"
      using rest(2) c(2) by (auto simp: n_def child_ok_def split: option.split)
    moreover have "pick addr (?here @ rest) = lpm (tree_map s) X"
    proof (cases "sbits s = take n X")
      case True
      then show ?thesis using lpm[OF True] Some here rest(3) by (simp add: pick_append split: option.split)
    next
      case False
      moreover have "sbits c \<noteq> take (length (sbits c)) X"
      proof
        assume eq: "sbits c = take (length (sbits c)) X"
        have "take n (sbits c) = sbits s" using c(2) by (auto simp: child_ok_def n_def)
        moreover have "n \<le> length (sbits c)" using c(2) by (auto simp: child_ok_def n_def)
        ultimately have "sbits s = take n X" using eq by (metis min.absorb1 take_take)
        then show False using False by simp
      qed
      ultimately show ?thesis
        using here rest(3) no_match lpm_no_match[OF c(1), of X] by (simp add: pick_append)
    qed
    ultimately show ?thesis unfolding n_def X_def by blast
  qed
qed

end
