(* ===== verification/Art_Update.thy ===== *)
theory Art_Update
  imports Art_Tree
begin

text \<open>
  Insertion into and deletion from a tree of strides keep it well formed and add or remove exactly
  one route.
\<close>

subsection \<open>Building well-formed trees\<close>

lemma sel_updates [simp]:
  "s_prefix (put_child a c s) = s_prefix s" "s_children (put_child a c s) = (s_children s)(a := Some c)"
  "s_entries (put_child a c s) = s_entries s" "s_child_refs (put_child a c s) = s_child_refs s"
  "s_route_refs (put_child a c s) = s_route_refs s"
  "s_prefix (set_child a c s) = s_prefix s" "s_children (set_child a c s) = (s_children s)(a := Some c)"
  "s_entries (set_child a c s) = s_entries s" "s_route_refs (set_child a c s) = s_route_refs s"
  "s_prefix (delete_child a s) = s_prefix s" "s_children (delete_child a s) = (s_children s)(a := None)"
  "s_entries (delete_child a s) = s_entries s" "s_route_refs (delete_child a s) = s_route_refs s"
  "s_prefix (set_prefix p s) = p" "s_children (set_prefix p s) = s_children s"
  "s_entries (set_prefix p s) = s_entries s" "s_route_refs (set_prefix p s) = s_route_refs s"
  "s_child_refs (set_prefix p s) = s_child_refs s"
  "s_prefix (stride_new p) = p" "s_children (stride_new p) = (\<lambda>_. None)" "s_child_refs (stride_new p) = 0"
  by (simp_all add: put_child_def set_child_def delete_child_def set_prefix_def stride_new_def)

lemma slocal_cong: "s_entries s' = s_entries s \<Longrightarrow> slocal s' = slocal s"
  by (simp add: slocal_def)

lemma sbits_cong: "s_prefix s' = s_prefix s \<Longrightarrow> sbits s' = sbits s"
  by (simp add: sbits_def)

lemma child_ok_same: "s_prefix s' = s_prefix s \<Longrightarrow> child_ok s' a c = child_ok s a c"
  by (simp add: child_ok_def sbits_def)

text \<open>A tree with the same prefix and entries as \<open>s\<close> and other children.\<close>

lemma tree_ok_children:
  assumes ok: "tree_ok v4 s" and same: "s_prefix s' = s_prefix s" "s_entries s' = s_entries s"
      "s_route_refs s' = s_route_refs s"
    and refs: "s_child_refs s' = card {a. s_children s' a \<noteq> None}"
    and ch: "\<And>a c. s_children s' a = Some c \<Longrightarrow> child_ok s a c \<and> tree_ok v4 c"
  shows "tree_ok v4 s'"
proof (rule tree_okI)
  show "stride_prefix_ok v4 (s_prefix s')" using tree_okD(1)[OF ok] same by simp
  show "stride_rep s' (slocal s')"
    using tree_okD(2)[OF ok] slocal_cong[OF same(2)] same by (simp add: stride_rep_def)
  show "child_ok s' a c" "tree_ok v4 c" if "s_children s' a = Some c" for a c
    using ch[OF that] child_ok_same[OF same(1)] by blast+
qed (rule refs)

lemma tree_ok_put_child:
  assumes "tree_ok v4 s" "s_children s a \<noteq> None" "tree_ok v4 c" "child_ok s a c"
  shows "tree_ok v4 (put_child a c s)"
proof (rule tree_ok_children[OF assms(1)])
  have "{b. s_children (put_child a c s) b \<noteq> None} = {b. s_children s b \<noteq> None}"
    using assms(2) by auto
  then show "s_child_refs (put_child a c s) = card {b. s_children (put_child a c s) b \<noteq> None}"
    using tree_okD(3)[OF assms(1)] by simp
  show "child_ok s b d \<and> tree_ok v4 d" if "s_children (put_child a c s) b = Some d" for b d
    using that assms tree_okD(4,5)[OF assms(1)] by (auto split: if_splits)
qed simp_all

lemma tree_ok_set_child:
  assumes "tree_ok v4 s" "tree_ok v4 c" "child_ok s a c"
  shows "tree_ok v4 (set_child a c s)"
proof (rule tree_ok_children[OF assms(1)])
  have "{b. s_children (set_child a c s) b \<noteq> None} = insert a {b. s_children s b \<noteq> None}" by auto
  then show "s_child_refs (set_child a c s) = card {b. s_children (set_child a c s) b \<noteq> None}"
    using tree_okD(3)[OF assms(1)] by (auto simp: set_child_def card_insert_if)
  show "child_ok s b d \<and> tree_ok v4 d" if "s_children (set_child a c s) b = Some d" for b d
    using that assms tree_okD(4,5)[OF assms(1)] by (auto split: if_splits)
qed simp_all

lemma tree_ok_delete_child:
  assumes "tree_ok v4 s"
  shows "tree_ok v4 (delete_child a s)"
proof (rule tree_ok_children[OF assms(1)])
  have "{b. s_children (delete_child a s) b \<noteq> None} = {b. s_children s b \<noteq> None} - {a}" by auto
  then show "s_child_refs (delete_child a s) = card {b. s_children (delete_child a s) b \<noteq> None}"
    using tree_okD(3)[OF assms(1)] by (auto simp: delete_child_def card_Diff_singleton_if)
  show "child_ok s b d \<and> tree_ok v4 d" if "s_children (delete_child a s) b = Some d" for b d
    using that assms tree_okD(4,5)[OF assms(1)] by (auto split: if_splits)
qed simp_all

lemma tree_ok_local:
  assumes ok: "tree_ok v4 s" and s': "stride_rep s' M" "s_prefix s' = s_prefix s" "s_children s' = s_children s"
    "s_child_refs s' = s_child_refs s"
  shows "tree_ok v4 s'"
proof (rule tree_okI)
  show "stride_prefix_ok v4 (s_prefix s')" using tree_okD(1)[OF ok] s'(2) by simp
  show "stride_rep s' (slocal s')" using s'(1) slocal_stride_rep[OF s'(1)] by simp
  show "s_child_refs s' = card {a. s_children s' a \<noteq> None}" using tree_okD(3)[OF ok] s'(3,4) by simp
  show "child_ok s' a c" "tree_ok v4 c" if "s_children s' a = Some c" for a c
    using that s'(2,3) tree_okD(4,5)[OF ok, of a c] child_ok_same[of s' s a c] by auto
qed

lemma slocal_new [simp]: "slocal (stride_new p) = (\<lambda>_. None)"
  by (auto simp: slocal_def local_routes_def stride_new_def has_prefix_rooted_at_def fun_eq_iff)

lemma tree_ok_new: "stride_prefix_ok v4 p \<Longrightarrow> tree_ok v4 (stride_new p)"
proof (rule tree_okI)
  show "stride_rep (stride_new p) (slocal (stride_new p))"
    using entries_rep_empty by (simp add: stride_rep_def) (simp add: stride_new_def)
qed simp_all

text \<open>The routes of a tree with one child replaced.\<close>

lemma has_route_children:
  assumes same: "s_prefix s' = s_prefix s" "s_entries s' = s_entries s"
    and ch: "\<And>b. b \<noteq> a \<Longrightarrow> s_children s' b = s_children s b"
  shows "has_route s' bs r \<longleftrightarrow>
    (\<exists>q. bs = sbits s @ q \<and> slocal s q = Some r) \<or>
    (\<exists>b c. b \<noteq> a \<and> s_children s b = Some c \<and> has_route c bs r) \<or>
    (\<exists>c. s_children s' a = Some c \<and> has_route c bs r)"
proof -
  have "(\<exists>b c. s_children s' b = Some c \<and> has_route c bs r) \<longleftrightarrow>
      (\<exists>b c. b \<noteq> a \<and> s_children s b = Some c \<and> has_route c bs r) \<or>
      (\<exists>c. s_children s' a = Some c \<and> has_route c bs r)"
    using ch by metis
  then show ?thesis by (subst has_route_iff) (simp add: slocal_cong[OF same(2)] sbits_cong[OF same(1)])
qed

lemma has_route_split:
  "has_route s bs r \<longleftrightarrow>
    (\<exists>q. bs = sbits s @ q \<and> slocal s q = Some r) \<or>
    (\<exists>b c. b \<noteq> a \<and> s_children s b = Some c \<and> has_route c bs r) \<or>
    (\<exists>c. s_children s a = Some c \<and> has_route c bs r)"
  by (rule has_route_children) simp_all

subsection \<open>Insertion\<close>

definition route_prefix_ok :: "bool \<Rightarrow> art_prefix \<Rightarrow> bool" where
  "route_prefix_ok v4 p \<longleftrightarrow> prefix_wf p \<and> masked p = p \<and> is_ipv4 (a_addr p) = v4"

definition inserted :: "bool \<Rightarrow> stride \<Rightarrow> stride \<Rightarrow> bool list \<Rightarrow> nat \<Rightarrow> bool" where
  "inserted v4 s s' b r \<longleftrightarrow> tree_ok v4 s' \<and> s_prefix s' = s_prefix s \<and>
     (slocal s [] = None \<longrightarrow> slocal s' [] = None) \<and>
     (\<forall>bs x. has_route s' bs x \<longleftrightarrow> has_route s bs x \<or> bs = b \<and> x = r)"

lemma byte_at_pbits:
  assumes "prefix_wf p" "8 * k + 8 \<le> a_bits p"
  shows "wbits (byte_at p k) = take 8 (drop (8 * k) (pbits p))"
  using byte_at_bits[of k p] assms by (simp add: pbits_def prefix_wf_def drop_take min_def)

definition final_byte :: "art_prefix \<Rightarrow> nat" where
  "final_byte p = (a_bits p - 1) div 8"

lemma final_byte_eq:
  assumes "n mod 8 = 0" "n < a_bits p" "a_bits p \<le> n + 8" shows "8 * final_byte p = n"
proof -
  have n: "8 * (n div 8) = n" using assms(1) by auto
  have "(a_bits p - 1) div 8 = n div 8"
  proof (rule div_nat_eqI)
    show "8 * (n div 8) \<le> a_bits p - 1" using n assms by linarith
    show "a_bits p - 1 < 8 * Suc (n div 8)" using n assms by simp
  qed
  then show ?thesis using n by (simp add: final_byte_def)
qed

lemma final_byte_bits:
  assumes wf: "prefix_wf p" and pos: "0 < a_bits p"
  shows "8 * final_byte p < a_bits p" "a_bits p - final_byte p * 8 \<le> 8"
    "take (a_bits p - final_byte p * 8) (wbits (byte_at p (final_byte p))) = drop (8 * final_byte p) (pbits p)"
proof -
  let ?k = "final_byte p"
  show k: "8 * ?k < a_bits p" "a_bits p - ?k * 8 \<le> 8" using pos by (simp_all add: final_byte_def)
  have "8 * ?k + 8 \<le> addr_len (a_addr p)"
    unfolding final_byte_def using wf pos
    by (intro byte_block_le) (auto simp: prefix_wf_def addr_len_def)
  then show "take (a_bits p - ?k * 8) (wbits (byte_at p ?k)) = drop (8 * ?k) (pbits p)"
    using byte_at_bits[of ?k p] k
    by (simp add: pbits_def drop_take min_absorb1 mult.commute)
qed

text \<open>A new route in the stride itself, with an entry that is not in use.\<close>

lemma local_insert:
  assumes ok: "tree_ok v4 s" and l: "l \<le> 8" "q = take l (wbits a)"
    and fresh: "\<And>bs. \<not> has_route s bs r" and new: "\<And>x. \<not> has_route s (sbits s @ q) x"
  obtains s' where "stride_insert a l r s = (s', None)" "tree_ok v4 s'" "s_prefix s' = s_prefix s"
    "slocal s' = (slocal s)(q \<mapsto> r)"
    "\<forall>bs x. has_route s' bs x \<longleftrightarrow> has_route s bs x \<or> bs = sbits s @ q \<and> x = r"
proof -
  have rep: "stride_rep s (slocal s)" by (rule tree_okD[OF ok])
  have "slocal s bs \<noteq> Some r" for bs using fresh has_route.here by blast
  then obtain s' where s': "stride_insert a l r s = (s', slocal s q)"
      "stride_rep s' ((slocal s)(q \<mapsto> r))" "s_prefix s' = s_prefix s" "s_children s' = s_children s"
      "s_child_refs s' = s_child_refs s"
    using stride_insert_rep[OF rep l] by blast
  have none: "slocal s q = None" using new has_route.here[of s q] by (cases "slocal s q") blast+
  have sl: "slocal s' = (slocal s)(q \<mapsto> r)" by (rule slocal_stride_rep[OF s'(2)])
  have "tree_ok v4 s'" using tree_ok_local[OF ok s'(2-5)] .
  moreover have "has_route s' bs x \<longleftrightarrow> has_route s bs x \<or> bs = sbits s @ q \<and> x = r" for bs x
  proof -
    have "((slocal s)(q \<mapsto> r)) q' = Some x \<longleftrightarrow> slocal s q' = Some x \<or> q' = q \<and> x = r" for q'
      using none by auto
    then show ?thesis
      using has_route_iff[of s bs x] has_route_iff[of s' bs x] unfolding sl s'(4) sbits_cong[OF s'(3)] by blast
  qed
  ultimately show ?thesis using that[of s'] s'(1,3) none sl by simp
qed

lemma leaf_insert:
  assumes ok: "tree_ok v4 s" and p: "route_prefix_ok v4 p" "0 < a_bits p"
    and s: "sbits s = take (8 * final_byte p) (pbits p)"
    and fresh: "\<And>bs. \<not> has_route s bs r" and new: "\<And>x. \<not> has_route s (pbits p) x"
  obtains s' where
    "stride_insert (byte_at p (final_byte p)) (a_bits p - final_byte p * 8) r s = (s', None)"
    "inserted v4 s s' (pbits p) r"
proof -
  let ?q = "drop (8 * final_byte p) (pbits p)"
  have wf: "prefix_wf p" using p by (simp add: route_prefix_ok_def)
  note fb = final_byte_bits[OF wf p(2)]
  have q: "sbits s @ ?q = pbits p" "?q \<noteq> []" using s fb(1) wf by simp_all
  have new': "\<not> has_route s (sbits s @ ?q) x" for x using new q(1) by simp
  from local_insert[OF ok fb(2) fb(3)[symmetric] fresh new'] obtain s' where
    "stride_insert (byte_at p (final_byte p)) (a_bits p - final_byte p * 8) r s = (s', None)" "tree_ok v4 s'"
    "s_prefix s' = s_prefix s" "slocal s' = (slocal s)(?q \<mapsto> r)"
    "\<forall>bs x. has_route s' bs x \<longleftrightarrow> has_route s bs x \<or> bs = sbits s @ ?q \<and> x = r" .
  then show ?thesis using that[of s'] q by (simp add: inserted_def)
qed

text \<open>A new child that holds just the new route, under the byte of the prefix.\<close>

lemma new_child:
  assumes p: "route_prefix_ok v4 p" "0 < a_bits p"
  obtains c where
    "stride_insert (byte_at p (final_byte p)) (a_bits p - final_byte p * 8) r
       (set_prefix (prefix_at_byte_boundary p (final_byte p * 8)) (stride_new q)) = (c, None)"
    "tree_ok v4 c" "sbits c = take (8 * final_byte p) (pbits p)" "slocal c [] = None"
    "\<And>bs x. has_route c bs x \<longleftrightarrow> bs = pbits p \<and> x = r"
proof -
  let ?f = "prefix_at_byte_boundary p (final_byte p * 8)"
  have wf: "prefix_wf p" using p by (simp add: route_prefix_ok_def)
  note fb = final_byte_bits[OF wf p(2)]
  have "final_byte p * 8 \<le> a_bits p" using fb(1) by simp
  note b = prefix_at_byte_boundary_bits[OF wf this]
  have "addr_len (a_addr ?f) = addr_len (a_addr p)" using b(2) by (simp add: addr_len_def)
  then have ok: "stride_prefix_ok v4 ?f"
    using b fb(1) p wf by (auto simp: stride_prefix_ok_def route_prefix_ok_def prefix_wf_def)
  have new: "set_prefix ?f (stride_new q) = stride_new ?f" by (simp add: set_prefix_def stride_new_def)
  have no: "\<not> has_route (stride_new ?f) bs x" for bs x by (subst has_route_iff) simp
  have sb: "sbits (stride_new ?f) = take (8 * final_byte p) (pbits p)"
    using b(4) by (simp add: sbits_def mult.commute)
  obtain c where "stride_insert (byte_at p (final_byte p)) (a_bits p - final_byte p * 8) r (stride_new ?f) = (c, None)"
      "inserted v4 (stride_new ?f) c (pbits p) r"
    using leaf_insert[OF tree_ok_new[OF ok] p sb no no] by blast
  then show ?thesis using that[of c] no sb sbits_cong[of c "stride_new ?f"]
    by (auto simp: inserted_def new)
qed

lemma take_byte_split:
  assumes "n + 8 \<le> N" shows "\<exists>q. take N xs = take n xs @ take 8 (drop n xs) @ q"
proof -
  obtain m where "N = (n + 8) + m" using assms le_Suc_ex by blast
  then have "take N xs = take n xs @ take 8 (drop n xs) @ take m (drop (n + 8) xs)"
    by (simp only: take_add append_assoc)
  then show ?thesis by blast
qed

lemma add_child:
  assumes ok: "tree_ok v4 s" and p: "route_prefix_ok v4 p" and n: "n = length (sbits s)" "n + 8 < a_bits p"
    and s: "sbits s = take n (pbits p)" and none: "s_children s (byte_at p (n div 8)) = None"
  defines "a \<equiv> byte_at p (n div 8)"
  obtains s1 c d s' where "get_or_create_child a s = (s1, c, True)"
    "stride_insert (byte_at p (final_byte p)) (a_bits p - final_byte p * 8) r
       (set_prefix (prefix_at_byte_boundary p (final_byte p * 8)) c) = (d, None)"
    "s' = put_child a d s1" "inserted v4 s s' (pbits p) r"
proof -
  have wf: "prefix_wf p" using p by (simp add: route_prefix_ok_def)
  have n8: "8 * (n div 8) = n" using tree_ok_len(2)[OF ok] n(1) by auto
  let ?c = "stride_new (child_prefix_of (s_prefix s) a)"
  obtain d where d: "stride_insert (byte_at p (final_byte p)) (a_bits p - final_byte p * 8) r
       (set_prefix (prefix_at_byte_boundary p (final_byte p * 8)) ?c) = (d, None)"
      "tree_ok v4 d" "sbits d = take (8 * final_byte p) (pbits p)" "slocal d [] = None"
      "\<And>bs x. has_route d bs x \<longleftrightarrow> bs = pbits p \<and> x = r"
    using new_child[OF p, of r "child_prefix_of (s_prefix s) a"] n(2) by auto
  have wa: "wbits a = take 8 (drop n (pbits p))" using byte_at_pbits[OF wf, of "n div 8"] n8 n(2) by (simp add: a_def)
  have "n + 8 \<le> 8 * final_byte p" using n8 n(2) by (simp add: final_byte_def) presburger
  from take_byte_split[OF this, of "pbits p"] have child: "child_ok s a d"
    using d(3,4) s wa by (auto simp: child_ok_def)
  let ?s1 = "Stride (s_prefix s) (s_entries s) ((s_children s)(a := Some ?c)) (s_route_refs s) (s_child_refs s + 1)"
  have g: "get_or_create_child a s = (?s1, ?c, True)" using none by (simp add: get_or_create_child_def a_def Let_def)
  have eq: "put_child a d ?s1 = set_child a d s" using none by (simp add: put_child_def set_child_def a_def)
  have "inserted v4 s (set_child a d s) (pbits p) r"
    unfolding inserted_def
  proof (intro conjI allI)
    show "tree_ok v4 (set_child a d s)" by (rule tree_ok_set_child[OF ok d(2) child])
    show "s_prefix (set_child a d s) = s_prefix s" by simp
    show "slocal s [] = None \<longrightarrow> slocal (set_child a d s) [] = None" using slocal_cong[of "set_child a d s" s] by simp
    fix bs x
    show "has_route (set_child a d s) bs x \<longleftrightarrow> has_route s bs x \<or> bs = pbits p \<and> x = r"
      using has_route_children[of "set_child a d s" s a bs x] has_route_split[of s bs x a] none d(5)
      by (simp add: a_def)
  qed
  then show ?thesis using that[OF g d(1)] eq by metis
qed

lemma replace_child:
  assumes ok: "tree_ok v4 s" and c: "s_children s a = Some c" "tree_ok v4 c'" "child_ok s a c'"
    and routes: "\<And>bs x. has_route c' bs x \<longleftrightarrow> has_route c bs x \<or> bs = b \<and> x = r"
  shows "inserted v4 s (put_child a c' s) b r"
  unfolding inserted_def
proof (intro conjI allI)
  show "tree_ok v4 (put_child a c' s)" using tree_ok_put_child[OF ok _ c(2,3)] c(1) by simp
  show "slocal s [] = None \<longrightarrow> slocal (put_child a c' s) [] = None" using slocal_cong[of "put_child a c' s" s] by simp
  fix bs x
  show "has_route (put_child a c' s) bs x \<longleftrightarrow> has_route s bs x \<or> bs = b \<and> x = r"
    using has_route_children[of "put_child a c' s" s a bs x] has_route_split[of s bs x a] c(1) routes
    by simp
qed simp

text \<open>
  The intermediate stride that \<open>insert_into\<close> puts above an existing child whose prefix does not
  contain the new one.
\<close>

lemma intermediate_stride:
  assumes c: "tree_ok v4 c" "slocal c [] = None" and p: "route_prefix_ok v4 p" "0 < a_bits p"
    and pos: "0 < length (sbits c)" and ncont: "\<not> prefix_strictly_contains (s_prefix c) p"
  obtains k x y where "compute_prefix_split (s_prefix c) p = (prefix_at_byte_boundary (s_prefix c) (8 * k), x, y)"
    "y = byte_at p k" "8 * k < a_bits p" "8 < a_bits p - 8 * k \<longrightarrow> x \<noteq> y"
    "tree_ok v4 (set_child x c (stride_new (prefix_at_byte_boundary (s_prefix c) (8 * k))))"
    "pbits (prefix_at_byte_boundary (s_prefix c) (8 * k)) = take (8 * k) (pbits p)"
    "a_bits (prefix_at_byte_boundary (s_prefix c) (8 * k)) = 8 * k"
    "\<forall>j. j < length (sbits c) \<longrightarrow> j < a_bits p \<longrightarrow> take j (sbits c) = take j (pbits p) \<longrightarrow> j div 8 \<le> k"
proof -
  have cp: "stride_prefix_ok v4 (s_prefix c)" by (rule tree_okD[OF c(1)])
  note clen = tree_ok_len[OF c(1)]
  have wf: "prefix_wf (s_prefix c)" "prefix_wf p" "masked (s_prefix c) = s_prefix c" "masked p = p"
      "is_ipv4 (a_addr (s_prefix c)) = is_ipv4 (a_addr p)" "0 < a_bits (s_prefix c)"
    using cp p pos clen by (auto simp: stride_prefix_ok_def route_prefix_ok_def)
  obtain k where k: "compute_prefix_split (s_prefix c) p =
        (prefix_at_byte_boundary (s_prefix c) (8 * k), byte_at (s_prefix c) k, byte_at p k)"
      "8 * k < a_bits (s_prefix c)" "8 * k < a_bits p" "take (8 * k) (pbits (s_prefix c)) = take (8 * k) (pbits p)"
      "8 < a_bits p - 8 * k \<Longrightarrow> byte_at (s_prefix c) k \<noteq> byte_at p k"
      "\<And>j. j < a_bits (s_prefix c) \<Longrightarrow> j < a_bits p \<Longrightarrow> take j (pbits (s_prefix c)) = take j (pbits p) \<Longrightarrow> j div 8 \<le> k"
    by (rule compute_prefix_split_spec[OF wf(1,2,5,3,4,6) p(2) ncont]) blast
  let ?I = "prefix_at_byte_boundary (s_prefix c) (8 * k)"
  note I = prefix_at_byte_boundary_bits[OF wf(1) less_imp_le[OF k(2)]]
  have "addr_len (a_addr ?I) = addr_len (a_addr (s_prefix c))" using I(2) by (simp add: addr_len_def)
  then have "stride_prefix_ok v4 ?I" using I cp k(2) by (auto simp: stride_prefix_ok_def)
  then have new: "tree_ok v4 (stride_new ?I)" by (rule tree_ok_new)
  have "8 * k + 8 \<le> a_bits (s_prefix c)" using k(2) clen(1,2) by presburger
  then have "wbits (byte_at (s_prefix c) k) = take 8 (drop (8 * k) (sbits c))"
    and "\<exists>q. take (length (sbits c)) (sbits c) = take (8 * k) (sbits c) @ take 8 (drop (8 * k) (sbits c)) @ q"
    using byte_at_pbits[OF wf(1), of k] take_byte_split[of "8 * k" "length (sbits c)" "sbits c"] clen(1)
    by (simp_all only: sbits_def)
  then have "child_ok (stride_new ?I) (byte_at (s_prefix c) k) c"
    using c(2) I(4) by (auto simp: child_ok_def sbits_def)
  note im = tree_ok_set_child[OF new c(1) this]
  show ?thesis
  proof (rule that[OF k(1) refl k(3) _ im _ I(1)])
    show "pbits ?I = take (8 * k) (pbits p)" using I(4) k(4) by simp
    show "8 < a_bits p - 8 * k \<longrightarrow> byte_at (s_prefix c) k \<noteq> byte_at p k" using k(5) by blast
    show "\<forall>j. j < length (sbits c) \<longrightarrow> j < a_bits p \<longrightarrow> take j (sbits c) = take j (pbits p) \<longrightarrow> j div 8 \<le> k"
      using k(6) clen(1) by (simp add: sbits_def)
  qed
qed

lemma intermediate_routes:
  "has_route (set_child x c (stride_new q)) bs r \<longleftrightarrow> has_route c bs r"
  using has_route_children[of "set_child x c (stride_new q)" "stride_new q" x bs r] by simp

text \<open>The intermediate stride with the new route in it, directly or in a child of its own.\<close>

lemma intermediate_insert:
  assumes c: "tree_ok v4 c" "slocal c [] = None" and p: "route_prefix_ok v4 p" "0 < a_bits p"
    and ncont: "\<not> prefix_strictly_contains (s_prefix c) p"
    and n: "n mod 8 = 0" "n + 8 < a_bits p" "take (n + 8) (sbits c) = take (n + 8) (pbits p)" "n + 8 \<le> length (sbits c)"
    and fresh: "\<And>bs. \<not> has_route c bs r" "\<And>x. \<not> has_route c (pbits p) x"
  obtains I x y im where "compute_prefix_split (s_prefix c) p = (I, x, y)"
    "(if a_bits p - a_bits I \<le> 8 then
        stride_insert (byte_at p (final_byte p)) (a_bits p - final_byte p * 8) r (set_child x c (stride_new I))
      else let (s1, nc, created) = get_or_create_child y (set_child x c (stride_new I));
               (nc, result) = stride_insert (byte_at p (final_byte p)) (a_bits p - final_byte p * 8) r
                 (set_prefix (prefix_at_byte_boundary p (final_byte p * 8)) nc)
           in (put_child y nc s1, result)) = (im, None)"
    "tree_ok v4 im" "slocal im [] = None" "\<exists>q. sbits im = take n (pbits p) @ take 8 (drop n (pbits p)) @ q"
    "\<forall>bs x. has_route im bs x \<longleftrightarrow> has_route c bs x \<or> bs = pbits p \<and> x = r"
proof -
  let ?ins = "stride_insert (byte_at p (final_byte p)) (a_bits p - final_byte p * 8) r"
  let ?f = "prefix_at_byte_boundary p (final_byte p * 8)"
  have wf: "prefix_wf p" using p by (simp add: route_prefix_ok_def)
  have "0 < length (sbits c)" using n(4) by auto
  from intermediate_stride[OF c p this ncont] obtain k x y where
    k: "compute_prefix_split (s_prefix c) p = (prefix_at_byte_boundary (s_prefix c) (8 * k), x, y)"
      "y = byte_at p k" "8 * k < a_bits p" "8 < a_bits p - 8 * k \<longrightarrow> x \<noteq> y"
      "tree_ok v4 (set_child x c (stride_new (prefix_at_byte_boundary (s_prefix c) (8 * k))))"
      "pbits (prefix_at_byte_boundary (s_prefix c) (8 * k)) = take (8 * k) (pbits p)"
      "a_bits (prefix_at_byte_boundary (s_prefix c) (8 * k)) = 8 * k"
      "\<forall>j. j < length (sbits c) \<longrightarrow> j < a_bits p \<longrightarrow> take j (sbits c) = take j (pbits p) \<longrightarrow> j div 8 \<le> k" .
  define I where "I = prefix_at_byte_boundary (s_prefix c) (8 * k)"
  define im where "im = set_child x c (stride_new I)"
  note k = k[folded I_def, folded im_def]
  have "length (sbits c) \<noteq> n + 8"
  proof
    assume l: "length (sbits c) = n + 8"
    have "stride_prefix_ok v4 (s_prefix c)" by (rule tree_okD[OF c(1)])
    then show False
      using ncont wf n(2,3) p(1) tree_ok_len(1)[OF c(1)] l
      by (simp add: prefix_strictly_contains_iff stride_prefix_ok_def sbits_def route_prefix_ok_def)
  qed
  then have "(n + 8) div 8 \<le> k" using k(8)[rule_format, of "n + 8"] n by simp
  then have kn: "n + 8 \<le> 8 * k" using n(1) by presburger
  have sb: "sbits im = take (8 * k) (pbits p)" using k(6) by (simp add: sbits_def im_def)
  have fresh': "\<not> has_route im bs r" "\<not> has_route im (pbits p) z" for bs z
    using fresh by (simp_all add: intermediate_routes im_def)
  have sl: "slocal im [] = None" using slocal_cong[of im "stride_new I"] by (simp add: im_def)
  obtain im' where im': "(if a_bits p - a_bits I \<le> 8 then ?ins im
      else let (s1, nc, created) = get_or_create_child y im; (nc, result) = ?ins (set_prefix ?f nc)
           in (put_child y nc s1, result)) = (im', None)" "inserted v4 im im' (pbits p) r"
  proof (cases "a_bits p - 8 * k \<le> 8")
    case True
    then have "8 * final_byte p = 8 * k" using final_byte_eq[of "8 * k" p] k(3) by simp
    then have "sbits im = take (8 * final_byte p) (pbits p)" using sb by simp
    from leaf_insert[OF k(5) p this fresh'] obtain s' where "?ins im = (s', None)" "inserted v4 im s' (pbits p) r" .
    then show ?thesis using that[of s'] True k(7) by simp
  next
    case False
    then have "8 * k = length (sbits im)" "8 * k + 8 < a_bits p" "s_children im (byte_at p (8 * k div 8)) = None"
      using k(2-4) sb wf by (auto simp: min_absorb2 im_def)
    from add_child[OF k(5) p(1) this(1,2) sb this(3)] obtain s1 e d s' where
        "get_or_create_child (byte_at p (8 * k div 8)) im = (s1, e, True)" "?ins (set_prefix ?f e) = (d, None)"
        "s' = put_child (byte_at p (8 * k div 8)) d s1" "inserted v4 im s' (pbits p) r" .
    then show ?thesis using that[of s'] False k(2,7) by simp
  qed
  have "sbits im' = sbits im" using im'(2) sbits_cong[of im' im] by (auto simp: inserted_def)
  then have "\<exists>q. sbits im' = take n (pbits p) @ take 8 (drop n (pbits p)) @ q"
    using take_byte_split[OF kn, of "pbits p"] sb by simp
  then show ?thesis
    using that[OF k(1) im'(1)[unfolded im_def]] im'(2) sl by (simp add: inserted_def im_def intermediate_routes)
qed

lemma insert_loop_leaf:
  "br \<le> 8 \<Longrightarrow> insert_loop p r fb fbits f s bi br = stride_insert (byte_at p fb) fbits r s"
  by (subst insert_loop.simps) simp

lemma insert_loop_absent:
  assumes "8 < br" "s_children s (byte_at p bi) = None"
    and "get_or_create_child (byte_at p bi) s = (s1, c, True)"
    and "stride_insert (byte_at p fb) fbits r (set_prefix f c) = (d, None)"
  shows "insert_loop p r fb fbits f s bi br = (put_child (byte_at p bi) d s1, None)"
  using assms by (subst insert_loop.simps) (simp add: Let_def)

lemma insert_loop_descend:
  assumes "8 < br" "s_children s (byte_at p bi) = Some c" "prefix_strictly_contains (s_prefix c) p"
    and "insert_loop p r fb fbits f c (a_bits (s_prefix c) div 8) (a_bits p - a_bits (s_prefix c)) = (c', None)"
  shows "insert_loop p r fb fbits f s bi br = (put_child (byte_at p bi) c' s, None)"
  using assms by (subst insert_loop.simps) (simp add: Let_def)

lemma insert_loop_split:
  assumes "8 < br" "s_children s (byte_at p bi) = Some c" "\<not> prefix_strictly_contains (s_prefix c) p"
    and "compute_prefix_split (s_prefix c) p = (I, x, y)"
    and "(if a_bits p - a_bits I \<le> 8 then stride_insert (byte_at p fb) fbits r (set_child x c (stride_new I))
      else let (s1, nc, created) = get_or_create_child y (set_child x c (stride_new I));
               (nc, result) = stride_insert (byte_at p fb) fbits r (set_prefix f nc)
           in (put_child y nc s1, result)) = (im, None)"
  shows "insert_loop p r fb fbits f s bi br = (put_child (byte_at p bi) im s, None)"
  using assms by (subst insert_loop.simps) (simp add: Let_def split: if_splits prod.splits)

lemma insert_loop_ok:
  assumes "tree_ok v4 s" and p: "route_prefix_ok v4 p" "0 < a_bits p"
    and "sbits s = take (length (sbits s)) (pbits p)" "length (sbits s) < a_bits p"
    and "\<And>bs. \<not> has_route s bs r" "\<And>x. \<not> has_route s (pbits p) x"
  shows "\<exists>s'. insert_loop p r (final_byte p) (a_bits p - final_byte p * 8)
      (prefix_at_byte_boundary p (final_byte p * 8)) s (length (sbits s) div 8) (a_bits p - length (sbits s)) =
      (s', None) \<and> inserted v4 s s' (pbits p) r"
  using assms(1,4-)
proof (induction rule: tree_ok.induct)
  case (tree_okI s)
  have ok: "tree_ok v4 s" by (rule tree_ok.intros) (use tree_okI in auto)
  let ?ins = "stride_insert (byte_at p (final_byte p)) (a_bits p - final_byte p * 8) r"
  let ?f = "prefix_at_byte_boundary p (final_byte p * 8)"
  define n where "n = length (sbits s)"
  note prems = tree_okI.prems
  have n: "n < a_bits p" "n mod 8 = 0" "sbits s = take n (pbits p)"
    unfolding n_def using prems(1,2) tree_ok_len(2)[OF ok] by blast+
  have wf: "prefix_wf p" using p by (simp add: route_prefix_ok_def)
  define a where "a = byte_at p (n div 8)"
  note eqs = insert_loop_leaf insert_loop_absent[where p = p and bi = "n div 8", folded a_def]
    insert_loop_descend[where p = p and bi = "n div 8", folded a_def]
    insert_loop_split[where p = p and bi = "n div 8", folded a_def]
  consider (leaf) "a_bits p - n \<le> 8" | (absent) "8 < a_bits p - n" "s_children s a = None"
    | (child) c where "8 < a_bits p - n" "s_children s a = Some c" by fastforce
  then have "\<exists>s'. insert_loop p r (final_byte p) (a_bits p - final_byte p * 8) ?f s (n div 8) (a_bits p - n) =
      (s', None) \<and> inserted v4 s s' (pbits p) r"
  proof cases
    case leaf
    then have "8 * final_byte p = n" using final_byte_eq[of n p] n(1,2) by simp
    then have "sbits s = take (8 * final_byte p) (pbits p)" using n(3) by (simp only:)
    from leaf_insert[OF ok p this prems(3,4)] obtain s' where "?ins s = (s', None)" "inserted v4 s s' (pbits p) r" .
    then show ?thesis unfolding eqs(1)[OF leaf] by blast
  next
    case absent
    then have "n + 8 < a_bits p" by simp
    from add_child[OF ok p(1) n_def this n(3) absent(2)[unfolded a_def], of r, folded a_def]
    obtain s1 c d s' where d: "get_or_create_child a s = (s1, c, True)" "?ins (set_prefix ?f c) = (d, None)"
      "s' = put_child a d s1" "inserted v4 s s' (pbits p) r" .
    then show ?thesis using eqs(2)[OF absent d(1,2)] by blast
  next
    case child
    then have big: "n + 8 < a_bits p" by simp
    have c: "tree_ok v4 c" "child_ok s a c" using tree_okD(4,5)[OF ok child(2)] by blast+
    have "8 * (n div 8) = n" using n(2) by auto
    then have wa: "wbits a = take 8 (drop n (pbits p))"
      using byte_at_pbits[OF wf, of "n div 8"] big by (simp add: a_def)
    have fresh: "\<not> has_route c bs r" "\<not> has_route c (pbits p) x" for bs x
      using prems(3,4) has_route.below[OF child(2)] by blast+
    show ?thesis
    proof (cases "prefix_strictly_contains (s_prefix c) p")
      case True
      have "stride_prefix_ok v4 (s_prefix c)" by (rule tree_okD[OF c(1)])
      then have "sbits c = take (length (sbits c)) (pbits p)" "length (sbits c) < a_bits p"
        using True wf tree_ok_len(1)[OF c(1)]
        by (simp_all add: prefix_strictly_contains_iff stride_prefix_ok_def sbits_def)
      from tree_okI(6)[OF child(2) this fresh] obtain c' where c': "insert_loop p r (final_byte p)
          (a_bits p - final_byte p * 8) ?f c (a_bits (s_prefix c) div 8) (a_bits p - a_bits (s_prefix c)) = (c', None)"
          "inserted v4 c c' (pbits p) r" unfolding tree_ok_len(1)[OF c(1)] by blast
      have "inserted v4 s (put_child a c' s) (pbits p) r"
        using c'(2) c(2) sbits_cong[of c' c]
        by (intro replace_child[OF ok child(2)]) (auto simp: inserted_def child_ok_def)
      then show ?thesis using eqs(3)[OF child True c'(1)] by blast
    next
      case False
      have c0: "slocal c [] = None" using c(2) by (simp add: child_ok_def)
      obtain q where "sbits c = sbits s @ wbits a @ q" using c(2) by (auto simp: child_ok_def)
      then have "sbits c = take (n + 8) (pbits p) @ q" unfolding n(3) wa take_add by simp
      then have sc: "take (n + 8) (sbits c) = take (n + 8) (pbits p)" "n + 8 \<le> length (sbits c)"
        using big wf by simp_all
      from intermediate_insert[OF c(1) c0 p False n(2) big sc fresh] obtain I x y im where
        im: "compute_prefix_split (s_prefix c) p = (I, x, y)"
          "(if a_bits p - a_bits I \<le> 8 then ?ins (set_child x c (stride_new I))
            else let (s1, nc, created) = get_or_create_child y (set_child x c (stride_new I));
                     (nc, result) = ?ins (set_prefix ?f nc) in (put_child y nc s1, result)) = (im, None)"
          "tree_ok v4 im" "slocal im [] = None" "\<exists>q. sbits im = take n (pbits p) @ take 8 (drop n (pbits p)) @ q"
          "\<forall>bs x. has_route im bs x \<longleftrightarrow> has_route c bs x \<or> bs = pbits p \<and> x = r" .
      have "child_ok s a im" unfolding child_ok_def n(3) wa using im(4,5) by blast
      from replace_child[OF ok child(2) im(3) this im(6)[rule_format]] show ?thesis
        using eqs(4)[OF child False im(1,2)] by blast
    qed
  qed
  then show ?case unfolding n_def .
qed

lemma insert_into_ok:
  assumes ok: "tree_ok v4 s" "sbits s = []" and p: "route_prefix_ok v4 p"
    and fresh: "\<And>bs. \<not> has_route s bs r" and new: "\<And>x. \<not> has_route s (pbits p) x"
  obtains s' where "insert_into s p r = (s', None)" "tree_ok v4 s'" "sbits s' = []"
    "\<forall>bs x. has_route s' bs x \<longleftrightarrow> has_route s bs x \<or> bs = pbits p \<and> x = r"
proof (cases "a_bits p = 0")
  case True
  then have "pbits p = []" by (simp add: pbits_def)
  then have new': "\<not> has_route s (sbits s @ []) x" for x using new ok(2) by simp
  have z: "(0 :: nat) \<le> 8" "[] = take 0 (wbits (0 :: u8))" by simp_all
  from local_insert[OF ok(1) z fresh new'] obtain s' where "stride_insert 0 0 r s = (s', None)" "tree_ok v4 s'"
    "s_prefix s' = s_prefix s" "\<forall>bs x. has_route s' bs x \<longleftrightarrow> has_route s bs x \<or> bs = sbits s @ [] \<and> x = r"
    by metis
  then show ?thesis using that[of s'] True \<open>pbits p = []\<close> ok(2) by (simp add: insert_into_def sbits_def)
next
  case False
  then have "0 < a_bits p" "sbits s = take (length (sbits s)) (pbits p)" "length (sbits s) < a_bits p"
    using ok(2) by simp_all
  from insert_loop_ok[OF ok(1) p this fresh new] obtain s' where
    "insert_loop p r (final_byte p) (a_bits p - final_byte p * 8)
      (prefix_at_byte_boundary p (final_byte p * 8)) s 0 (a_bits p) = (s', None)" "inserted v4 s s' (pbits p) r"
    using ok(2) by auto
  then show ?thesis using that[of s'] False ok(2)
    by (simp add: insert_into_def Let_def final_byte_def inserted_def sbits_def)
qed

end
