(* ===== verification/Art_Delete.thy ===== *)
theory Art_Delete
  imports Art_Update
begin

text \<open>
  Deletion from a tree of strides: the descent removes exactly one route, and the clean-up of the
  path removes strides without losing any of the others.
\<close>

definition deleted :: "bool \<Rightarrow> stride \<Rightarrow> stride \<Rightarrow> bool list \<Rightarrow> bool" where
  "deleted v4 s s' b \<longleftrightarrow> tree_ok v4 s' \<and> s_prefix s' = s_prefix s \<and>
     (slocal s [] = None \<longrightarrow> slocal s' [] = None) \<and>
     (\<forall>bs x. has_route s' bs x \<longleftrightarrow> has_route s bs x \<and> bs \<noteq> b)"

fun path_in :: "u8 list \<Rightarrow> stride \<Rightarrow> bool" where
  "path_in [] s \<longleftrightarrow> True"
| "path_in (a # rest) s \<longleftrightarrow> (\<exists>c. s_children s a = Some c \<and> path_in rest c)"

lemma local_delete:
  assumes ok: "tree_ok v4 s" and l: "l \<le> 8" "q = take l (wbits a)" and r: "slocal s q = Some r"
  obtains s' where "stride_delete a l s = Some (s', r)" "deleted v4 s s' (sbits s @ q)"
proof -
  from stride_delete_rep[OF tree_okD(2)[OF ok] l r] obtain s' where
    s': "stride_delete a l s = Some (s', r)" "stride_rep s' ((slocal s)(q := None))" "s_prefix s' = s_prefix s"
      "s_children s' = s_children s" "s_child_refs s' = s_child_refs s" .
  have sl: "slocal s' = (slocal s)(q := None)" by (rule slocal_stride_rep[OF s'(2)])
  have "\<not> has_route c (sbits s @ q) x" if c: "s_children s b = Some c" for b c x
  proof
    assume "has_route c (sbits s @ q) x"
    from child_route[OF ok c this] obtain q' where "q = wbits b @ q'" "q' \<noteq> []" by auto
    moreover have "length q \<le> 8" by (simp add: l(2))
    ultimately show False by simp
  qed
  moreover have "(\<exists>q'. bs = sbits s @ q' \<and> ((slocal s)(q := None)) q' = Some x) \<longleftrightarrow>
      (\<exists>q'. bs = sbits s @ q' \<and> slocal s q' = Some x) \<and> bs \<noteq> sbits s @ q" for bs x by auto
  ultimately have "has_route s' bs x \<longleftrightarrow> has_route s bs x \<and> bs \<noteq> sbits s @ q" for bs x
    by (subst (1 2) has_route_iff, unfold sl s'(4) sbits_cong[OF s'(3)]) metis
  then show ?thesis using that[OF s'(1)] tree_ok_local[OF ok s'(2-5)] s'(3) sl by (simp add: deleted_def)
qed

lemma delete_child_route:
  assumes ok: "tree_ok v4 s" and c: "s_children s a = Some c" and d: "deleted v4 c c' b"
    and own: "\<And>q. b = sbits s @ q \<Longrightarrow> slocal s q = None"
    and others: "\<And>a' c'' x. s_children s a' = Some c'' \<Longrightarrow> has_route c'' b x \<Longrightarrow> a' = a"
  shows "deleted v4 s (put_child a c' s) b"
proof -
  have "child_ok s a c" by (rule tree_okD(4)[OF ok c])
  then have "child_ok s a c'" using d sbits_cong[of c' c] by (auto simp: deleted_def child_ok_def)
  then have "tree_ok v4 (put_child a c' s)" using d c by (intro tree_ok_put_child[OF ok]) (auto simp: deleted_def)
  moreover have "has_route (put_child a c' s) bs x \<longleftrightarrow> has_route s bs x \<and> bs \<noteq> b" for bs x
  proof (cases "bs = b")
    case True
    have "\<not> has_route c' b x" using d by (simp add: deleted_def)
    then show ?thesis
      using has_route_children[of "put_child a c' s" s a b x] own others True by (simp, metis option.distinct(1))
  next
    case False
    then have "has_route c' bs x \<longleftrightarrow> has_route c bs x" using d by (simp add: deleted_def)
    then show ?thesis
      using has_route_children[of "put_child a c' s" s a bs x] has_route_split[of s bs x a] c False by simp
  qed
  ultimately show ?thesis using slocal_cong[of "put_child a c' s" s] by (simp add: deleted_def)
qed

lemma delete_loop_ok:
  assumes "tree_ok v4 s" and p: "route_prefix_ok v4 p" "0 < a_bits p"
    and "sbits s = take (length (sbits s)) (pbits p)" "length (sbits s) < a_bits p"
    and "has_route s (pbits p) r"
  shows "\<exists>s' path. delete_loop p s (length (sbits s) div 8) (a_bits p - length (sbits s)) = Some (s', path, r) \<and>
    deleted v4 s s' (pbits p) \<and> path_in path s'"
  using assms(1,4-)
proof (induction rule: tree_ok.induct)
  case (tree_okI s)
  have ok: "tree_ok v4 s" by (rule tree_ok.intros) (use tree_okI in auto)
  define n where "n = length (sbits s)"
  note prems = tree_okI.prems
  have n: "n < a_bits p" "n mod 8 = 0" "sbits s = take n (pbits p)"
    unfolding n_def using prems(1,2) tree_ok_len(2)[OF ok] by blast+
  have n8: "8 * (n div 8) = n" using n(2) by auto
  have wf: "prefix_wf p" using p by (simp add: route_prefix_ok_def)
  define a where "a = byte_at p (n div 8)"
  have "\<exists>s' path. delete_loop p s (n div 8) (a_bits p - n) = Some (s', path, r) \<and>
    deleted v4 s s' (pbits p) \<and> path_in path s'"
  proof (cases "a_bits p - n \<le> 8")
    case True
    have fb: "8 * final_byte p = n" using final_byte_eq[of n p] n(1,2) True by simp
    then have fb': "final_byte p = n div 8" by simp
    have "prefix_strictly_contains (s_prefix s) p"
      using tree_okD(1)[OF ok] n wf tree_ok_len(1)[OF ok, folded n_def] p(1)
      by (simp add: prefix_strictly_contains_iff stride_prefix_ok_def sbits_def route_prefix_ok_def)
    moreover have q: "drop n (pbits p) = take (a_bits p - n) (wbits a)"
      using final_byte_bits(3)[OF wf p(2)] fb unfolding a_def fb' by (simp add: mult.commute)
    have "length (pbits p) \<le> length (sbits s) + 8" using wf True n_def by simp
    then obtain q' where "pbits p = sbits s @ q'" "slocal s q' = Some r"
      using has_route_short[OF ok] prems(3) by blast
    then have "slocal s (drop n (pbits p)) = Some r" using n_def by simp
    from local_delete[OF ok True q this] obtain s' where "stride_delete a (a_bits p - n) s = Some (s', r)"
        "deleted v4 s s' (sbits s @ drop n (pbits p))" .
    moreover have "sbits s @ drop n (pbits p) = pbits p" unfolding n(3) by simp
    ultimately show ?thesis using True
      by (subst delete_loop.simps) (auto simp: a_def)
  next
    case False
    then have big: "n + 8 < a_bits p" by simp
    have long: "length (sbits s) + 8 < length (pbits p)" using wf big n_def by simp
    then obtain b c where c: "s_children s b = Some c" "has_route c (pbits p) r"
      using has_route_long[OF ok long] prems(3) by blast
    have byte: "b' = a" if "s_children s b' = Some c'" "has_route c' (pbits p) x" for b' c' x
    proof -
      from child_route[OF ok that] obtain q where "pbits p = sbits s @ wbits b' @ q" by blast
      then have "take 8 (drop n (pbits p)) = wbits b'" using n_def by simp
      then have "wbits a = wbits b'" using byte_at_pbits[OF wf, of "n div 8"] n8 big by (simp add: a_def)
      then show ?thesis by simp
    qed
    have c: "s_children s a = Some c" "has_route c (pbits p) r" using c byte[OF c] by simp_all
    have ct: "tree_ok v4 c" "child_ok s a c" using tree_okD(4,5)[OF ok c(1)] by blast+
    obtain q where q: "pbits p = sbits c @ q" "q \<noteq> []"
      using has_route_extends[OF c(2) ct(1)] ct(2) by (auto simp: child_ok_def)
    have cl: "length (sbits c) = a_bits (s_prefix c)" by (rule tree_ok_len(1)[OF ct(1)])
    have "a_bits p = length (sbits c) + length q" using length_pbits[OF wf] q(1) by simp
    then have lt: "length (sbits c) < a_bits p" using q(2) by simp
    have "sbits c = take (length (sbits c)) (pbits p)" using q(1) by simp
    from tree_okI(6)[OF c(1) this lt c(2)] obtain c' path where
      c': "delete_loop p c (a_bits (s_prefix c) div 8) (a_bits p - a_bits (s_prefix c)) = Some (c', path, r)"
        "deleted v4 c c' (pbits p)" "path_in path c'" unfolding cl by blast
    have "slocal s q = None" if "pbits p = sbits s @ q" for q
      using that slocal_len[OF ok, of q] long by (cases "slocal s q") auto
    then have "deleted v4 s (put_child a c' s) (pbits p)"
      by (rule delete_child_route[OF ok c(1) c'(2) _ byte])
    moreover have "delete_loop p s (n div 8) (a_bits p - n) = Some (put_child a c' s, a # path, r)"
      using False c(1) c'(1) lt cl by (subst delete_loop.simps) (simp add: a_def[symmetric])
    ultimately show ?thesis using c'(3) by force
  qed
  then show ?case unfolding n_def .
qed

subsection \<open>Cleaning up the path\<close>

definition same_routes :: "bool \<Rightarrow> stride \<Rightarrow> stride \<Rightarrow> bool" where
  "same_routes v4 s s' \<longleftrightarrow> tree_ok v4 s' \<and> s_prefix s' = s_prefix s \<and> slocal s' = slocal s \<and>
     (\<forall>bs x. has_route s' bs x \<longleftrightarrow> has_route s bs x)"

lemma take_first_child_Some:
  assumes "s_children s a = Some c"
  obtains b d where "take_first_child s = Some d" "s_children s b = Some d"
proof (cases "List.find (\<lambda>i. s_children s (of_nat i) \<noteq> None) [0..<256]")
  case None
  moreover have "of_nat (unat a) = a" "unat a < 256" using unat_less_2p[of a] by simp_all
  ultimately show ?thesis using assms unfolding find_None_iff by (metis atLeastLessThan_iff option.distinct(1) set_upt zero_le)
next
  case (Some i)
  then have "s_children s (of_nat i) \<noteq> None" unfolding find_Some_iff by blast
  then show ?thesis using that Some by (auto simp: take_first_child_def)
qed

lemma no_local_routes:
  assumes "tree_ok v4 s" "s_route_refs s = 0" shows "slocal s q = None"
proof -
  have rep: "stride_rep s (slocal s)" by (rule tree_okD[OF assms(1)])
  then have "finite (dom (slocal s))" "card (dom (slocal s)) = 0"
    using finite_local assms(2) by (auto simp: stride_rep_def)
  then show ?thesis by auto
qed

lemma replace_same:
  assumes ok: "tree_ok v4 s" and c: "s_children s a = Some c" and s': "tree_ok v4 s'" "s_prefix s' = s_prefix s"
    "s_entries s' = s_entries s" "\<And>b. b \<noteq> a \<Longrightarrow> s_children s' b = s_children s b"
    and routes: "\<And>bs x. (\<exists>d. s_children s' a = Some d \<and> has_route d bs x) \<longleftrightarrow> has_route c bs x"
  shows "same_routes v4 s s'"
proof -
  have "has_route s' bs x \<longleftrightarrow> has_route s bs x" for bs x
    using has_route_children[OF s'(2-4), where bs = bs and r = x] has_route_split[of s bs x a] routes[of bs x] c by auto
  then show ?thesis using s' slocal_cong[OF s'(3)] by (simp add: same_routes_def)
qed

lemma clean_empty_strides_ok:
  assumes "tree_ok v4 s" "path_in path s"
  shows "\<exists>s'. clean_empty_strides path s = Some s' \<and> same_routes v4 s s'"
  using assms
proof (induction path arbitrary: s)
  case Nil
  then show ?case by (simp add: same_routes_def)
next
  case (Cons a path)
  obtain c where c: "s_children s a = Some c" "path_in path c" using Cons.prems(2) by auto
  have ct: "tree_ok v4 c" "child_ok s a c" using tree_okD(4,5)[OF Cons.prems(1) c(1)] by blast+
  from Cons.IH[OF ct(1) c(2)] obtain d where d: "clean_empty_strides path c = Some d" "same_routes v4 c d" by blast
  have dt: "tree_ok v4 d" "child_ok s a d" and dr: "\<And>bs x. has_route d bs x = has_route c bs x"
    using d(2) ct(2) sbits_cong[of d c] by (auto simp: same_routes_def child_ok_def)
  let ?s = "put_child a d s"
  have st: "tree_ok v4 ?s" using c(1) by (intro tree_ok_put_child[OF Cons.prems(1) _ dt]) simp
  note same = replace_same[OF Cons.prems(1) c(1)]
  have refs: "s_child_refs d = card {b. s_children d b \<noteq> None}" by (rule tree_okD(3)[OF dt(1)])
  consider (keep) "s_route_refs d \<noteq> 0 \<or> 1 < s_child_refs d" | (drop) "s_route_refs d = 0" "s_child_refs d = 0"
    | (one) "s_route_refs d = 0" "s_child_refs d = 1" by linarith
  then show ?case
  proof cases
    case keep
    have "same_routes v4 s ?s" by (rule same[OF st]) (simp_all add: dr)
    then show ?thesis using c(1) d(1) keep by simp
  next
    case drop
    then have "s_children d b = None" for b using refs by auto
    then have "\<not> has_route d bs x" for bs x
      using no_local_routes[OF dt(1) drop(1)] by (subst has_route_iff) simp
    then have "same_routes v4 s (delete_child a ?s)"
      by (intro same[OF tree_ok_delete_child[OF st]]) (simp_all add: dr[symmetric])
    then show ?thesis using c(1) d(1) drop by (simp add: Let_def)
  next
    case one
    obtain b where b: "{b. s_children d b \<noteq> None} = {b}" using one(2) refs by (metis card_1_singletonE)
    then obtain e where "s_children d b = Some e" by auto
    then obtain b' e where e': "take_first_child d = Some e" "s_children d b' = Some e"
      by (rule take_first_child_Some)
    then have e: "take_first_child d = Some e" "s_children d b = Some e" using b by auto
    have et: "tree_ok v4 e" "child_ok d b e" using tree_okD(4,5)[OF dt(1) e(2)] by blast+
    have "child_ok s a e" using et(2) dt(2) by (auto simp: child_ok_def)
    then have ok: "tree_ok v4 (set_child a e ?s)" using child_ok_same[of ?s s a e]
      by (intro tree_ok_set_child[OF st et(1)]) simp
    have "s_children d b'' \<noteq> None \<longleftrightarrow> b'' = b" for b'' using b by blast
    then have "s_children d b'' = Some e' \<longleftrightarrow> b'' = b \<and> e' = e" for b'' e' using e(2) by (metis option.distinct(1) option.inject)
    then have "has_route d bs x \<longleftrightarrow> has_route e bs x" for bs x
      using no_local_routes[OF dt(1) one(1)] has_route_iff[of d bs x] by simp
    then have "same_routes v4 s (set_child a e ?s)" by (intro same[OF ok]) (simp_all add: dr[symmetric])
    then show ?thesis using c(1) d(1) one e(1) by (simp add: Let_def)
  qed
qed

lemma delete_from_ok:
  assumes ok: "tree_ok v4 s" "sbits s = []" and p: "route_prefix_ok v4 p" and r: "has_route s (pbits p) r"
  obtains s' where "delete_from s p = Some (s', Some r)" "tree_ok v4 s'" "sbits s' = []"
    "\<forall>bs x. has_route s' bs x \<longleftrightarrow> has_route s bs x \<and> bs \<noteq> pbits p"
proof (cases "a_bits p = 0")
  case True
  then have p0: "pbits p = []" by (simp add: pbits_def)
  then have "slocal s [] = Some r" using has_route_short[OF ok(1), of "[]" r] r ok(2) by simp
  from local_delete[OF ok(1) _ _ this, of 0 0] obtain s' where
    "stride_delete 0 0 s = Some (s', r)" "deleted v4 s s' (sbits s @ [])" by auto
  then show ?thesis using that[of s'] True p0 ok(2) by (simp add: delete_from_def deleted_def sbits_def)
next
  case False
  then have "0 < a_bits p" "sbits s = take (length (sbits s)) (pbits p)" "length (sbits s) < a_bits p"
    using ok(2) by simp_all
  from delete_loop_ok[OF ok(1) p this r] obtain s' path where
    s': "delete_loop p s 0 (a_bits p) = Some (s', path, r)" "deleted v4 s s' (pbits p)" "path_in path s'"
    using ok(2) by auto
  have "tree_ok v4 s'" using s'(2) by (simp add: deleted_def)
  from clean_empty_strides_ok[OF this s'(3)] obtain s'' where
    "clean_empty_strides path s' = Some s''" "same_routes v4 s' s''" by blast
  then show ?thesis using that[of s''] False s'(1,2) ok(2)
    by (simp add: delete_from_def deleted_def same_routes_def sbits_def)
qed

end
