(* ===== verification/Art_Table.thy ===== *)
theory Art_Table
  imports Art_Delete "HOL-Library.AList"
begin

text \<open>
  The routing table of \<open>crates/art/src/lib.rs\<close>: a trie of stride tables per address family, an
  index from prefixes to route ids, and the vector of values.  \<open>None\<close> as the outer result is a
  panic of the code (a failed \<open>assert\<close> or \<open>expect\<close>, an index out of range).
\<close>

subsection \<open>The table\<close>

record 'v table =
  t_v4 :: stride
  t_v6 :: stride
  t_routes :: "(art_prefix \<times> nat) list"
  t_values :: "'v option list"
  t_free_values :: "nat list"

definition table_new :: "'v table" where
  "table_new =
     \<lparr>t_v4 = stride_new (Art_Prefix unspecified4 0), t_v6 = stride_new (Art_Prefix unspecified6 0),
      t_routes = [], t_values = [], t_free_values = []\<rparr>"

definition table_allocate :: "'v \<Rightarrow> 'v table \<Rightarrow> ('v table \<times> nat) option" where
  "table_allocate v t =
     (if t_free_values t \<noteq> [] then
        let route = last (t_free_values t) in
        if route < length (t_values t)
        then Some (t\<lparr>t_free_values := butlast (t_free_values t), t_values := (t_values t)[route := Some v]\<rparr>, route)
        else None
      else
        let vs = t_values t @ [Some v] in Some (t\<lparr>t_values := vs\<rparr>, length vs - 1))"

definition table_release :: "nat \<Rightarrow> 'v table \<Rightarrow> ('v table \<times> 'v) option" where
  "table_release route t = do {
     slot \<leftarrow> idx (t_values t) route;
     v \<leftarrow> slot;
     Some (t\<lparr>t_values := (t_values t)[route := None], t_free_values := t_free_values t @ [route]\<rparr>, v)
   }"

definition table_value :: "nat \<Rightarrow> 'v table \<Rightarrow> 'v option" where
  "table_value route t = do { slot \<leftarrow> idx (t_values t) route; slot }"

definition table_insert :: "art_prefix \<Rightarrow> 'v \<Rightarrow> 'v table \<Rightarrow> ('v table \<times> 'v option) option" where
  "table_insert prefix v t =
     (let prefix = masked prefix in
      case map_of (t_routes t) prefix of
        Some route \<Rightarrow> do {
          slot \<leftarrow> idx (t_values t) route;
          Some (t\<lparr>t_values := (t_values t)[route := Some v]\<rparr>, slot)
        }
      | None \<Rightarrow> do {
          (t, route) \<leftarrow> table_allocate v t;
          let (t, replaced) =
            (if prefix_is_ipv6 prefix
             then let (s, r) = insert_into (t_v6 t) prefix route in (t\<lparr>t_v6 := s\<rparr>, r)
             else let (s, r) = insert_into (t_v4 t) prefix route in (t\<lparr>t_v4 := s\<rparr>, r));
          if replaced \<noteq> None then None
          else Some (t\<lparr>t_routes := AList.update prefix route (t_routes t)\<rparr>, None)
        })"

definition table_get :: "ipaddr \<Rightarrow> 'v table \<Rightarrow> 'v option option" where
  "table_get addr t = do {
     let root = (if is_ipv6 addr then t_v6 t else t_v4 t);
     matches \<leftarrow> get_loop addr root 0;
     if 16 < length matches then None
     else case List.find (\<lambda>(prefix, route). art_contains prefix addr) (rev matches) of
       None \<Rightarrow> Some None
     | Some (prefix, route) \<Rightarrow> do { v \<leftarrow> table_value route t; Some (Some v) }
   }"

definition table_get_prefix :: "art_prefix \<Rightarrow> 'v table \<Rightarrow> 'v option option" where
  "table_get_prefix prefix t =
     (case map_of (t_routes t) (masked prefix) of
        None \<Rightarrow> Some None
      | Some route \<Rightarrow> do { v \<leftarrow> table_value route t; Some (Some v) })"

definition table_delete :: "art_prefix \<Rightarrow> 'v table \<Rightarrow> ('v table \<times> 'v option) option" where
  "table_delete prefix t =
     (let prefix = masked prefix in
      case map_of (t_routes t) prefix of
        None \<Rightarrow> Some (t, None)
      | Some expected \<Rightarrow> do {
          let t = t\<lparr>t_routes := AList.delete prefix (t_routes t)\<rparr>;
          (t, removed) \<leftarrow>
            (if prefix_is_ipv6 prefix
             then do { (s, r) \<leftarrow> delete_from (t_v6 t) prefix; Some (t\<lparr>t_v6 := s\<rparr>, r) }
             else do { (s, r) \<leftarrow> delete_from (t_v4 t) prefix; Some (t\<lparr>t_v4 := s\<rparr>, r) });
          if removed \<noteq> Some expected then None
          else do {
            (t, v) \<leftarrow> table_release expected t;
            Some (t, Some v)
          }
        })"

definition table_len :: "'v table \<Rightarrow> nat" where
  "table_len t = length (t_routes t)"

text \<open>\<open>iter\<close>: the map is ordered by \<open>Ord\<close> on prefixes.\<close>

definition table_iter :: "'v table \<Rightarrow> (art_prefix \<times> 'v) list option" where
  "table_iter t =
     those (map (\<lambda>(prefix, route). map_option (Pair prefix) (table_value route t)) (sort_key fst (t_routes t)))"

definition table_clear :: "'v table \<Rightarrow> 'v table" where
  "table_clear t = table_new"

subsection \<open>The routes of a table\<close>

text \<open>The tree of one family holds the routes of the index that are of that family.\<close>

definition keys_ok :: "(art_prefix \<Rightarrow> nat option) \<Rightarrow> bool" where
  "keys_ok R \<longleftrightarrow> (\<forall>p r. R p = Some r \<longrightarrow> prefix_wf p \<and> masked p = p) \<and>
     (\<forall>p q r. R p = Some r \<longrightarrow> R q = Some r \<longrightarrow> p = q)"

definition tree_routes :: "bool \<Rightarrow> stride \<Rightarrow> (art_prefix \<Rightarrow> nat option) \<Rightarrow> bool" where
  "tree_routes v4 s R \<longleftrightarrow> tree_ok v4 s \<and> sbits s = [] \<and>
     (\<forall>bs r. has_route s bs r \<longleftrightarrow> (\<exists>p. R p = Some r \<and> is_ipv4 (a_addr p) = v4 \<and> pbits p = bs))"

definition slots_ok :: "'v option list \<Rightarrow> nat list \<Rightarrow> nat set \<Rightarrow> bool" where
  "slots_ok vs free live \<longleftrightarrow> distinct free \<and> set free = {i. i < length vs \<and> vs ! i = None} \<and>
     live = {i. i < length vs \<and> vs ! i \<noteq> None}"

definition table_ok :: "'v table \<Rightarrow> bool" where
  "table_ok t \<longleftrightarrow> distinct (map fst (t_routes t)) \<and> keys_ok (map_of (t_routes t)) \<and>
     tree_routes True (t_v4 t) (map_of (t_routes t)) \<and> tree_routes False (t_v6 t) (map_of (t_routes t)) \<and>
     slots_ok (t_values t) (t_free_values t) (ran (map_of (t_routes t)))"

text \<open>What a table means: a finite map from normalised prefixes to values.\<close>

definition table_map :: "'v table \<Rightarrow> art_prefix \<Rightarrow> 'v option" where
  "table_map t p = Option.bind (map_of (t_routes t) p) (\<lambda>r. table_value r t)"

definition longest_match :: "(art_prefix \<Rightarrow> 'v option) \<Rightarrow> ipaddr \<Rightarrow> 'v option \<Rightarrow> bool" where
  "longest_match M addr res \<longleftrightarrow>
     (case res of
        None \<Rightarrow> \<forall>p. M p \<noteq> None \<longrightarrow> \<not> art_contains p addr
      | Some v \<Rightarrow> \<exists>p. M p = Some v \<and> art_contains p addr \<and>
          (\<forall>q. M q \<noteq> None \<longrightarrow> art_contains q addr \<longrightarrow> a_bits q \<le> a_bits p))"

lemma keys_ok_unique:
  assumes "keys_ok R" "R q = Some x" "route_prefix_ok v4 p" "is_ipv4 (a_addr q) = v4" "pbits q = pbits p"
  shows "q = p"
proof -
  have q: "prefix_wf q" "masked q = q" using assms(1,2) unfolding keys_ok_def by blast+
  have p: "prefix_wf p" "masked p = p" "is_ipv4 (a_addr p) = v4" using assms(3) unfolding route_prefix_ok_def by blast+
  have "masked q = masked p" unfolding masked_eq_iff[OF q(1) p(1)] using assms(4,5) p(3) by simp
  then show ?thesis unfolding q(2) p(2) .
qed

lemma tree_routes_other:
  assumes "is_ipv4 (a_addr p) \<noteq> v4" shows "tree_routes v4 s (R(p := x)) = tree_routes v4 s R"
proof -
  have "(R(p := x)) q = Some r \<and> is_ipv4 (a_addr q) = v4 \<and> b \<longleftrightarrow> R q = Some r \<and> is_ipv4 (a_addr q) = v4 \<and> b" for q r b
    using assms by (cases "q = p") simp_all
  then show ?thesis unfolding tree_routes_def by (simp only:)
qed

lemma tree_routes_insert:
  assumes t: "tree_routes v4 s R" "keys_ok R" and p: "route_prefix_ok v4 p" and new: "R p = None" "r \<notin> ran R"
  obtains s' where "insert_into s p r = (s', None)" "tree_routes v4 s' (R(p \<mapsto> r))"
proof -
  have s: "tree_ok v4 s" "sbits s = []"
    and R: "\<And>bs r. has_route s bs r \<longleftrightarrow> (\<exists>p. R p = Some r \<and> is_ipv4 (a_addr p) = v4 \<and> pbits p = bs)"
    using t(1) unfolding tree_routes_def by blast+
  have f1: "\<not> has_route s bs r" for bs unfolding R using new(2) ranI by fast
  have f2: "\<not> has_route s (pbits p) x" for x
  proof
    assume "has_route s (pbits p) x"
    then obtain q where q: "R q = Some x" "is_ipv4 (a_addr q) = v4" "pbits q = pbits p" unfolding R by blast
    from keys_ok_unique[OF t(2) q(1) p q(2,3)] q(1) new(1) show False by simp
  qed
  from insert_into_ok[OF s p f1 f2] obtain s' where s': "insert_into s p r = (s', None)" "tree_ok v4 s'" "sbits s' = []"
      "\<forall>bs x. has_route s' bs x \<longleftrightarrow> has_route s bs x \<or> bs = pbits p \<and> x = r" .
  have v4: "is_ipv4 (a_addr p) = v4" using p by (simp add: route_prefix_ok_def)
  have upd: "(R(p \<mapsto> r)) q = Some x \<longleftrightarrow> R q = Some x \<or> q = p \<and> x = r" for q x using new(1) by auto
  have "(\<exists>q. (R(p \<mapsto> r)) q = Some x \<and> is_ipv4 (a_addr q) = v4 \<and> pbits q = bs) \<longleftrightarrow>
      (\<exists>q. R q = Some x \<and> is_ipv4 (a_addr q) = v4 \<and> pbits q = bs) \<or> bs = pbits p \<and> x = r" for bs x
    unfolding upd using v4 by blast
  then have "has_route s' bs x \<longleftrightarrow> (\<exists>q. (R(p \<mapsto> r)) q = Some x \<and> is_ipv4 (a_addr q) = v4 \<and> pbits q = bs)" for bs x
    by (simp only: s'(4)[rule_format] R)
  then show ?thesis using that[OF s'(1)] s'(2,3) by (simp add: tree_routes_def)
qed

lemma tree_routes_delete:
  assumes t: "tree_routes v4 s R" "keys_ok R" and p: "route_prefix_ok v4 p" and r: "R p = Some r"
  obtains s' where "delete_from s p = Some (s', Some r)" "tree_routes v4 s' (R(p := None))"
proof -
  have s: "tree_ok v4 s" "sbits s = []"
    and R: "\<And>bs r. has_route s bs r \<longleftrightarrow> (\<exists>p. R p = Some r \<and> is_ipv4 (a_addr p) = v4 \<and> pbits p = bs)"
    using t(1) unfolding tree_routes_def by blast+
  have v4: "is_ipv4 (a_addr p) = v4" using p by (simp add: route_prefix_ok_def)
  then have "has_route s (pbits p) r" using R r by blast
  from delete_from_ok[OF s p this] obtain s' where s': "delete_from s p = Some (s', Some r)" "tree_ok v4 s'"
      "sbits s' = []" "\<forall>bs x. has_route s' bs x \<longleftrightarrow> has_route s bs x \<and> bs \<noteq> pbits p" .
  have "(R(p := None)) q = Some x \<and> is_ipv4 (a_addr q) = v4 \<and> pbits q = bs \<longleftrightarrow>
      (R q = Some x \<and> is_ipv4 (a_addr q) = v4 \<and> pbits q = bs) \<and> bs \<noteq> pbits p" for q x bs
    using keys_ok_unique[OF t(2) _ p, of q x] by (cases "q = p") auto
  then have "has_route s' bs x \<longleftrightarrow> (\<exists>q. (R(p := None)) q = Some x \<and> is_ipv4 (a_addr q) = v4 \<and> pbits q = bs)" for bs x
    by (simp only: s'(4)[rule_format] R) blast
  then show ?thesis using that[OF s'(1)] s'(2,3) by (simp add: tree_routes_def)
qed

lemma keys_ok_update:
  "keys_ok R \<Longrightarrow> route_prefix_ok v4 p \<Longrightarrow> r \<notin> ran R \<Longrightarrow> keys_ok (R(p \<mapsto> r))"
  unfolding keys_ok_def route_prefix_ok_def by (auto simp: ran_def)

lemma keys_ok_delete: "keys_ok R \<Longrightarrow> keys_ok (R(p := None))"
  unfolding keys_ok_def by auto

lemma lpm_tree_routes:
  assumes t: "tree_routes v4 s R" "keys_ok R" and addr: "is_ipv4 addr = v4"
  shows "longest_match R addr (lpm (tree_map s) (addr_bits addr))"
proof -
  let ?X = "addr_bits addr"
  have s: "tree_ok v4 s"
    and R: "\<And>bs r. has_route s bs r \<longleftrightarrow> (\<exists>p. R p = Some r \<and> is_ipv4 (a_addr p) = v4 \<and> pbits p = bs)"
    using t(1) unfolding tree_routes_def by blast+
  have bits: "is_ipv4 (a_addr p) = v4 \<and> pbits p = take (a_bits p) ?X \<and> a_bits p \<le> length ?X"
    if "R p = Some r" "art_contains p addr" for p r
  proof -
    have "prefix_wf p" using that t(2) by (auto simp: keys_ok_def)
    then show ?thesis using that(2) addr art_contains_pbits[of p addr] by (auto simp: prefix_wf_def addr_len_def)
  qed
  have map: "tree_map s (take (a_bits p) ?X) = Some r" if "R p = Some r" "art_contains p addr" for p r
  proof -
    have "has_route s (take (a_bits p) ?X) r" unfolding R using bits[OF that] that(1) by blast
    then show ?thesis unfolding tree_map_Some[OF s] .
  qed
  show ?thesis
  proof (cases "lpm (tree_map s) ?X")
    case None
    then have "\<not> art_contains p addr" if "R p = Some r" for p r
      using map[OF that] bits[OF that] by (auto simp: lpm_None_iff)
    then show ?thesis using None by (auto simp: longest_match_def)
  next
    case (Some r)
    then obtain n where n: "n \<le> length ?X" "tree_map s (take n ?X) = Some r"
        "\<And>m. m \<le> length ?X \<Longrightarrow> n < m \<Longrightarrow> tree_map s (take m ?X) = None"
      using lpm_Some_iff[of "tree_map s" ?X r] by blast
    then obtain p where p: "R p = Some r" "is_ipv4 (a_addr p) = v4" "pbits p = take n ?X"
      unfolding tree_map_Some[OF s] R by blast
    have wf: "prefix_wf p" using p(1) t(2) by (auto simp: keys_ok_def)
    then have pn: "a_bits p = n" using p(3) n(1) length_pbits[OF wf] by simp
    then have "art_contains p addr" using art_contains_pbits[OF wf] p addr by simp
    moreover have "a_bits q \<le> n" if "R q = Some x" "art_contains q addr" for q x
      using n(3)[of "a_bits q"] map[OF that] bits[OF that] by (cases "n < a_bits q") simp_all
    ultimately show ?thesis using Some p(1) pn by (auto simp: longest_match_def)
  qed
qed

subsection \<open>The operations on a well-formed table\<close>

lemma table_okD:
  assumes "table_ok t"
  shows "distinct (map fst (t_routes t))" "keys_ok (map_of (t_routes t))"
    "tree_routes True (t_v4 t) (map_of (t_routes t))" "tree_routes False (t_v6 t) (map_of (t_routes t))"
    "slots_ok (t_values t) (t_free_values t) (ran (map_of (t_routes t)))"
  using assms by (simp_all add: table_ok_def)

lemma live_slot:
  assumes "table_ok t" "map_of (t_routes t) p = Some r"
  obtains v where "r < length (t_values t)" "t_values t ! r = Some v" "table_value r t = Some v" "table_map t p = Some v"
proof -
  have "r \<in> ran (map_of (t_routes t))" using assms(2) by (auto simp: ran_def)
  then obtain v where "r < length (t_values t)" "t_values t ! r = Some v"
    using table_okD(5)[OF assms(1)] by (auto simp: slots_ok_def)
  then show ?thesis using that[of v] assms(2) by (simp add: table_value_def table_map_def idx_def)
qed

lemma table_map_None: "table_ok t \<Longrightarrow> table_map t p = None \<longleftrightarrow> map_of (t_routes t) p = None"
  by (cases "map_of (t_routes t) p") (auto simp: table_map_def[of t p] elim: live_slot)

lemma table_map_key: "table_ok t \<Longrightarrow> table_map t p = Some v \<Longrightarrow> prefix_wf p \<and> masked p = p"
  using table_okD(2)[of t] by (cases "map_of (t_routes t) p") (auto simp: table_map_def keys_ok_def)

lemma tree_routes_empty:
  assumes "v4 = is_ipv4 a" "addr_bits a = replicate (addr_len a) False"
  shows "tree_routes v4 (stride_new (Art_Prefix a 0)) (\<lambda>_. None)"
proof -
  have wf: "prefix_wf (Art_Prefix a 0)" by (simp add: prefix_wf_def)
  have "a_addr (masked (Art_Prefix a 0)) = a"
    unfolding addr_eq_iff using masked_bits[OF wf] assms(2) by (simp add: pbits_def)
  then have "masked (Art_Prefix a 0) = Art_Prefix a 0" by (intro art_prefix.expand) simp
  then have "stride_prefix_ok v4 (Art_Prefix a 0)"
    using wf assms(1) by (simp add: stride_prefix_ok_def addr_len_def)
  then have "tree_ok v4 (stride_new (Art_Prefix a 0))" by (rule tree_ok_new)
  moreover have "\<not> has_route (stride_new (Art_Prefix a 0)) bs r" for bs r by (subst has_route_iff) simp
  ultimately show ?thesis by (simp add: tree_routes_def sbits_def pbits_def)
qed

lemma table_new_ok: "table_ok table_new" "table_map table_new = (\<lambda>_. None)"
  using tree_routes_empty[of True unspecified4] tree_routes_empty[of False unspecified6]
  by (simp_all add: table_ok_def table_new_def slots_ok_def keys_ok_def table_map_def fun_eq_iff
    unspecified4_def unspecified6_def wbits_zero addr_len_def)

lemma slots_ok_allocate:
  assumes "slots_ok (t_values t) (t_free_values t) live"
  obtains t' r where "table_allocate v t = Some (t', r)" "r \<notin> live"
    "slots_ok (t_values t') (t_free_values t') (insert r live)"
    "t' = t\<lparr>t_values := t_values t', t_free_values := t_free_values t'\<rparr>"
    "idx (t_values t') r = Some (Some v)" "\<And>i. i \<in> live \<Longrightarrow> idx (t_values t') i = idx (t_values t) i"
proof (cases "t_free_values t" rule: rev_cases)
  case Nil
  let ?t = "t\<lparr>t_values := t_values t @ [Some v]\<rparr>"
  show ?thesis
    by (rule that[of ?t "length (t_values t)"])
      (use assms Nil in \<open>auto simp: table_allocate_def slots_ok_def idx_def nth_append less_Suc_eq\<close>)
next
  case (snoc fs r)
  let ?t = "t\<lparr>t_free_values := fs, t_values := (t_values t)[r := Some v]\<rparr>"
  have r: "r < length (t_values t)" "t_values t ! r = None" "r \<notin> set fs" "distinct fs" "r \<notin> live"
    using assms snoc by (auto simp: slots_ok_def)
  have fs: "set fs = {i. i < length (t_values t) \<and> t_values t ! i = None} - {r}"
    using assms snoc r(3) by (auto simp: slots_ok_def)
  have live: "live = {i. i < length (t_values t) \<and> t_values t ! i \<noteq> None}" using assms by (simp add: slots_ok_def)
  show ?thesis
  proof (rule that[of ?t r])
    show "table_allocate v t = Some (?t, r)" using snoc r(1) by (simp add: table_allocate_def)
    show "slots_ok (t_values ?t) (t_free_values ?t) (insert r live)"
      using r(1,4) by (auto simp: slots_ok_def fs live nth_list_update)
    show "idx (t_values ?t) i = idx (t_values t) i" if "i \<in> live" for i
      using that r(5) by (cases "i = r") (simp_all add: idx_def)
  qed (use r in simp_all)
qed

lemma masked_route_ok: "prefix_wf p \<Longrightarrow> route_prefix_ok (is_ipv4 (a_addr p)) (masked p)"
  by (simp add: route_prefix_ok_def)

lemma table_replace_ok:
  assumes ok: "table_ok t" and r: "map_of (t_routes t) p = Some r"
  shows "table_ok (t\<lparr>t_values := (t_values t)[r := Some v]\<rparr>)"
    "table_map (t\<lparr>t_values := (t_values t)[r := Some v]\<rparr>) = (table_map t)(p \<mapsto> v)"
proof -
  obtain v' where v': "r < length (t_values t)" "t_values t ! r = Some v'" by (rule live_slot[OF ok r])
  then have "i < length (t_values t) \<Longrightarrow> (t_values t)[r := Some v] ! i = None \<longleftrightarrow> t_values t ! i = None" for i
    by (cases "i = r") simp_all
  then have "slots_ok ((t_values t)[r := Some v]) (t_free_values t) (ran (map_of (t_routes t)))"
    using table_okD(5)[OF ok] by (simp add: slots_ok_def cong: conj_cong)
  then show "table_ok (t\<lparr>t_values := (t_values t)[r := Some v]\<rparr>)"
    using ok by (simp add: table_ok_def)
  show "table_map (t\<lparr>t_values := (t_values t)[r := Some v]\<rparr>) = (table_map t)(p \<mapsto> v)"
  proof
    fix q
    show "table_map (t\<lparr>t_values := (t_values t)[r := Some v]\<rparr>) q = ((table_map t)(p \<mapsto> v)) q"
    proof (cases "map_of (t_routes t) q")
      case (Some r')
      then have "r' = r \<longleftrightarrow> q = p" using table_okD(2)[OF ok] r unfolding keys_ok_def by (metis option.inject)
      then show ?thesis using Some v'(1) by (cases "q = p") (simp_all add: table_map_def table_value_def idx_def)
    qed (use r in \<open>auto simp: table_map_def\<close>)
  qed
qed

lemma table_insert_ok:
  assumes ok: "table_ok t" and p: "prefix_wf p"
  obtains t' where "table_insert p v t = Some (t', table_map t (masked p))" "table_ok t'"
    "table_map t' = (table_map t)(masked p \<mapsto> v)"
proof (cases "map_of (t_routes t) (masked p)")
  case (Some r)
  obtain v' where "r < length (t_values t)" "t_values t ! r = Some v'" "table_map t (masked p) = Some v'"
    by (rule live_slot[OF ok Some])
  then show ?thesis
    using that[OF _ table_replace_ok[OF ok Some, of v]] Some by (simp add: table_insert_def Let_def)
next
  case None
  let ?p = "masked p" and ?R = "map_of (t_routes t)"
  from slots_ok_allocate[OF table_okD(5)[OF ok]] obtain t1 r where
    t1: "table_allocate v t = Some (t1, r)" "r \<notin> ran ?R" "slots_ok (t_values t1) (t_free_values t1) (insert r (ran ?R))"
      "t1 = t\<lparr>t_values := t_values t1, t_free_values := t_free_values t1\<rparr>" "idx (t_values t1) r = Some (Some v)"
      "\<And>i. i \<in> ran ?R \<Longrightarrow> idx (t_values t1) i = idx (t_values t) i" by metis
  have trees: "t_v4 t1 = t_v4 t" "t_v6 t1 = t_v6 t" "t_routes t1 = t_routes t" by (subst t1(4), simp)+
  note rp = masked_route_ok[OF p]
  let ?v4 = "is_ipv4 (a_addr p)"
  have tree: "tree_routes ?v4 (if ?v4 then t_v4 t else t_v6 t) ?R" using table_okD(3,4)[OF ok] by simp
  from tree_routes_insert[OF tree table_okD(2)[OF ok] rp None t1(2)] obtain s' where
    s': "insert_into (if ?v4 then t_v4 t else t_v6 t) ?p r = (s', None)" "tree_routes ?v4 s' (?R(?p \<mapsto> r))" .
  let ?t2 = "if ?v4 then t1\<lparr>t_v4 := s'\<rparr> else t1\<lparr>t_v6 := s'\<rparr>"
  let ?t' = "?t2\<lparr>t_routes := AList.update ?p r (t_routes t)\<rparr>"
  have R': "map_of (t_routes ?t') = ?R(?p \<mapsto> r)" by (simp add: update_conv')
  have vals: "t_values ?t' = t_values t1" "t_free_values ?t' = t_free_values t1" by simp_all
  have both: "tree_routes True (t_v4 ?t') (?R(?p \<mapsto> r)) \<and> tree_routes False (t_v6 ?t') (?R(?p \<mapsto> r))"
    using s'(2) table_okD(3,4)[OF ok] trees by (cases ?v4) (simp_all add: tree_routes_other)
  have "distinct (map fst (t_routes ?t'))" using table_okD(1)[OF ok] by (simp add: distinct_update)
  then have ok': "table_ok ?t'"
    unfolding table_ok_def R' vals using both t1(3) None
    by (simp add: keys_ok_update[OF table_okD(2)[OF ok] rp t1(2)] del: fun_upd_apply)
  have "table_map ?t' q = ((table_map t)(?p \<mapsto> v)) q" for q
  proof (cases "q = ?p")
    case True
    then show ?thesis unfolding table_map_def R' table_value_def vals using t1(5) by simp
  next
    case False
    then show ?thesis unfolding table_map_def R' table_value_def vals
      by (cases "?R q") (simp_all add: t1(6)[OF ranI])
  qed
  moreover have "table_insert p v t = Some (?t', None)"
    using None t1(1) s'(1) trees
    by (cases ?v4) (simp_all add: table_insert_def prefix_is_ipv6_def is_ipv6_def Let_def)
  moreover have "table_map t ?p = None" using None by (simp add: table_map_def)
  ultimately show ?thesis using that[OF _ ok'] by (simp add: fun_eq_iff)
qed

lemma slots_ok_release:
  assumes slots: "slots_ok vs free live" and r: "r \<in> live"
  shows "slots_ok (vs[r := None]) (free @ [r]) (live - {r})"
proof -
  have "r < length vs" "vs ! r \<noteq> None" using assms by (auto simp: slots_ok_def)
  then have "distinct (free @ [r])" using slots by (simp add: slots_ok_def)
  moreover have "set (free @ [r]) = {i. i < length (vs[r := None]) \<and> vs[r := None] ! i = None}"
    using slots \<open>r < length vs\<close> by (auto simp: slots_ok_def nth_list_update)
  moreover have "live - {r} = {i. i < length (vs[r := None]) \<and> vs[r := None] ! i \<noteq> None}"
    using slots \<open>r < length vs\<close> by (auto simp: slots_ok_def nth_list_update split: if_splits)
  ultimately show ?thesis by (simp add: slots_ok_def)
qed

lemma ran_delete:
  assumes "R p = Some r" "\<And>q. R q = Some r \<Longrightarrow> q = p" shows "ran (R(p := None)) = ran R - {r}"
proof -
  have "(\<exists>a. (R(p := None)) a = Some x) \<longleftrightarrow> (\<exists>a. R a = Some x) \<and> x \<noteq> r" for x
    using assms by (metis fun_upd_other fun_upd_same option.distinct(1) option.inject)
  then show ?thesis unfolding ran_def by blast
qed

lemma table_delete_ok:
  assumes ok: "table_ok t" and p: "prefix_wf p"
  obtains t' where "table_delete p t = Some (t', table_map t (masked p))" "table_ok t'"
    "table_map t' = (table_map t)(masked p := None)"
proof (cases "map_of (t_routes t) (masked p)")
  case None
  then have "table_map t (masked p) = None" by (simp add: table_map_def)
  then show ?thesis using that[of t] None ok by (simp add: table_delete_def fun_upd_idem)
next
  case (Some r)
  let ?p = "masked p" and ?R = "map_of (t_routes t)"
  obtain v where v: "r < length (t_values t)" "t_values t ! r = Some v" "table_map t ?p = Some v"
    by (rule live_slot[OF ok Some])
  note rp = masked_route_ok[OF p]
  let ?v4 = "is_ipv4 (a_addr p)"
  have tree: "tree_routes ?v4 (if ?v4 then t_v4 t else t_v6 t) ?R" using table_okD(3,4)[OF ok] by simp
  from tree_routes_delete[OF tree table_okD(2)[OF ok] rp Some] obtain s' where
    s': "delete_from (if ?v4 then t_v4 t else t_v6 t) ?p = Some (s', Some r)" "tree_routes ?v4 s' (?R(?p := None))" .
  let ?t1 = "t\<lparr>t_routes := AList.delete ?p (t_routes t)\<rparr>"
  let ?t2 = "if ?v4 then ?t1\<lparr>t_v4 := s'\<rparr> else ?t1\<lparr>t_v6 := s'\<rparr>"
  let ?t' = "?t2\<lparr>t_values := (t_values t)[r := None], t_free_values := t_free_values t @ [r]\<rparr>"
  have R': "map_of (t_routes ?t') = ?R(?p := None)" by (simp add: delete_conv')
  have vals: "t_values ?t' = (t_values t)[r := None]" "t_free_values ?t' = t_free_values t @ [r]" by simp_all
  have both: "tree_routes True (t_v4 ?t') (?R(?p := None)) \<and> tree_routes False (t_v6 ?t') (?R(?p := None))"
    using s'(2) table_okD(3,4)[OF ok] by (cases ?v4) (simp_all add: tree_routes_other)
  have inj: "?R q = Some r \<Longrightarrow> q = ?p" for q using table_okD(2)[OF ok] Some by (auto simp: keys_ok_def)
  have ran: "ran (?R(?p := None)) = ran ?R - {r}" by (rule ran_delete[of ?R ?p r, OF Some inj])
  have "r \<in> ran ?R" using Some by (rule ranI)
  note slots = slots_ok_release[OF table_okD(5)[OF ok] this]
  have "distinct (map fst (t_routes ?t'))" using table_okD(1)[OF ok] by (simp add: distinct_delete)
  then have ok': "table_ok ?t'"
    unfolding table_ok_def R' vals ran using both slots keys_ok_delete[OF table_okD(2)[OF ok]] by blast
  have "table_map ?t' q = ((table_map t)(?p := None)) q" for q
  proof (cases "q = ?p \<or> ?R q = None")
    case True
    then show ?thesis unfolding table_map_def R' by auto
  next
    case False
    then obtain r' where "?R q = Some r'" "r' \<noteq> r" using inj by auto
    then show ?thesis unfolding table_map_def R' table_value_def vals using False by (simp add: idx_def)
  qed
  moreover have "table_delete p t = Some (?t', Some v)"
    using Some s'(1) v(1,2)
    by (cases ?v4) (simp_all add: table_delete_def table_release_def prefix_is_ipv6_def is_ipv6_def Let_def)
  ultimately show ?thesis using that[OF _ ok'] v(3) by (simp add: fun_eq_iff)
qed

lemma longest_match_values:
  assumes "\<And>p. M p \<noteq> None \<longleftrightarrow> R p \<noteq> None" "\<And>p r. R p = Some r \<Longrightarrow> M p = f r" "longest_match R addr res"
  shows "longest_match M addr (Option.bind res f)"
proof (cases res)
  case (Some r)
  then obtain p where p: "R p = Some r" "art_contains p addr" "\<And>q. R q \<noteq> None \<Longrightarrow> art_contains q addr \<Longrightarrow> a_bits q \<le> a_bits p"
    using assms(3) by (auto simp: longest_match_def)
  obtain v where "M p = Some v" using assms(1)[of p] p(1) by auto
  then show ?thesis using Some p assms(1) assms(2)[OF p(1)] by (auto simp: longest_match_def)
qed (use assms in \<open>auto simp: longest_match_def\<close>)

lemma table_get_ok:
  assumes ok: "table_ok t"
  shows "\<exists>res. table_get addr t = Some res \<and> longest_match (table_map t) addr res"
proof -
  let ?s = "if is_ipv6 addr then t_v6 t else t_v4 t" and ?R = "map_of (t_routes t)"
  have tree: "tree_routes (is_ipv4 addr) ?s ?R" using table_okD(3,4)[OF ok] by (simp add: is_ipv6_def)
  then have s: "tree_ok (is_ipv4 addr) ?s" "sbits ?s = []" by (simp_all add: tree_routes_def)
  from get_loop_lpm[OF s(1) refl] obtain ms where ms: "get_loop addr ?s 0 = Some ms"
      "8 * length ms \<le> addr_len addr" "pick addr ms = lpm (tree_map ?s) (addr_bits addr)"
    unfolding s(2) by auto
  have match: "longest_match ?R addr (pick addr ms)"
    unfolding ms(3) by (rule lpm_tree_routes[OF tree table_okD(2)[OF ok] refl])
  have match': "longest_match (table_map t) addr (Option.bind (pick addr ms) (\<lambda>r. table_value r t))"
    by (rule longest_match_values[OF _ _ match]) (use table_map_None[OF ok] in \<open>simp_all add: table_map_def[of t]\<close>)
  have "length ms \<le> 16" using ms(2) by (simp add: addr_len_def split: if_splits)
  then have "table_get addr t = (case pick addr ms of None \<Rightarrow> Some None
      | Some r \<Rightarrow> do { v \<leftarrow> table_value r t; Some (Some v) })"
    using ms(1) by (auto simp: table_get_def pick_def Let_def split: option.split)
  also have "\<dots> = Some (Option.bind (pick addr ms) (\<lambda>r. table_value r t))"
  proof (cases "pick addr ms")
    case (Some r)
    then obtain p where "?R p = Some r" using match by (auto simp: longest_match_def)
    then obtain v where "table_value r t = Some v" by (rule live_slot[OF ok])
    then show ?thesis using Some by simp
  qed simp
  finally show ?thesis using match' by blast
qed

lemma table_get_prefix_ok: "table_ok t \<Longrightarrow> table_get_prefix p t = Some (table_map t (masked p))"
  by (cases "map_of (t_routes t) (masked p)")
    (auto simp: table_get_prefix_def table_map_def[of t "masked p"] elim: live_slot)

lemma dom_table_map: "table_ok t \<Longrightarrow> dom (table_map t) = fst ` set (t_routes t)"
  unfolding dom_map_of_conv_image_fst[symmetric] using table_map_None[of t] by (simp add: dom_def)

lemma table_len_ok: "table_ok t \<Longrightarrow> table_len t = card (dom (table_map t))"
  using distinct_card[of "map fst (t_routes t)"] table_okD(1)[of t] by (simp add: dom_table_map table_len_def)

lemma slots_count: "slots_ok vs free live \<Longrightarrow> length vs = card live + length free"
proof -
  assume s: "slots_ok vs free live"
  then have live: "live = {i. i < length vs \<and> vs ! i \<noteq> None}" and free: "set free = {i. i < length vs \<and> vs ! i = None}"
    by (simp_all add: slots_ok_def)
  have "length free = card (set free)" using s distinct_card[of free] by (simp only: slots_ok_def)
  moreover have "{..<length vs} = live \<union> set free" "live \<inter> set free = {}" unfolding live free by auto
  moreover have "finite live" unfolding live by simp
  ultimately show ?thesis by (metis List.finite_set card_Un_disjoint card_lessThan)
qed

lemma those_map_Some: "(\<And>x. x \<in> set xs \<Longrightarrow> f x = Some (g x)) \<Longrightarrow> those (map f xs) = Some (map g xs)"
  by (induction xs) auto

lemma table_iter_ok:
  assumes ok: "table_ok t"
  obtains kvs where "table_iter t = Some kvs" "map_of kvs = table_map t" "sorted (map fst kvs)"
    "distinct (map fst kvs)" "length kvs = table_len t"
proof -
  let ?rs = "sort_key fst (t_routes t)"
  let ?g = "\<lambda>(p, r). (p, the (table_value r t))"
  have d: "distinct (map fst ?rs)"
    using table_okD(1)[OF ok] by (simp add: distinct_map inj_on_def)
  have same: "map_of ?rs = map_of (t_routes t)"
    by (rule map_of_inject_set[OF d table_okD(1)[OF ok], THEN iffD2]) simp
  have val: "\<exists>v. table_value r t = Some v" if r: "map_of (t_routes t) p = Some r" for p r
    by (rule live_slot[OF ok r]) simp
  have "map_of (t_routes t) p = Some r" if "(p, r) \<in> set (t_routes t)" for p r
    using that table_okD(1)[OF ok] by (intro map_of_is_SomeI) simp_all
  note val' = val[OF this]
  have it: "table_iter t = Some (map ?g ?rs)"
    unfolding table_iter_def by (rule those_map_Some) (auto dest!: val')
  have keys: "map fst (map ?g ?rs) = map fst ?rs" by (simp add: split_def comp_def)
  have "map_of (map ?g ?rs) p = table_map t p" for p
  proof -
    have "map_of (map ?g ?rs) p = map_option (\<lambda>r. the (table_value r t)) (map_of (t_routes t) p)"
      using map_of_map[of "\<lambda>r. the (table_value r t)" ?rs] same by simp
    then show ?thesis by (cases "map_of (t_routes t) p") (auto simp: table_map_def[of t p] dest!: val)
  qed
  then show ?thesis using that[OF it] keys d by (simp add: table_len_def fun_eq_iff del: map_map)
qed

subsection \<open>Sequences of operations\<close>

datatype 'v table_op = Op_Insert art_prefix 'v | Op_Delete art_prefix | Op_Clear

fun op_wf :: "'v table_op \<Rightarrow> bool" where
  "op_wf (Op_Insert p v) = prefix_wf p"
| "op_wf (Op_Delete p) = prefix_wf p"
| "op_wf Op_Clear = True"

fun table_step :: "'v table_op \<Rightarrow> 'v table \<Rightarrow> ('v table \<times> 'v option) option" where
  "table_step (Op_Insert p v) t = table_insert p v t"
| "table_step (Op_Delete p) t = table_delete p t"
| "table_step Op_Clear t = Some (table_clear t, None)"

fun table_run :: "'v table_op list \<Rightarrow> 'v table \<Rightarrow> ('v table \<times> 'v option list) option" where
  "table_run [] t = Some (t, [])"
| "table_run (op # ops) t = do {
     (t, out) \<leftarrow> table_step op t;
     (t, outs) \<leftarrow> table_run ops t;
     Some (t, out # outs)
   }"

text \<open>The same operations on a map from normalised prefixes.\<close>

fun map_step :: "'v table_op \<Rightarrow> (art_prefix \<Rightarrow> 'v option) \<Rightarrow> (art_prefix \<Rightarrow> 'v option) \<times> 'v option" where
  "map_step (Op_Insert p v) m = (m(masked p \<mapsto> v), m (masked p))"
| "map_step (Op_Delete p) m = (m(masked p := None), m (masked p))"
| "map_step Op_Clear m = (\<lambda>_. None, None)"

fun map_run :: "'v table_op list \<Rightarrow> (art_prefix \<Rightarrow> 'v option) \<Rightarrow> (art_prefix \<Rightarrow> 'v option) \<times> 'v option list" where
  "map_run [] m = (m, [])"
| "map_run (op # ops) m = (let (m, out) = map_step op m; (m, outs) = map_run ops m in (m, out # outs))"

lemma table_step_ok:
  assumes "table_ok t" "op_wf op"
  obtains t' where "table_step op t = Some (t', snd (map_step op (table_map t)))" "table_ok t'"
    "table_map t' = fst (map_step op (table_map t))"
proof (cases op)
  case (Op_Insert p v)
  then show ?thesis using that assms by (auto elim: table_insert_ok[of t p v])
next
  case (Op_Delete p)
  then show ?thesis using that assms by (auto elim: table_delete_ok[of t p])
next
  case Op_Clear
  then show ?thesis using that table_new_ok by (simp add: table_clear_def)
qed

lemma table_run_ok:
  assumes "table_ok t" "list_all op_wf ops"
  shows "\<exists>t'. table_run ops t = Some (t', snd (map_run ops (table_map t))) \<and> table_ok t' \<and>
    table_map t' = fst (map_run ops (table_map t))"
  using assms
proof (induction ops arbitrary: t)
  case (Cons op ops)
  then obtain t1 where t1: "table_step op t = Some (t1, snd (map_step op (table_map t)))" "table_ok t1"
      "table_map t1 = fst (map_step op (table_map t))"
    using table_step_ok[of t op] by auto
  from Cons.IH[OF t1(2)] Cons.prems(2) t1 show ?case by (auto simp: split_def Let_def)
qed simp

lemma ran_card_table_len:
  assumes ok: "table_ok t" shows "card (ran (map_of (t_routes t))) = table_len t"
proof -
  have "ran (map_of (t_routes t)) = snd ` set (t_routes t)" using ran_distinct[OF table_okD(1)[OF ok]] .
  moreover have "inj_on snd (set (t_routes t))"
    using table_okD(1,2)[OF ok] by (fastforce simp: inj_on_def keys_ok_def)
  moreover have "distinct (t_routes t)" using table_okD(1)[OF ok] by (simp add: distinct_map)
  ultimately show ?thesis by (simp add: card_image distinct_card table_len_def)
qed

lemma table_storage: "table_ok t \<Longrightarrow> length (t_values t) = table_len t + length (t_free_values t)"
  using slots_count[OF table_okD(5)] ran_card_table_len by metis

lemma table_storage_step:
  assumes ok: "table_ok t" "op_wf op" and t': "table_step op t = Some (t', out)"
    and n: "length (t_values t) \<le> n" "table_len t' \<le> n"
  shows "length (t_values t') \<le> n"
proof -
  have ok': "table_ok t'" using table_step_ok[OF ok] t' by auto
  show ?thesis
  proof (cases "t_free_values t' = []")
    case True
    then show ?thesis using table_storage[OF ok'] n(2) by simp
  next
    case False
    have "length (t_values t') \<le> length (t_values t)"
    proof (cases op)
      case (Op_Insert p v)
      then show ?thesis using t' False
        by (auto simp: table_insert_def table_allocate_def Let_def split_def split: option.splits bind_splits if_splits)
    next
      case (Op_Delete p)
      then show ?thesis using t'
        by (auto simp: table_delete_def table_release_def Let_def split_def split: option.splits bind_splits if_splits)
    qed (use t' in \<open>auto simp: table_clear_def table_new_def\<close>)
    then show ?thesis using n(1) by simp
  qed
qed

lemma table_run_storage:
  assumes "table_ok s" "list_all op_wf ops" "table_run ops s = Some (t, outs)" "length (t_values s) \<le> n"
    and "\<And>k. card (dom (fst (map_run (take k ops) (table_map s)))) \<le> n"
  shows "length (t_values t) \<le> n"
  using assms
proof (induction ops arbitrary: s outs)
  case (Cons op ops)
  obtain s1 where s1: "table_step op s = Some (s1, snd (map_step op (table_map s)))" "table_ok s1"
      "table_map s1 = fst (map_step op (table_map s))"
    using table_step_ok[of s op] Cons.prems(1,2) by auto
  have len: "card (dom (fst (map_run (take k ops) (table_map s1)))) \<le> n" for k
    using Cons.prems(5)[of "Suc k"] s1(3) by (simp add: split_def Let_def)
  then have "table_len s1 \<le> n" using len[of 0] table_len_ok[OF s1(2)] by simp
  then have "length (t_values s1) \<le> n"
    using table_storage_step[OF Cons.prems(1) _ s1(1) Cons.prems(4)] Cons.prems(2) by simp
  moreover obtain outs' where "table_run ops s1 = Some (t, outs')"
    using Cons.prems(3) s1(1) by (auto split: bind_splits prod.splits)
  ultimately show ?case using Cons.IH[OF s1(2) _ _ _ len] Cons.prems(2) by simp
qed simp

lemmas table_run_new = table_run_ok[OF table_new_ok(1), unfolded table_new_ok(2)]

subsection \<open>The interface of the table\<close>

text \<open>
  What a client of the table relies on: insertion of a prefix updates the map of routes, and lookup
  returns the value of the longest prefix that contains the address.  The lemma is what a set of
  prefixes needs: an address is found if and only if one of the inserted prefixes contains it.
\<close>

locale route_table =
  fixes ok :: "'t \<Rightarrow> bool"
    and routes :: "'t \<Rightarrow> art_prefix \<Rightarrow> 'v option"
    and new :: 't
    and insert_route :: "art_prefix \<Rightarrow> 'v \<Rightarrow> 't \<Rightarrow> ('t \<times> 'v option) option"
    and lookup :: "ipaddr \<Rightarrow> 't \<Rightarrow> 'v option option"
  assumes new_ok: "ok new" and routes_new: "routes new = (\<lambda>_. None)"
    and insert_law: "ok t \<Longrightarrow> prefix_wf p \<Longrightarrow>
      \<exists>t'. insert_route p v t = Some (t', routes t (masked p)) \<and> ok t' \<and> routes t' = (routes t)(masked p \<mapsto> v)"
    and lookup_law: "ok t \<Longrightarrow> \<exists>res. lookup ip t = Some res \<and> longest_match (routes t) ip res"
begin

fun insert_all :: "(art_prefix \<times> 'v) list \<Rightarrow> 't \<Rightarrow> 't option" where
  "insert_all [] t = Some t"
| "insert_all ((p, v) # ps) t = do { (t, _) \<leftarrow> insert_route p v t; insert_all ps t }"

lemma insert_all_routes:
  assumes "ok t" "list_all (\<lambda>(p, v). prefix_wf p) ps"
  shows "\<exists>t'. insert_all ps t = Some t' \<and> ok t' \<and>
    dom (routes t') = dom (routes t) \<union> (masked \<circ> fst) ` set ps"
  using assms
proof (induction ps arbitrary: t)
  case (Cons pv ps)
  obtain p v where pv: "pv = (p, v)" by force
  then obtain t1 where t1: "insert_route p v t = Some (t1, routes t (masked p))" "ok t1"
      "routes t1 = (routes t)(masked p \<mapsto> v)"
    using insert_law[of t p v] Cons.prems by auto
  from Cons.IH[OF t1(2)] Cons.prems(2) t1(1,3) pv show ?case by auto
qed simp

lemma lookup_found:
  assumes "ok t" shows "\<exists>res. lookup ip t = Some res \<and> (res \<noteq> None \<longleftrightarrow> (\<exists>p \<in> dom (routes t). art_contains p ip))"
proof -
  obtain res where res: "lookup ip t = Some res" "longest_match (routes t) ip res" using lookup_law[OF assms] by blast
  then have "res \<noteq> None \<longleftrightarrow> (\<exists>p \<in> dom (routes t). art_contains p ip)"
    by (cases res) (auto simp: longest_match_def)
  then show ?thesis using res(1) by blast
qed

lemma member_law:
  assumes "list_all (\<lambda>(p, v). prefix_wf p) ps"
  shows "\<exists>t res. insert_all ps new = Some t \<and> lookup ip t = Some res \<and>
    (res \<noteq> None \<longleftrightarrow> (\<exists>p \<in> fst ` set ps. art_contains p ip))"
proof -
  obtain t where t: "insert_all ps new = Some t" "ok t" "dom (routes t) = (masked \<circ> fst) ` set ps"
    using insert_all_routes[OF new_ok assms] routes_new by auto
  have "art_contains (masked p) ip \<longleftrightarrow> art_contains p ip" if "p \<in> fst ` set ps" for p
  proof -
    have "prefix_wf p" using that assms by (auto simp: list_all_iff)
    then show ?thesis by (simp add: art_contains_pbits)
  qed
  then show ?thesis using lookup_found[OF t(2), of ip] t(1,3) by auto
qed

end

interpretation art_table: route_table table_ok table_map table_new table_insert table_get
proof unfold_locales
  show "\<exists>t'. table_insert p v t = Some (t', table_map t (masked p)) \<and> table_ok t' \<and>
      table_map t' = (table_map t)(masked p \<mapsto> v)" if "table_ok t" "prefix_wf p" for t p and v :: 'a
    using table_insert_ok[OF that, of v] by blast
qed (use table_new_ok table_get_ok in simp_all)

subsection \<open>Properties of the routing table\<close>

text \<open>C4. A routing table behaves like a finite map from normalised prefixes to values: any sequence
of \<open>insert\<close>, \<open>delete\<close> and \<open>clear\<close> on a new table runs without a panic (no \<open>assert\<close> of the code
fails and no route id is stale), returns the previous value of each prefix, and leaves a table whose
routes, exact lookups, length and iteration (in the order of the prefixes) are those of the map.\<close>

theorem table_refines_map:
  assumes "list_all op_wf ops"
  shows "\<exists>t. table_run ops table_new = Some (t, snd (map_run ops (\<lambda>_. None))) \<and>
    (let m = fst (map_run ops (\<lambda>_. None)) in
       (\<forall>p. table_get_prefix p t = Some (m (masked p))) \<and> table_len t = card (dom m) \<and>
       (\<exists>kvs. table_iter t = Some kvs \<and> map_of kvs = m \<and> sorted (map fst kvs) \<and> distinct (map fst kvs)))"
proof -
  obtain t where t: "table_run ops table_new = Some (t, snd (map_run ops (\<lambda>_. None)))" "table_ok t"
      "table_map t = fst (map_run ops (\<lambda>_. None))"
    using table_run_new[OF assms] by blast
  obtain kvs where "table_iter t = Some kvs" "map_of kvs = table_map t" "sorted (map fst kvs)" "distinct (map fst kvs)"
    by (rule table_iter_ok[OF t(2)])
  then show ?thesis using t(1) table_get_prefix_ok[OF t(2)] table_len_ok[OF t(2)] unfolding t(3) Let_def by blast
qed

theorem table_refines_map_witness:
  "\<exists>t. table_run [Op_Insert (Art_Prefix (V4 0x0A000000) 8) True, Op_Delete (Art_Prefix (V6 1) 128)] table_new =
      Some (t, [None, None]) \<and> table_len t = 1"
proof -
  have ops: "list_all op_wf [Op_Insert (Art_Prefix (V4 0x0A000000) 8) True, Op_Delete (Art_Prefix (V6 1) 128)]"
    by (simp add: prefix_wf_def addr_len_def)
  have "a_bits (masked (Art_Prefix (V6 1) 128)) \<noteq> a_bits (masked (Art_Prefix (V4 0x0A000000) 8))" by simp
  then have "masked (Art_Prefix (V6 1) 128) \<noteq> masked (Art_Prefix (V4 0x0A000000) 8)" by metis
  then have m: "map_run [Op_Insert (Art_Prefix (V4 0x0A000000) 8) True, Op_Delete (Art_Prefix (V6 1) 128)] (\<lambda>_. None) =
      ([masked (Art_Prefix (V4 0x0A000000) 8) \<mapsto> True], [None, None])"
    by (simp add: fun_upd_idem)
  show ?thesis using table_refines_map[OF ops] unfolding m Let_def fst_conv snd_conv by fastforce
qed

text \<open>C2. After any sequence of operations, \<open>get\<close> returns the value of the longest installed prefix
that contains the address, and nothing when no installed prefix contains it; it never overflows its
array of sixteen matches and never reads a released slot.\<close>

theorem table_get_longest_prefix:
  assumes "list_all op_wf ops"
  shows "\<exists>t outs res. table_run ops table_new = Some (t, outs) \<and> table_get addr t = Some res \<and>
    longest_match (fst (map_run ops (\<lambda>_. None))) addr res"
proof -
  obtain t where t: "table_run ops table_new = Some (t, snd (map_run ops (\<lambda>_. None)))" "table_ok t"
      "table_map t = fst (map_run ops (\<lambda>_. None))"
    using table_run_new[OF assms] by blast
  show ?thesis using table_get_ok[OF t(2), of addr] t(1) unfolding t(3) by blast
qed

theorem table_get_longest_prefix_witness:
  "\<exists>t outs res. table_run [Op_Insert (Art_Prefix (V4 0x0A000000) 8) True] table_new = Some (t, outs) \<and>
     table_get (V4 0x0A010203) t = Some res \<and>
     longest_match (fst (map_run [Op_Insert (Art_Prefix (V4 0x0A000000) 8) True] (\<lambda>_. None))) (V4 0x0A010203) res"
  by (rule table_get_longest_prefix) (simp add: prefix_wf_def addr_len_def)

text \<open>C21. The values of a table never take more slots than the largest number of prefixes that were
installed at the same time: replacing a value reuses its slot and a freed slot is used again.\<close>

theorem table_storage_bounded:
  assumes "list_all op_wf ops" "table_run ops table_new = Some (t, outs)"
    and "\<And>k. card (dom (fst (map_run (take k ops) (\<lambda>_. None)))) \<le> n"
  shows "length (t_values t) \<le> n"
  using table_run_storage[OF table_new_ok(1) assms(1,2), unfolded table_new_ok(2), OF _ assms(3)]
  by (simp add: table_new_def)

theorem table_storage_bounded_witness:
  "\<exists>t outs. table_run [Op_Insert (Art_Prefix (V4 1) 32) True, Op_Insert (Art_Prefix (V4 1) 32) False] table_new = Some (t, outs) \<and>
     length (t_values t) \<le> 1"
proof -
  let ?ops = "[Op_Insert (Art_Prefix (V4 1) 32) True, Op_Insert (Art_Prefix (V4 1) 32) False]"
  have ops: "list_all op_wf ?ops" by (simp add: prefix_wf_def addr_len_def)
  then obtain t outs where t: "table_run ?ops table_new = Some (t, outs)" using table_run_new by blast
  have "card (dom (fst (map_run (take k ?ops) (\<lambda>_. None)))) \<le> 1" for k
    by (cases k; cases "k - 1") simp_all
  from table_storage_bounded[OF ops t this] t show ?thesis by blast
qed

end
