(* ===== verification/Ipset.thy ===== *)
theory Ipset
  imports Art_Table
begin

text \<open>
  \<open>crates/ipset/src/lib.rs\<close>: membership of an address in a list of prefixes.  The code picks one
  of seven representations from the shape of the list; the theorem shows that they all decide the
  same predicate.
\<close>

datatype strategy =
    Strat_Empty
  | Strat_OnePrefix art_prefix
  | Strat_Linear "art_prefix list"
  | Strat_Table "unit table"
  | Strat_OneIp ipaddr
  | Strat_TwoIp ipaddr ipaddr
  | Strat_IpMap "ipaddr set"

definition is_single_ip :: "art_prefix \<Rightarrow> bool" where
  "is_single_ip prefix \<longleftrightarrow> a_bits prefix = (if is_ipv4 (a_addr prefix) then 32 else 128)"

definition false_contains_ip_func :: strategy where
  "false_contains_ip_func = Strat_Empty"

fun insert_prefixes :: "art_prefix list \<Rightarrow> unit table \<Rightarrow> unit table option" where
  "insert_prefixes [] t = Some t"
| "insert_prefixes (prefix # prefixes) t = do { (t, _) \<leftarrow> table_insert prefix () t; insert_prefixes prefixes t }"

definition new_contains_ip_func :: "art_prefix list \<Rightarrow> strategy option" where
  "new_contains_ip_func prefixes =
     (if prefixes = [] then Some Strat_Empty
      else if list_ex (\<lambda>prefix. \<not> is_single_ip prefix) prefixes then
        (case prefixes of
           [prefix] \<Rightarrow> Some (Strat_OnePrefix prefix)
         | _ \<Rightarrow>
             if length prefixes \<le> 6 then Some (Strat_Linear prefixes)
             else map_option Strat_Table (insert_prefixes prefixes table_new))
      else
        (case prefixes of
           [prefix] \<Rightarrow> Some (Strat_OneIp (a_addr prefix))
         | [first, second] \<Rightarrow> Some (Strat_TwoIp (a_addr first) (a_addr second))
         | _ \<Rightarrow> Some (Strat_IpMap (a_addr ` set prefixes))))"

fun strategy_contains :: "strategy \<Rightarrow> ipaddr \<Rightarrow> bool option" where
  "strategy_contains Strat_Empty ip = Some False"
| "strategy_contains (Strat_OnePrefix prefix) ip = Some (art_contains prefix ip)"
| "strategy_contains (Strat_Linear prefixes) ip = Some (list_ex (\<lambda>prefix. art_contains prefix ip) prefixes)"
| "strategy_contains (Strat_Table table) ip = map_option (\<lambda>v. v \<noteq> None) (table_get ip table)"
| "strategy_contains (Strat_OneIp first) ip = Some (ip = first)"
| "strategy_contains (Strat_TwoIp first second) ip = Some (ip = first \<or> ip = second)"
| "strategy_contains (Strat_IpMap ips) ip = Some (ip \<in> ips)"

lemma insert_prefixes_insert_all:
  "insert_prefixes ps t = art_table.insert_all (map (\<lambda>p. (p, ())) ps) t"
  by (induction ps arbitrary: t) simp_all

lemma single_ip_contains:
  assumes "is_single_ip p" shows "art_contains p ip \<longleftrightarrow> ip = a_addr p"
  by (rule art_prefix.contains_host) (use assms in \<open>simp add: is_single_ip_def addr_len_def\<close>)

lemma table_strategy:
  assumes "list_all prefix_wf ps"
  shows "\<exists>t. insert_prefixes ps table_new = Some t \<and>
    strategy_contains (Strat_Table t) ip = Some (\<exists>p \<in> set ps. art_contains p ip)"
proof -
  have "list_all (\<lambda>(p, v). prefix_wf p) (map (\<lambda>p. (p, ())) ps)" using assms by (simp add: list_all_iff)
  from art_table.member_law[OF this, of ip] show ?thesis
    by (auto simp: insert_prefixes_insert_all image_image)
qed

lemma new_contains_ip_func_ok:
  assumes "list_all prefix_wf ps"
  shows "\<exists>s. new_contains_ip_func ps = Some s \<and> strategy_contains s ip = Some (\<exists>p \<in> set ps. art_contains p ip)"
proof (cases "list_ex (\<lambda>p. \<not> is_single_ip p) ps")
  case True
  show ?thesis
  proof (cases "length ps \<le> 6")
    case short: True
    then show ?thesis using True
      by (auto simp: new_contains_ip_func_def list_ex_iff split: list.split)
  next
    case False
    then have "new_contains_ip_func ps = map_option Strat_Table (insert_prefixes ps table_new)"
      using True by (auto simp: new_contains_ip_func_def split: list.split)
    then show ?thesis using table_strategy[OF assms, of ip] by auto
  qed
next
  case False
  then have single: "\<And>p. p \<in> set ps \<Longrightarrow> art_contains p ip \<longleftrightarrow> ip = a_addr p"
    by (auto simp: list_ex_iff single_ip_contains)
  then show ?thesis using False
    by (auto simp: new_contains_ip_func_def split: list.split)
qed

subsection \<open>The interface of a set of addresses\<close>

text \<open>
  What the packet filter relies on: a set built from prefixes answers membership of an address.
\<close>

locale ip_membership =
  fixes build :: "art_prefix list \<Rightarrow> 's option"
    and member :: "'s \<Rightarrow> ipaddr \<Rightarrow> bool option"
  assumes build_member: "list_all prefix_wf ps \<Longrightarrow>
    \<exists>s. build ps = Some s \<and> (\<forall>ip. member s ip = Some (\<exists>p \<in> set ps. art_contains p ip))"
begin

lemma member_total: "list_all prefix_wf ps \<Longrightarrow> build ps = Some s \<Longrightarrow> \<exists>b. member s ip = Some b"
  using build_member by fastforce

lemma member_net: "list_all prefix_wf ps \<Longrightarrow> build ps = Some s \<Longrightarrow> p \<in> set ps \<Longrightarrow> member s (a_addr p) = Some True"
  using build_member[of ps] art_prefix.contains_net by (fastforce simp: prefix_wf_def list_all_iff)

lemma member_mono:
  assumes "list_all prefix_wf ps" "list_all prefix_wf qs" "set ps \<subseteq> set qs" "build ps = Some s" "build qs = Some r"
    and "member s ip = Some True"
  shows "member r ip = Some True"
  using build_member[OF assms(1)] build_member[OF assms(2)] assms(3-) by auto

end

interpretation ip_set: ip_membership new_contains_ip_func strategy_contains
proof unfold_locales
  fix ps assume ps: "list_all prefix_wf ps"
  obtain s where "new_contains_ip_func ps = Some s" using new_contains_ip_func_ok[OF ps] by blast
  then show "\<exists>s. new_contains_ip_func ps = Some s \<and> (\<forall>ip. strategy_contains s ip = Some (\<exists>p \<in> set ps. art_contains p ip))"
    using new_contains_ip_func_ok[OF ps] by auto
qed

text \<open>C18. Whatever representation is chosen for a list of prefixes, building it does not panic and
the predicate it stands for holds of exactly the addresses that one of the prefixes contains.\<close>

theorem ipset_strategies_agree:
  assumes "list_all prefix_wf prefixes"
  shows "\<exists>s. new_contains_ip_func prefixes = Some s \<and>
    (\<forall>ip. strategy_contains s ip = Some (list_ex (\<lambda>p. art_contains p ip) prefixes))"
  using ip_set.build_member[OF assms] by (simp add: list_ex_iff)

theorem ipset_strategies_agree_witness:
  "\<exists>s. new_contains_ip_func [Art_Prefix (V4 0x0A000000) 8, Art_Prefix (V6 1) 128] = Some s \<and>
    (\<forall>ip. strategy_contains s ip =
       Some (list_ex (\<lambda>p. art_contains p ip) [Art_Prefix (V4 0x0A000000) 8, Art_Prefix (V6 1) 128]))"
  by (rule ipset_strategies_agree) (simp add: prefix_wf_def addr_len_def)

end
