(* ===== verification/Deephash.thy ===== *)
theory Deephash
  imports Tailcfg_Filter "HOL-Library.Multiset"
begin

text \<open>
  Structural hashing for change detection (\<open>crates/deephash\<close>).  SHA-256 comes from a library: it
  is the parameter \<open>sha\<close>, a function from the bytes fed to it to the digest, and the state of the
  library's object is the list of bytes it was fed.  The lemmas show that the block buffer of
  \<open>Hasher\<close> is transparent, that the byte stream of a value determines the value, and that maps and
  sets do not depend on the order of iteration.
\<close>

subsection \<open>The buffered hasher\<close>

type_synonym sum = bytes

definition BLOCK_SIZE :: nat where "BLOCK_SIZE = 64"

record hasher =
  h_inner :: bytes
  h_buffer :: bytes
  h_used :: nat

definition hasher_new :: hasher where
  "hasher_new = \<lparr>h_inner = [], h_buffer = replicate BLOCK_SIZE 0, h_used = 0\<rparr>"

definition flush :: "hasher \<Rightarrow> hasher" where
  "flush h =
     (if h_used h \<noteq> 0 then h\<lparr>h_inner := h_inner h @ take (h_used h) (h_buffer h), h_used := 0\<rparr> else h)"

text \<open>The two halves of \<open>hash_bytes\<close>: top up a partly filled block, then the rest of the input.\<close>

definition fill_buffer :: "bytes \<Rightarrow> hasher \<Rightarrow> hasher \<times> bytes" where
  "fill_buffer bs h =
     (if h_used h \<noteq> 0 then
        let copied = min (BLOCK_SIZE - h_used h) (length bs);
            h = h\<lparr>h_buffer := take (h_used h) (h_buffer h) @ take copied bs @
                    drop (h_used h + copied) (h_buffer h),
                  h_used := h_used h + copied\<rparr>;
            bs = drop copied bs;
            h = (if h_used h = BLOCK_SIZE then flush h else h)
        in (h, bs)
      else (h, bs))"

definition hash_blocks :: "bytes \<Rightarrow> hasher \<Rightarrow> hasher" where
  "hash_blocks bs h =
     (let whole_blocks = length bs div BLOCK_SIZE * BLOCK_SIZE;
          (h, bs) =
            (if whole_blocks \<noteq> 0
             then (h\<lparr>h_inner := h_inner h @ take whole_blocks bs\<rparr>, drop whole_blocks bs)
             else (h, bs))
      in if bs \<noteq> []
         then h\<lparr>h_buffer := bs @ drop (length bs) (h_buffer h), h_used := length bs\<rparr>
         else h)"

definition hash_bytes :: "bytes \<Rightarrow> hasher \<Rightarrow> hasher" where
  "hash_bytes bs h = (let (h, bs) = fill_buffer bs h in hash_blocks bs h)"

definition to_le_bytes :: "'a::len word \<Rightarrow> bytes" where
  "to_le_bytes w = rev (to_be_bytes w)"

definition from_le_bytes :: "bytes \<Rightarrow> 'a::len word" where
  "from_le_bytes bs = from_be_bytes (rev bs)"

definition hash_string :: "string \<Rightarrow> hasher \<Rightarrow> hasher" where
  "hash_string s = hash_bytes (str_bytes s)"

definition hash_uint8 :: "u8 \<Rightarrow> hasher \<Rightarrow> hasher" where
  "hash_uint8 v = hash_bytes [v]"

definition hash_uint16 :: "u16 \<Rightarrow> hasher \<Rightarrow> hasher" where
  "hash_uint16 v = hash_bytes (to_le_bytes v)"

definition hash_uint32 :: "u32 \<Rightarrow> hasher \<Rightarrow> hasher" where
  "hash_uint32 v = hash_bytes (to_le_bytes v)"

definition hash_uint64 :: "u64 \<Rightarrow> hasher \<Rightarrow> hasher" where
  "hash_uint64 v = hash_bytes (to_le_bytes v)"

text \<open>\<open>chunks_exact(n)\<close>: a shorter rest is left out.\<close>

function chunks_exact :: "nat \<Rightarrow> 'a list \<Rightarrow> 'a list list" where
  "chunks_exact n xs =
     (if 0 < n \<and> n \<le> length xs then take n xs # chunks_exact n (drop n xs) else [])"
  by pat_completeness auto
termination by (relation "measure (\<lambda>(_, xs). length xs)") auto

declare chunks_exact.simps [simp del]

definition hash_sum :: "sum \<Rightarrow> hasher \<Rightarrow> hasher" where
  "hash_sum s h = fold (\<lambda>chunk. hash_uint64 (from_le_bytes chunk)) (chunks_exact 8 s) h"

definition finalize :: "(bytes \<Rightarrow> sum) \<Rightarrow> hasher \<Rightarrow> sum \<times> hasher" where
  "finalize sha h =
     (let h = flush h; output = sha (h_inner h) in (output, h\<lparr>h_inner := [], h_used := 0\<rparr>))"

definition hasher_reset :: "hasher \<Rightarrow> hasher" where
  "hasher_reset h = h\<lparr>h_inner := [], h_used := 0\<rparr>"

definition sum_default :: sum where "sum_default = replicate 32 0"

definition sum_xor :: "sum \<Rightarrow> sum \<Rightarrow> sum" where
  "sum_xor a b = map2 (XOR) a b"

subsection \<open>Hashing the standard types\<close>

definition deep_hash_bool :: "bool \<Rightarrow> hasher \<Rightarrow> hasher" where
  "deep_hash_bool b = hash_uint8 (of_bool b)"

definition deep_hash_str :: "string \<Rightarrow> hasher \<Rightarrow> hasher" where
  "deep_hash_str s h = hash_string s (hash_uint64 (of_nat (length s)) h)"

definition deep_hash_slice :: "('a \<Rightarrow> hasher \<Rightarrow> hasher) \<Rightarrow> 'a list \<Rightarrow> hasher \<Rightarrow> hasher" where
  "deep_hash_slice f xs h = fold f xs (hash_uint64 (of_nat (length xs)) (hash_uint8 1 h))"

definition deep_hash_array :: "('a \<Rightarrow> hasher \<Rightarrow> hasher) \<Rightarrow> 'a list \<Rightarrow> hasher \<Rightarrow> hasher" where
  "deep_hash_array f xs h = fold f xs h"

fun deep_hash_option :: "('a \<Rightarrow> hasher \<Rightarrow> hasher) \<Rightarrow> 'a option \<Rightarrow> hasher \<Rightarrow> hasher" where
  "deep_hash_option f (Some v) h = f v (hash_uint8 1 h)"
| "deep_hash_option f None h = hash_uint8 0 h"

fun deep_hash_result :: "('e \<Rightarrow> hasher \<Rightarrow> hasher) \<Rightarrow> ('a \<Rightarrow> hasher \<Rightarrow> hasher) \<Rightarrow> 'e + 'a \<Rightarrow> hasher \<Rightarrow> hasher" where
  "deep_hash_result fe fa (Inr v) h = fa v (hash_uint8 0 h)"
| "deep_hash_result fe fa (Inl e) h = fe e (hash_uint8 1 h)"

definition deep_hash_pair :: "('a \<Rightarrow> hasher \<Rightarrow> hasher) \<Rightarrow> ('b \<Rightarrow> hasher \<Rightarrow> hasher) \<Rightarrow> 'a \<times> 'b \<Rightarrow> hasher \<Rightarrow> hasher" where
  "deep_hash_pair f g p h = g (snd p) (f (fst p) h)"

definition hash_non_null_pointer :: "('a \<Rightarrow> hasher \<Rightarrow> hasher) \<Rightarrow> 'a \<Rightarrow> hasher \<Rightarrow> hasher" where
  "hash_non_null_pointer f v h = f v (hash_uint8 1 h)"

text \<open>The entries in the order of the iterator; each entry has a hasher of its own.\<close>

definition hash_map :: "(bytes \<Rightarrow> sum) \<Rightarrow> ('k \<Rightarrow> hasher \<Rightarrow> hasher) \<Rightarrow> ('v \<Rightarrow> hasher \<Rightarrow> hasher) \<Rightarrow>
    ('k \<times> 'v) list \<Rightarrow> hasher \<Rightarrow> hasher" where
  "hash_map sha fk fv entries h =
     (let h = hash_uint64 (of_nat (length entries)) (hash_uint8 1 h);
          sum = foldl (\<lambda>sum (key, val). sum_xor sum (fst (finalize sha (fv val (fk key hasher_new)))))
                  sum_default entries
      in hash_sum sum h)"

definition hash_set :: "(bytes \<Rightarrow> sum) \<Rightarrow> ('a \<Rightarrow> hasher \<Rightarrow> hasher) \<Rightarrow> 'a list \<Rightarrow> hasher \<Rightarrow> hasher" where
  "hash_set sha f entries h =
     (let h = hash_uint64 (of_nat (length entries)) (hash_uint8 1 h);
          sum = foldl (\<lambda>sum val. sum_xor sum (fst (finalize sha (f val hasher_new)))) sum_default entries
      in hash_sum sum h)"

fun deep_hash_ipaddr :: "ipaddr \<Rightarrow> hasher \<Rightarrow> hasher" where
  "deep_hash_ipaddr (V4 a) h = hash_bytes (octets (V4 a)) (hash_uint64 4 h)"
| "deep_hash_ipaddr (V6 a) h = hash_bytes (octets (V6 a)) (hash_uint64 16 h)"

subsection \<open>Hashing the filter rules\<close>

definition deep_hash_port_range :: "tc_port_range \<Rightarrow> hasher \<Rightarrow> hasher" where
  "deep_hash_port_range r h = hash_uint16 (Last r) (hash_uint16 (First r) h)"

definition deep_hash_net_port_range :: "tc_net_port_range \<Rightarrow> hasher \<Rightarrow> hasher" where
  "deep_hash_net_port_range r h =
     deep_hash_port_range (Ports r) (deep_hash_option hash_uint32 (Bits r) (deep_hash_str (IP r) h))"

definition deep_hash_cap_grant :: "(bytes \<Rightarrow> sum) \<Rightarrow> cap_grant \<Rightarrow> hasher \<Rightarrow> hasher" where
  "deep_hash_cap_grant sha g h =
     hash_map sha deep_hash_str (deep_hash_slice deep_hash_str) (CapMap g)
       (deep_hash_slice deep_hash_str (Caps g) (deep_hash_slice deep_hash_str (Dsts g) h))"

definition deep_hash_filter_rule :: "(bytes \<Rightarrow> sum) \<Rightarrow> filter_rule \<Rightarrow> hasher \<Rightarrow> hasher" where
  "deep_hash_filter_rule sha r h =
     deep_hash_slice (deep_hash_cap_grant sha) (CapGrant r)
       (deep_hash_slice hash_uint32 (IPProto r)
         (deep_hash_slice deep_hash_net_port_range (DstPorts r)
           (deep_hash_slice hash_uint32 (SrcBits r)
             (deep_hash_slice deep_hash_str (SrcIPs r) h))))"

text \<open>
  \<open>hash\<close> and \<open>update\<close>: the stream starts with the seed of the process and the name of the type.
\<close>

definition deephash :: "(bytes \<Rightarrow> sum) \<Rightarrow> u64 \<Rightarrow> string \<Rightarrow> ('a \<Rightarrow> hasher \<Rightarrow> hasher) \<Rightarrow> 'a \<Rightarrow> sum" where
  "deephash sha seed type_name f v =
     (let h = hash_uint64 seed hasher_new;
          h = hash_uint64 (of_nat (length type_name)) h;
          h = hash_string type_name h
      in fst (finalize sha (f v h)))"

definition deephash_update ::
    "(bytes \<Rightarrow> sum) \<Rightarrow> u64 \<Rightarrow> string \<Rightarrow> ('a \<Rightarrow> hasher \<Rightarrow> hasher) \<Rightarrow> sum \<Rightarrow> 'a \<Rightarrow> sum \<times> bool" where
  "deephash_update sha seed type_name f last_sum v =
     (let current = deephash sha seed type_name f v
      in if last_sum \<noteq> current then (current, True) else (last_sum, False))"

subsection \<open>The buffer is transparent\<close>

definition hasher_ok :: "hasher \<Rightarrow> bool" where
  "hasher_ok h \<longleftrightarrow> length (h_buffer h) = BLOCK_SIZE \<and> h_used h < BLOCK_SIZE"

definition fed :: "hasher \<Rightarrow> bytes" where
  "fed h = h_inner h @ take (h_used h) (h_buffer h)"

lemma hasher_new_ok [simp]: "hasher_ok hasher_new" "fed hasher_new = []"
  by (simp_all add: hasher_ok_def fed_def hasher_new_def BLOCK_SIZE_def)

lemma hash_blocks_fed:
  assumes "length (h_buffer h) = BLOCK_SIZE" "h_used h = 0"
  shows "hasher_ok (hash_blocks bs h)" "fed (hash_blocks bs h) = h_inner h @ bs"
proof -
  define w where "w = length bs div BLOCK_SIZE * BLOCK_SIZE"
  have w: "w \<le> length bs" "length bs - w < BLOCK_SIZE"
    by (simp_all add: w_def minus_div_mult_eq_mod BLOCK_SIZE_def)
  have "hasher_ok (hash_blocks bs h) \<and> fed (hash_blocks bs h) = h_inner h @ bs"
    unfolding hash_blocks_def Let_def w_def[symmetric]
    using assms w by (cases "w = 0"; cases "drop w bs = []") (auto simp: hasher_ok_def fed_def BLOCK_SIZE_def)
  then show "hasher_ok (hash_blocks bs h)" "fed (hash_blocks bs h) = h_inner h @ bs" by blast+
qed

lemma fill_buffer_fed:
  assumes "hasher_ok h" "fill_buffer bs h = (h', bs')"
  shows "hasher_ok h'" "fed h' @ bs' = fed h @ bs" "bs' \<noteq> [] \<Longrightarrow> h_used h' = 0"
proof -
  have "hasher_ok h' \<and> fed h' @ bs' = fed h @ bs \<and> (bs' \<noteq> [] \<longrightarrow> h_used h' = 0)"
    using assms unfolding fill_buffer_def
    by (auto simp: hasher_ok_def fed_def flush_def Let_def min_def BLOCK_SIZE_def split: if_splits)
  then show "hasher_ok h'" "fed h' @ bs' = fed h @ bs" "bs' \<noteq> [] \<Longrightarrow> h_used h' = 0" by blast+
qed

lemma hash_bytes_fed [simp]:
  assumes "hasher_ok h"
  shows "hasher_ok (hash_bytes bs h)" "fed (hash_bytes bs h) = fed h @ bs"
proof -
  obtain h' bs' where f: "fill_buffer bs h = (h', bs')" by force
  note h' = fill_buffer_fed[OF assms f]
  have "hasher_ok (hash_blocks bs' h') \<and> fed (hash_blocks bs' h') = fed h' @ bs'"
  proof (cases "h_used h' = 0")
    case True
    then show ?thesis using hash_blocks_fed[of h' bs'] h'(1) by (simp add: hasher_ok_def fed_def)
  next
    case False
    then have "bs' = []" using h'(3) by auto
    then show ?thesis using h'(1) by (simp add: hash_blocks_def)
  qed
  then show "hasher_ok (hash_bytes bs h)" "fed (hash_bytes bs h) = fed h @ bs"
    using f h'(2) by (simp_all add: hash_bytes_def)
qed

lemma finalize_fed:
  "fst (finalize sha h) = sha (fed h)" "hasher_ok h \<Longrightarrow> hasher_ok (snd (finalize sha h)) \<and> fed (snd (finalize sha h)) = []"
  by (auto simp: finalize_def flush_def fed_def hasher_ok_def Let_def BLOCK_SIZE_def)

subsection \<open>Byte streams\<close>

text \<open>\<open>streams f enc\<close>: hashing a value feeds the bytes \<open>enc\<close> gives for it.\<close>

definition streams :: "('a \<Rightarrow> hasher \<Rightarrow> hasher) \<Rightarrow> ('a \<Rightarrow> bytes) \<Rightarrow> bool" where
  "streams f enc \<longleftrightarrow> (\<forall>x h. hasher_ok h \<longrightarrow> hasher_ok (f x h) \<and> fed (f x h) = fed h @ enc x)"

named_theorems stream_intros \<open>byte streams of the hashing functions\<close>

lemma streamsD: "streams f enc \<Longrightarrow> hasher_ok h \<Longrightarrow> hasher_ok (f x h)" "streams f enc \<Longrightarrow> hasher_ok h \<Longrightarrow> fed (f x h) = fed h @ enc x"
  by (simp_all add: streams_def)

lemma streams_seq: "streams f e \<Longrightarrow> streams g e' \<Longrightarrow> streams (\<lambda>x h. g (p x) (f (q x) h)) (\<lambda>x. e (q x) @ e' (p x))"
  by (simp add: streams_def)

lemma streams_bytes [stream_intros]: "streams hash_bytes (\<lambda>bs. bs)"
  by (simp add: streams_def)

lemma streams_comp: "streams f enc \<Longrightarrow> streams (\<lambda>x. f (g x)) (\<lambda>x. enc (g x))"
  by (simp add: streams_def)

lemma streams_uint [stream_intros]:
  "streams hash_uint8 (\<lambda>v. [v])" "streams hash_uint16 to_le_bytes" "streams hash_uint32 to_le_bytes"
  "streams hash_uint64 to_le_bytes" "streams hash_string str_bytes"
  by (simp_all add: streams_def hash_uint8_def hash_uint16_def hash_uint32_def hash_uint64_def hash_string_def)

lemma streams_fold:
  assumes "streams f enc" shows "streams (fold f) (\<lambda>xs. concat (map enc xs))"
  unfolding streams_def
proof (intro allI impI)
  fix xs h assume "hasher_ok h"
  then show "hasher_ok (fold f xs h) \<and> fed (fold f xs h) = fed h @ concat (map enc xs)"
    by (induction xs arbitrary: h) (simp_all add: streamsD[OF assms])
qed

lemma from_to_le_bytes: "8 dvd LENGTH('a::len) \<Longrightarrow> from_le_bytes (to_le_bytes (w :: 'a word)) = w"
  by (simp add: from_le_bytes_def to_le_bytes_def from_to_be_bytes)

lemma to_from_le_bytes: "8 * length bs = LENGTH('a::len) \<Longrightarrow> to_le_bytes (from_le_bytes bs :: 'a word) = bs"
  by (simp add: from_le_bytes_def to_le_bytes_def to_from_be_bytes)

lemma length_to_le_bytes [simp]: "length (to_le_bytes (w :: 'a::len word)) = LENGTH('a) div 8"
  by (simp add: to_le_bytes_def)

lemma chunks_exact_concat: "0 < n \<Longrightarrow> n dvd length xs \<Longrightarrow> concat (chunks_exact n xs) = xs"
proof (induction n xs rule: chunks_exact.induct)
  case (1 n xs)
  show ?case
  proof (cases "n \<le> length xs")
    case True
    then have "n dvd length (drop n xs)" using 1(3) by (simp add: dvd_diff_nat)
    then show ?thesis using 1(1)[OF conjI[OF 1(2) True] 1(2)] True 1(2) by (subst chunks_exact.simps) simp
  next
    case False
    then have "xs = []" using 1(2,3) by (metis dvd_imp_le length_greater_0_conv not_less)
    then show ?thesis using 1(2) by (simp add: chunks_exact.simps[of n "[]"])
  qed
qed

lemma chunks_exact_length: "c \<in> set (chunks_exact n xs) \<Longrightarrow> length c = n"
proof (induction n xs rule: chunks_exact.induct)
  case (1 n xs)
  then show ?case using chunks_exact.simps[of n xs] by (auto split: if_splits)
qed

lemma hash_sum_fed:
  assumes "length s = 32" "hasher_ok h"
  shows "hasher_ok (hash_sum s h)" "fed (hash_sum s h) = fed h @ s"
proof -
  have st: "streams (\<lambda>c. hash_uint64 (from_le_bytes c)) (\<lambda>c. to_le_bytes (from_le_bytes c :: u64))"
    by (rule streams_comp[OF streams_uint(4)])
  note f = streams_fold[OF st, unfolded streams_def, rule_format, OF assms(2), of "chunks_exact 8 s"]
  have "map (\<lambda>c. to_le_bytes (from_le_bytes c :: u64)) (chunks_exact 8 s) = map (\<lambda>c. c) (chunks_exact 8 s)"
    by (rule map_cong) (auto dest: chunks_exact_length simp: to_from_le_bytes)
  then have "concat (map (\<lambda>c. to_le_bytes (from_le_bytes c :: u64)) (chunks_exact 8 s)) = s"
    using chunks_exact_concat[of 8 s] assms(1) by simp
  then show "hasher_ok (hash_sum s h)" "fed (hash_sum s h) = fed h @ s" using f by (simp_all add: hash_sum_def)
qed

text \<open>The streams of the standard types.\<close>

definition enc_len :: "nat \<Rightarrow> bytes" where
  "enc_len n = to_le_bytes (of_nat n :: u64)"

definition enc_str :: "string \<Rightarrow> bytes" where
  "enc_str s = enc_len (length s) @ str_bytes s"

definition enc_slice :: "('a \<Rightarrow> bytes) \<Rightarrow> 'a list \<Rightarrow> bytes" where
  "enc_slice e xs = 1 # enc_len (length xs) @ concat (map e xs)"

definition enc_option :: "('a \<Rightarrow> bytes) \<Rightarrow> 'a option \<Rightarrow> bytes" where
  "enc_option e x = (case x of Some v \<Rightarrow> 1 # e v | None \<Rightarrow> [0])"

definition digest :: "(bytes \<Rightarrow> sum) \<Rightarrow> ('a \<Rightarrow> bytes) \<Rightarrow> 'a list \<Rightarrow> sum" where
  "digest sha e xs = foldl (\<lambda>s x. sum_xor s (sha (e x))) sum_default xs"

definition enc_map :: "(bytes \<Rightarrow> sum) \<Rightarrow> ('a \<Rightarrow> bytes) \<Rightarrow> 'a list \<Rightarrow> bytes" where
  "enc_map sha e xs = 1 # enc_len (length xs) @ digest sha e xs"

definition enc_ip :: "ipaddr \<Rightarrow> bytes" where
  "enc_ip a = to_le_bytes (if is_ipv4 a then 4 else 16 :: u64) @ octets a"

lemma streams_str [stream_intros]: "streams deep_hash_str enc_str"
  by (simp add: streams_def deep_hash_str_def enc_str_def enc_len_def streamsD[OF streams_uint(4)] streamsD[OF streams_uint(5)])

lemma streams_slice [stream_intros]: "streams f e \<Longrightarrow> streams (deep_hash_slice f) (enc_slice e)"
  by (simp add: streams_def deep_hash_slice_def enc_slice_def enc_len_def streamsD[OF streams_uint(4)]
    streamsD[OF streams_uint(1)] streamsD[OF streams_fold[of f e]] del: fold_simps)

lemma streams_option [stream_intros]:
  assumes "streams f e" shows "streams (deep_hash_option f) (enc_option e)"
  unfolding streams_def
proof (intro allI impI)
  fix x h assume "hasher_ok h"
  then show "hasher_ok (deep_hash_option f x h) \<and> fed (deep_hash_option f x h) = fed h @ enc_option e x"
    by (cases x) (simp_all add: enc_option_def streamsD[OF assms] streamsD[OF streams_uint(1)])
qed

lemma streams_ip [stream_intros]: "streams deep_hash_ipaddr enc_ip"
  unfolding streams_def
proof (intro allI impI)
  fix x h assume "hasher_ok h"
  then show "hasher_ok (deep_hash_ipaddr x h) \<and> fed (deep_hash_ipaddr x h) = fed h @ enc_ip x"
    by (cases x) (simp_all add: enc_ip_def streamsD[OF streams_uint(4)])
qed

lemma length_digest:
  assumes "\<And>bs. length (sha bs) = 32" shows "length (digest sha e xs) = 32"
proof -
  have "length (foldl (\<lambda>s x. sum_xor s (sha (e x))) acc xs) = 32" if "length acc = 32" for acc
    using that assms by (induction xs arbitrary: acc) (simp_all add: sum_xor_def)
  then show ?thesis by (simp add: digest_def sum_default_def)
qed

lemma framed_sum:
  assumes "length s = 32" "hasher_ok h"
  shows "hasher_ok (hash_sum s (hash_uint64 n (hash_uint8 1 h)))"
    "fed (hash_sum s (hash_uint64 n (hash_uint8 1 h))) = fed h @ 1 # to_le_bytes n @ s"
  using hash_sum_fed[OF assms(1), of "hash_uint64 n (hash_uint8 1 h)"] assms(2)
    streamsD[OF streams_uint(4), of "hash_uint8 1 h" n] streamsD[OF streams_uint(1), of h 1]
  by simp_all

lemma streams_map:
  assumes sha: "\<And>bs. length (sha bs) = 32" and k: "streams fk ek" and v: "streams fv ev"
  shows "streams (hash_map sha fk fv) (enc_map sha (\<lambda>(k, v). ek k @ ev v))"
proof -
  have "fst (finalize sha (fv v (fk k hasher_new))) = sha (ek k @ ev v)" for k v
    using streamsD[OF k, of hasher_new k] streamsD[OF v, of "fk k hasher_new" v] by (simp add: finalize_fed)
  then have "foldl (\<lambda>sum (key, val). sum_xor sum (fst (finalize sha (fv val (fk key hasher_new))))) sum_default m =
      digest sha (\<lambda>(k, v). ek k @ ev v) m" for m
    by (simp add: digest_def split_def)
  then show ?thesis
    by (simp add: streams_def hash_map_def enc_map_def enc_len_def framed_sum[OF length_digest[of sha, OF sha]])
qed

lemma streams_set:
  assumes sha: "\<And>bs. length (sha bs) = 32" and f: "streams f e"
  shows "streams (hash_set sha f) (enc_map sha e)"
proof -
  have "foldl (\<lambda>sum val. sum_xor sum (fst (finalize sha (f val hasher_new)))) sum_default m = digest sha e m" for m
    by (simp add: digest_def finalize_fed streamsD[OF f])
  then show ?thesis
    by (simp add: streams_def hash_set_def enc_map_def enc_len_def framed_sum[OF length_digest[of sha, OF sha]])
qed

subsection \<open>Streams determine values\<close>

text \<open>
  \<open>decodable D v e\<close>: on the values in \<open>D\<close>, the stream \<open>e\<close> can be followed by anything and still
  determines the view \<open>v\<close> of the value, and depends on nothing else.
\<close>

definition decodable :: "('a \<Rightarrow> bool) \<Rightarrow> ('a \<Rightarrow> 'b) \<Rightarrow> ('a \<Rightarrow> bytes) \<Rightarrow> bool" where
  "decodable D v e \<longleftrightarrow> (\<forall>x y a b. D x \<longrightarrow> D y \<longrightarrow> (e x @ a = e y @ b \<longleftrightarrow> v x = v y \<and> a = b))"

lemma decodableD: "decodable D v e \<Longrightarrow> D x \<Longrightarrow> D y \<Longrightarrow> e x @ a = e y @ b \<longleftrightarrow> v x = v y \<and> a = b"
  by (simp add: decodable_def)

lemma decodable_eq: "decodable D v e \<Longrightarrow> D x \<Longrightarrow> D y \<Longrightarrow> e x = e y \<longleftrightarrow> v x = v y"
  using decodableD[of D v e x y "[]" "[]"] by simp

lemma decodable_fixed:
  assumes "\<And>x. D x \<Longrightarrow> length (e x) = n" "\<And>x y. D x \<Longrightarrow> D y \<Longrightarrow> e x = e y \<longleftrightarrow> v x = v y"
  shows "decodable D v e"
  using assms by (auto simp: decodable_def)

lemma decodable_weaken: "decodable D v e \<Longrightarrow> (\<And>x. D' x \<Longrightarrow> D x) \<Longrightarrow> decodable D' v e"
  by (simp add: decodable_def)

lemma decodable_comp: "decodable D v e \<Longrightarrow> decodable (\<lambda>x. D (q x)) (\<lambda>x. v (q x)) (\<lambda>x. e (q x))"
  by (simp add: decodable_def)

lemma decodable_seq:
  assumes "decodable D v e" "decodable D' v' e'"
  shows "decodable (\<lambda>x. D x \<and> D' x) (\<lambda>x. (v x, v' x)) (\<lambda>x. e x @ e' x)"
  using decodableD[OF assms(1)] decodableD[OF assms(2)] by (simp add: decodable_def)

lemma decodable_word: "8 dvd LENGTH('a::len) \<Longrightarrow> decodable (\<lambda>_. True) (\<lambda>w. w) (to_le_bytes :: 'a word \<Rightarrow> bytes)"
  by (rule decodable_fixed[where n = "LENGTH('a) div 8"]) (simp_all, metis from_to_le_bytes)

lemma u64_of_nat: "n < 2 ^ 64 \<Longrightarrow> unat (of_nat n :: u64) = n"
  by (simp add: unsigned_of_nat take_bit_nat_eq_self)

lemma decodable_len: "decodable (\<lambda>n. n < 2 ^ 64) (\<lambda>n. n) enc_len"
proof (rule decodable_fixed[where n = 8])
  fix m n :: nat assume mn: "m < 2 ^ 64" "n < 2 ^ 64"
  have "enc_len m = enc_len n \<longleftrightarrow> (of_nat m :: u64) = of_nat n"
    using decodable_eq[OF decodable_word[where 'a = 64], of "of_nat m" "of_nat n"] by (simp add: enc_len_def)
  also have "\<dots> \<longleftrightarrow> m = n" using u64_of_nat[OF mn(1)] u64_of_nat[OF mn(2)] by metis
  finally show "enc_len m = enc_len n \<longleftrightarrow> m = n" .
qed (simp add: enc_len_def)

definition str_ok :: "string \<Rightarrow> bool" where
  "str_ok s \<longleftrightarrow> length s < 2 ^ 64"

lemma decodable_str: "decodable str_ok (\<lambda>s. s) enc_str"
  unfolding decodable_def
proof (intro allI impI)
  fix x y a b assume xy: "str_ok x" "str_ok y"
  then have "enc_str x @ a = enc_str y @ b \<longleftrightarrow> length x = length y \<and> str_bytes x @ a = str_bytes y @ b"
    using decodableD[OF decodable_len, of "length x" "length y"] by (simp add: enc_str_def str_ok_def)
  also have "\<dots> \<longleftrightarrow> x = y \<and> a = b" using str_bytes_inject by auto
  finally show "enc_str x @ a = enc_str y @ b \<longleftrightarrow> x = y \<and> a = b" .
qed

lemma decodable_concat:
  assumes "decodable D v e" "list_all D xs" "list_all D ys" "length xs = length ys"
  shows "concat (map e xs) @ a = concat (map e ys) @ b \<longleftrightarrow> map v xs = map v ys \<and> a = b"
  using assms(4,2,3)
  by (induction xs ys rule: list_induct2) (simp_all add: decodableD[OF assms(1)])

definition slice_ok :: "('a \<Rightarrow> bool) \<Rightarrow> 'a list \<Rightarrow> bool" where
  "slice_ok D xs \<longleftrightarrow> length xs < 2 ^ 64 \<and> list_all D xs"

lemma decodable_slice:
  assumes "decodable D v e" shows "decodable (slice_ok D) (map v) (enc_slice e)"
  unfolding decodable_def
proof (intro allI impI)
  fix x y a b assume xy: "slice_ok D x" "slice_ok D y"
  then have "enc_slice e x @ a = enc_slice e y @ b \<longleftrightarrow> length x = length y \<and> concat (map e x) @ a = concat (map e y) @ b"
    using decodableD[OF decodable_len, of "length x" "length y"] by (simp add: enc_slice_def slice_ok_def)
  also have "\<dots> \<longleftrightarrow> map v x = map v y \<and> a = b"
    using decodable_concat[OF assms, of x y a b] xy by (auto simp: slice_ok_def dest: map_eq_imp_length_eq)
  finally show "enc_slice e x @ a = enc_slice e y @ b \<longleftrightarrow> map v x = map v y \<and> a = b" .
qed

lemma decodable_option:
  assumes "decodable D v e" shows "decodable (\<lambda>x. \<forall>y. x = Some y \<longrightarrow> D y) (map_option v) (enc_option e)"
  unfolding decodable_def
proof (intro allI impI)
  fix x y a b assume "\<forall>z. x = Some z \<longrightarrow> D z" "\<forall>z. y = Some z \<longrightarrow> D z"
  then show "enc_option e x @ a = enc_option e y @ b \<longleftrightarrow> map_option v x = map_option v y \<and> a = b"
    by (cases x; cases y) (simp_all add: enc_option_def decodableD[OF assms])
qed

lemma decodable_map:
  fixes e :: "'a \<Rightarrow> bytes"
  assumes "\<And>bs. length (sha bs) = 32"
  shows "decodable (\<lambda>m. length m < 2 ^ 64) (\<lambda>m. (length m, digest sha e m)) (enc_map sha e)"
  unfolding decodable_def
proof (intro allI impI)
  fix x y :: "'a list" and a b assume "length x < 2 ^ 64" "length y < 2 ^ 64"
  then have "enc_map sha e x @ a = enc_map sha e y @ b \<longleftrightarrow>
      length x = length y \<and> digest sha e x @ a = digest sha e y @ b"
    using decodableD[OF decodable_len, of "length x" "length y"] by (simp add: enc_map_def)
  then show "enc_map sha e x @ a = enc_map sha e y @ b \<longleftrightarrow>
      (length x, digest sha e x) = (length y, digest sha e y) \<and> a = b"
    using length_digest[of sha e, OF assms] by simp
qed

lemma decodable_ip: "decodable (\<lambda>_. True) (\<lambda>a. a) enc_ip"
  unfolding decodable_def
proof (intro allI impI)
  fix x y :: ipaddr and a b
  have "enc_ip x @ a = enc_ip y @ b \<longleftrightarrow> is_ipv4 x = is_ipv4 y \<and> octets x @ a = octets y @ b"
    using decodableD[OF decodable_word[where 'a = 64], where x = "if is_ipv4 x then 4 else 16" and y = "if is_ipv4 y then 4 else 16"]
    by (simp add: enc_ip_def)
  moreover have "is_ipv4 x = is_ipv4 y \<Longrightarrow> length (octets x) = length (octets y)" by (cases x; cases y) simp_all
  ultimately show "enc_ip x @ a = enc_ip y @ b \<longleftrightarrow> x = y \<and> a = b" using octets_inject by auto
qed

subsection \<open>The streams of the filter rules\<close>

definition enc_port_range :: "tc_port_range \<Rightarrow> bytes" where
  "enc_port_range r = to_le_bytes (First r) @ to_le_bytes (Last r)"

definition enc_net_port_range :: "tc_net_port_range \<Rightarrow> bytes" where
  "enc_net_port_range r = enc_str (IP r) @ enc_option to_le_bytes (Bits r) @ enc_port_range (Ports r)"

definition enc_cap_entry :: "string \<times> string list \<Rightarrow> bytes" where
  "enc_cap_entry = (\<lambda>(cap, vals). enc_str cap @ enc_slice enc_str vals)"

definition enc_cap_grant :: "(bytes \<Rightarrow> sum) \<Rightarrow> cap_grant \<Rightarrow> bytes" where
  "enc_cap_grant sha g = enc_slice enc_str (Dsts g) @ enc_slice enc_str (Caps g) @ enc_map sha enc_cap_entry (CapMap g)"

definition enc_filter_rule :: "(bytes \<Rightarrow> sum) \<Rightarrow> filter_rule \<Rightarrow> bytes" where
  "enc_filter_rule sha r = enc_slice enc_str (SrcIPs r) @ enc_slice to_le_bytes (SrcBits r) @
     enc_slice enc_net_port_range (DstPorts r) @ enc_slice to_le_bytes (IPProto r) @
     enc_slice (enc_cap_grant sha) (CapGrant r)"

text \<open>What the stream of a rule determines: everything, up to the digests of its capability maps.\<close>

definition cap_grant_view :: "(bytes \<Rightarrow> sum) \<Rightarrow> cap_grant \<Rightarrow> string list \<times> string list \<times> nat \<times> sum" where
  "cap_grant_view sha g = (Dsts g, Caps g, length (CapMap g), digest sha enc_cap_entry (CapMap g))"

definition filter_rule_view :: "(bytes \<Rightarrow> sum) \<Rightarrow> filter_rule \<Rightarrow>
    string list \<times> i32 list \<times> tc_net_port_range list \<times> i32 list \<times> (string list \<times> string list \<times> nat \<times> sum) list" where
  "filter_rule_view sha r = (SrcIPs r, SrcBits r, DstPorts r, IPProto r, map (cap_grant_view sha) (CapGrant r))"

definition cap_grant_ok :: "cap_grant \<Rightarrow> bool" where
  "cap_grant_ok g \<longleftrightarrow> slice_ok str_ok (Dsts g) \<and> slice_ok str_ok (Caps g) \<and> length (CapMap g) < 2 ^ 64"

definition filter_rule_ok :: "filter_rule \<Rightarrow> bool" where
  "filter_rule_ok r \<longleftrightarrow> slice_ok str_ok (SrcIPs r) \<and> slice_ok (\<lambda>_. True) (SrcBits r) \<and>
     slice_ok (\<lambda>d. str_ok (IP d)) (DstPorts r) \<and> slice_ok (\<lambda>_. True) (IPProto r) \<and>
     slice_ok cap_grant_ok (CapGrant r)"

lemma streams_filter_rule:
  assumes sha: "\<And>bs. length (sha bs) = 32"
  shows "streams (deep_hash_filter_rule sha) (enc_filter_rule sha)"
proof -
  have str: "streams (deep_hash_slice deep_hash_str) (enc_slice enc_str)" by (intro stream_intros)
  have port: "streams deep_hash_port_range enc_port_range"
    by (simp add: streams_def deep_hash_port_range_def enc_port_range_def streamsD[OF streams_uint(2)])
  have opt: "streams (deep_hash_option hash_uint32) (enc_option to_le_bytes)" by (intro stream_intros)
  have net: "streams deep_hash_net_port_range enc_net_port_range"
    by (simp add: streams_def deep_hash_net_port_range_def enc_net_port_range_def streamsD[OF streams_str]
      streamsD[OF port] streamsD[OF opt])
  have "streams (hash_map sha deep_hash_str (deep_hash_slice deep_hash_str)) (enc_map sha enc_cap_entry)"
    unfolding enc_cap_entry_def by (rule streams_map[OF sha streams_str str])
  then have grant: "streams (deep_hash_cap_grant sha) (enc_cap_grant sha)"
    by (simp add: streams_def deep_hash_cap_grant_def enc_cap_grant_def streamsD[OF str])
  have slices: "streams (deep_hash_slice hash_uint32) (enc_slice to_le_bytes)"
      "streams (deep_hash_slice deep_hash_net_port_range) (enc_slice enc_net_port_range)"
      "streams (deep_hash_slice (deep_hash_cap_grant sha)) (enc_slice (enc_cap_grant sha))"
    by (intro stream_intros net grant)+
  show ?thesis
    by (simp add: streams_def deep_hash_filter_rule_def enc_filter_rule_def streamsD[OF str]
      streamsD[OF slices(1)] streamsD[OF slices(2)] streamsD[OF slices(3)])
qed

lemma decodable_view: "decodable D v e \<Longrightarrow> (\<And>x y. v' x = v' y \<longleftrightarrow> v x = v y) \<Longrightarrow> decodable D v' e"
  by (simp add: decodable_def)

lemma to_le_bytes_inject: "8 dvd LENGTH('a::len) \<Longrightarrow> to_le_bytes x = to_le_bytes y \<longleftrightarrow> x = (y :: 'a word)"
  by (rule decodable_eq[OF decodable_word]) simp_all

lemma decodable_port_range: "decodable (\<lambda>_. True) (\<lambda>r. r) enc_port_range"
  by (rule decodable_fixed[where n = 4]) (auto simp: enc_port_range_def to_le_bytes_inject)

lemma decodable_net_port_range: "decodable (\<lambda>d. str_ok (IP d)) (\<lambda>d. d) enc_net_port_range"
proof (rule decodable_view)
  show "decodable (\<lambda>d. str_ok (IP d)) (\<lambda>d. (IP d, map_option (\<lambda>w. w) (Bits d), Ports d)) enc_net_port_range"
    unfolding enc_net_port_range_def
    by (rule decodable_weaken[OF decodable_seq[OF decodable_comp[OF decodable_str]
          decodable_seq[OF decodable_comp[OF decodable_option[OF decodable_word]] decodable_comp[OF decodable_port_range]]]])
      simp_all
  show "x = y \<longleftrightarrow> (IP x, map_option (\<lambda>w. w) (Bits x), Ports x) = (IP y, map_option (\<lambda>w. w) (Bits y), Ports y)"
    for x y :: tc_net_port_range
    by (auto simp: option.map_ident)
qed

lemma decodable_cap_grant:
  assumes sha: "\<And>bs. length (sha bs) = 32"
  shows "decodable cap_grant_ok (cap_grant_view sha) (enc_cap_grant sha)"
proof -
  note str = decodable_slice[OF decodable_str]
  show ?thesis
    unfolding enc_cap_grant_def
    by (rule decodable_view[OF decodable_weaken[OF decodable_seq[OF decodable_comp[OF str]
          decodable_seq[OF decodable_comp[OF str] decodable_comp[OF decodable_map[of sha, OF sha]]]]]])
      (auto simp: cap_grant_ok_def cap_grant_view_def)
qed

lemma decodable_filter_rule:
  assumes sha: "\<And>bs. length (sha bs) = 32"
  shows "decodable filter_rule_ok (filter_rule_view sha) (enc_filter_rule sha)"
proof -
  note str = decodable_slice[OF decodable_str]
    and word = decodable_slice[OF decodable_word[where 'a = 32]]
    and net = decodable_slice[OF decodable_net_port_range]
    and grant = decodable_slice[OF decodable_cap_grant[of sha, OF sha]]
  show ?thesis
    unfolding enc_filter_rule_def
    by (rule decodable_view[OF decodable_weaken[OF decodable_seq[OF decodable_comp[OF str]
          decodable_seq[OF decodable_comp[OF word] decodable_seq[OF decodable_comp[OF net]
          decodable_seq[OF decodable_comp[OF word] decodable_comp[OF grant]]]]]]])
      (auto simp: filter_rule_ok_def filter_rule_view_def)
qed

subsection \<open>Maps and sets do not depend on the order of iteration\<close>

lemma sum_xor_left_commute: "sum_xor (sum_xor s a) b = sum_xor (sum_xor s b) a"
  by (rule nth_equalityI) (auto simp: sum_xor_def xor.assoc xor.commute[of "a ! _"])

lemma digest_mset: "mset xs = mset ys \<Longrightarrow> digest sha e xs = digest sha e ys"
  unfolding digest_def foldl_conv_fold
  by (rule fold_multiset_equiv[THEN fun_cong]) (auto simp: sum_xor_left_commute)

lemma enc_map_mset: "mset xs = mset ys \<Longrightarrow> enc_map sha e xs = enc_map sha e ys"
  using digest_mset[of xs ys sha e] mset_eq_length[of xs ys] by (simp add: enc_map_def)

subsection \<open>Properties\<close>

lemma deephash_stream:
  "streams f e \<Longrightarrow> deephash sha seed tn f v = sha (to_le_bytes seed @ enc_str tn @ e v)"
  by (simp add: deephash_def Let_def finalize_fed enc_str_def enc_len_def streamsD[of f e]
    streamsD[OF streams_uint(4)] streamsD[OF streams_uint(5)])

text \<open>C19. The block buffer of \<open>Hasher\<close> is transparent: feeding any sequence of byte strings and then
finishing gives the digest of their concatenation, and leaves a hasher that is as good as new.\<close>

theorem hasher_digests_concatenation:
  "fst (finalize sha (fold hash_bytes chunks hasher_new)) = sha (concat chunks) \<and>
   fst (finalize sha (fold hash_bytes chunks' (snd (finalize sha (fold hash_bytes chunks hasher_new))))) =
     sha (concat chunks')"
proof -
  have st: "streams (fold hash_bytes) concat" using streams_fold[OF streams_bytes] by simp
  then have "hasher_ok (fold hash_bytes chunks hasher_new)" by (rule streamsD) simp
  from finalize_fed(2)[OF this, of sha] show ?thesis
    using streamsD(2)[OF st] by (simp add: finalize_fed(1))
qed

end
