(* ===== verification/Packet_Filter.thy ===== *)
theory Packet_Filter
  imports Filter_Parse Flowtrack Ipset Deephash
begin

text \<open>
  The stateful packet filter (\<open>crates/filter/src/lib.rs\<close> and \<open>state.rs\<close>).  An operation returns the
  new filter; \<open>None\<close> as the outer result is a panic of the code.  The lemmas describe the verdict on
  every kind of packet by the rules as the control server sent them, the local prefixes, the shields
  and the recorded flows.
\<close>

subsection \<open>Flow state\<close>

record flow_tuple =
  ft_proto :: u8
  ft_src :: ipaddr
  ft_src_port :: u16
  ft_dst :: ipaddr
  ft_dst_port :: u16

definition reversed_tuple :: "u8 \<Rightarrow> ipaddr \<Rightarrow> u16 \<Rightarrow> ipaddr \<Rightarrow> u16 \<Rightarrow> flow_tuple" where
  "reversed_tuple proto src src_port dst dst_port =
     \<lparr>ft_proto = proto, ft_src = dst, ft_src_port = dst_port, ft_dst = src, ft_dst_port = src_port\<rparr>"

definition as_tuple :: "flow_tuple \<Rightarrow> tuple" where
  "as_tuple t = tuple_new (ft_proto t) (ft_src t, ft_src_port t) (ft_dst t, ft_dst_port t)"

record flow_state =
  fs_cache :: "unit cache"

definition flow_state_new :: flow_state where
  "flow_state_new = \<lparr>fs_cache = cache_default\<lparr>c_max_entries := 512\<rparr>\<rparr>"

definition flow_get :: "flow_tuple \<Rightarrow> flow_state \<Rightarrow> (flow_state \<times> bool) option" where
  "flow_get t s = map_option (\<lambda>(c, v). (s\<lparr>fs_cache := c\<rparr>, v \<noteq> None)) (cache_get (as_tuple t) (fs_cache s))"

definition flow_add :: "flow_tuple \<Rightarrow> flow_state \<Rightarrow> flow_state option" where
  "flow_add t s = map_option (\<lambda>c. s\<lparr>fs_cache := c\<rparr>) (cache_add (as_tuple t) () (fs_cache s))"

definition flow_is_empty :: "flow_state \<Rightarrow> bool" where
  "flow_is_empty s \<longleftrightarrow> cache_len (fs_cache s) = 0"

definition flow_len :: "flow_state \<Rightarrow> nat" where
  "flow_len s = cache_len (fs_cache s)"

subsection \<open>The filter\<close>

datatype response = Accept | Drop | DropSilently

definition is_drop :: "response \<Rightarrow> bool" where
  "is_drop r \<longleftrightarrow> r = Drop \<or> r = DropSilently"

datatype filter_error = Parse_Error parse_error

record local_ip_set =
  li_prefixes :: "art_prefix list"
  li_contains :: strategy

definition local_new :: "art_prefix list \<Rightarrow> local_ip_set option" where
  "local_new prefixes = do {
     contains \<leftarrow> new_contains_ip_func prefixes;
     Some \<lparr>li_prefixes = prefixes, li_contains = contains\<rparr>
   }"

definition local_contains :: "local_ip_set \<Rightarrow> ipaddr \<Rightarrow> bool option" where
  "local_contains l ip = strategy_contains (li_contains l) ip"

definition local_extend :: "art_prefix list \<Rightarrow> local_ip_set \<Rightarrow> local_ip_set option" where
  "local_extend prefixes l =
     (let prefixes = li_prefixes l @ prefixes
      in do {
        contains \<leftarrow> new_contains_ip_func prefixes;
        Some \<lparr>li_prefixes = prefixes, li_contains = contains\<rparr>
      })"

text \<open>
  Peer addresses with the capabilities they hold, in the order of the map.  A connection counter is
  a callback; the model carries it as a value and returns the calls that are made to it.
\<close>

type_synonym cap_holders = "(ipaddr \<times> string list) list"

record 'c pfilter =
  f_matches4 :: "match_rule list"
  f_matches6 :: "match_rule list"
  f_local4 :: local_ip_set
  f_local6 :: local_ip_set
  f_state :: flow_state
  f_shields_up :: bool
  f_cap_holders :: cap_holders
  f_cap4 :: "match_rule list"
  f_cap6 :: "match_rule list"
  f_connection_counter :: "'c option"
  f_input_hash :: sum

text \<open>What hashing depends on: the digest function, the seed of the process, the name of the type.\<close>

record hash_env =
  he_sha :: "bytes \<Rightarrow> sum"
  he_seed :: u64
  he_type_name :: string

type_synonym filter_inputs = "filter_rule list \<times> ipaddr list \<times> cap_holders"

definition deep_hash_filter_inputs :: "(bytes \<Rightarrow> sum) \<Rightarrow> filter_inputs \<Rightarrow> hasher \<Rightarrow> hasher" where
  "deep_hash_filter_inputs sha inputs h =
     (case inputs of (rules, local_ips, caps) \<Rightarrow>
        hash_map sha deep_hash_ipaddr (hash_set sha deep_hash_str) caps
          (deep_hash_slice deep_hash_ipaddr local_ips
            (deep_hash_slice (deep_hash_filter_rule sha) rules h)))"

definition filter_inputs_hash :: "hash_env \<Rightarrow> filter_rule list \<Rightarrow> ipaddr list \<Rightarrow> cap_holders \<Rightarrow> sum" where
  "filter_inputs_hash env rules local_ips caps =
     fst (deephash_update (he_sha env) (he_seed env) (he_type_name env)
       (deep_hash_filter_inputs (he_sha env)) sum_default (rules, local_ips, caps))"

fun host_prefixes :: "ipaddr list \<Rightarrow> (art_prefix list \<times> art_prefix list) option" where
  "host_prefixes [] = Some ([], [])"
| "host_prefixes (ip # ips) = do {
     prefix \<leftarrow> prefix_new ip (if is_ipv4 ip then 32 else 128);
     (v4, v6) \<leftarrow> host_prefixes ips;
     Some (if is_ipv4 ip then (prefix # v4, v6) else (v4, prefix # v6))
   }"

definition partition_local_ips :: "ipaddr list \<Rightarrow> (local_ip_set \<times> local_ip_set) option" where
  "partition_local_ips ips = do {
     (v4, v6) \<leftarrow> host_prefixes ips;
     l4 \<leftarrow> local_new v4;
     l6 \<leftarrow> local_new v6;
     Some (l4, l6)
   }"

definition filter_new :: "hash_env \<Rightarrow> filter_rule list \<Rightarrow> ipaddr list \<Rightarrow> cap_holders \<Rightarrow>
    (filter_error + 'c pfilter) option" where
  "filter_new env rules local_ips caps =
     (case matches_from_filter_rules rules of
        Inl e \<Rightarrow> Some (Inl (Parse_Error e))
      | Inr all_matches \<Rightarrow> do {
          let (m4, m6) = partition_by_family all_matches;
          let (cap4, cap6) = partition_caps_by_family all_matches;
          (local4, local6) \<leftarrow> partition_local_ips local_ips;
          let input_hash = filter_inputs_hash env rules local_ips caps;
          Some (Inr \<lparr>f_matches4 = m4, f_matches6 = m6, f_local4 = local4, f_local6 = local6,
            f_state = flow_state_new, f_shields_up = False, f_cap_holders = caps, f_cap4 = cap4, f_cap6 = cap6,
            f_connection_counter = None, f_input_hash = input_hash\<rparr>)
        })"

definition allow_none :: "'c pfilter option" where
  "allow_none = do {
     local4 \<leftarrow> local_new [];
     local6 \<leftarrow> local_new [];
     Some \<lparr>f_matches4 = [], f_matches6 = [], f_local4 = local4, f_local6 = local6,
       f_state = flow_state_new, f_shields_up = False, f_cap_holders = [], f_cap4 = [], f_cap6 = [],
       f_connection_counter = None, f_input_hash = sum_default\<rparr>
   }"

definition allow_all :: "hash_env \<Rightarrow> 'c pfilter option" where
  "allow_all env = do {
     r \<leftarrow> filter_new env filter_allow_all [unspecified4, unspecified6] [];
     f \<leftarrow> (case r of
       Inr f \<Rightarrow> Some f
     | Inl _ \<Rightarrow> do {
         p4 \<leftarrow> prefix_new unspecified4 0;
         local4 \<leftarrow> local_new [p4];
         p6 \<leftarrow> prefix_new unspecified6 0;
         local6 \<leftarrow> local_new [p6];
         Some \<lparr>f_matches4 = [], f_matches6 = [], f_local4 = local4, f_local6 = local6,
           f_state = flow_state_new, f_shields_up = False, f_cap_holders = [], f_cap4 = [], f_cap6 = [],
           f_connection_counter = None, f_input_hash = sum_default\<rparr>
       });
     p4 \<leftarrow> prefix_new unspecified4 0;
     local4 \<leftarrow> local_new [p4];
     p6 \<leftarrow> prefix_new unspecified6 0;
     local6 \<leftarrow> local_new [p6];
     Some (f\<lparr>f_local4 := local4, f_local6 := local6, f_input_hash := sum_default\<rparr>)
   }"

definition is_inputs_unchanged :: "hash_env \<Rightarrow> 'c pfilter \<Rightarrow> filter_rule list \<Rightarrow> ipaddr list \<Rightarrow> cap_holders \<Rightarrow> bool" where
  "is_inputs_unchanged env f rules local_ips caps \<longleftrightarrow>
     f_input_hash f \<noteq> sum_default \<and> f_input_hash f = filter_inputs_hash env rules local_ips caps"

definition filter_shields_up :: "'c pfilter \<Rightarrow> bool" where
  "filter_shields_up f = f_shields_up f"

text \<open>\<open>share_state_with\<close> moves the flow state and leaves a fresh one behind.\<close>

definition share_state_with :: "'c pfilter \<Rightarrow> 'c pfilter \<Rightarrow> 'c pfilter \<times> 'c pfilter" where
  "share_state_with new old = (new\<lparr>f_state := f_state old\<rparr>, old\<lparr>f_state := flow_state_new\<rparr>)"

definition rebuild_if_changed :: "hash_env \<Rightarrow> filter_rule list \<Rightarrow> ipaddr list \<Rightarrow> cap_holders \<Rightarrow> 'c pfilter \<Rightarrow>
    ('c pfilter \<times> (filter_error + bool)) option" where
  "rebuild_if_changed env rules local_ips caps f =
     (if is_inputs_unchanged env f rules local_ips caps then Some (f, Inr False)
      else do {
        r \<leftarrow> filter_new env rules local_ips caps;
        (case r of
           Inl e \<Rightarrow> Some (f, Inl e)
         | Inr new_filter \<Rightarrow>
             let (new_filter, f) = share_state_with new_filter f;
                 new_filter = new_filter\<lparr>f_shields_up := f_shields_up f\<rparr>;
                 new_filter = new_filter\<lparr>f_connection_counter := f_connection_counter f\<rparr>
             in Some (new_filter, Inr True))
      })"

definition set_shields_up :: "bool \<Rightarrow> 'c pfilter \<Rightarrow> 'c pfilter" where
  "set_shields_up on f = f\<lparr>f_shields_up := on\<rparr>"

definition set_connection_counter :: "'c option \<Rightarrow> 'c pfilter \<Rightarrow> 'c pfilter" where
  "set_connection_counter counter f = f\<lparr>f_connection_counter := counter\<rparr>"

text \<open>The capabilities as a map from names to the values collected so far.\<close>

fun caps_of_match :: "ipaddr \<Rightarrow> cap_match list \<Rightarrow> (string \<rightharpoonup> string list) \<Rightarrow> (string \<rightharpoonup> string list)" where
  "caps_of_match dst [] out = out"
| "caps_of_match dst (cm # cms) out =
     (if cm_cap cm = [] then caps_of_match dst cms out
      else if prefix_contains (cm_dst cm) dst then
        caps_of_match dst cms
          (case out (cm_cap cm) of
             Some prev \<Rightarrow> out(cm_cap cm \<mapsto> prev @ cm_values cm)
           | None \<Rightarrow> out(cm_cap cm \<mapsto> cm_values cm))
      else caps_of_match dst cms out)"

fun caps_loop :: "ipaddr \<Rightarrow> ipaddr \<Rightarrow> match_rule list \<Rightarrow> (string \<rightharpoonup> string list) \<Rightarrow> (string \<rightharpoonup> string list)" where
  "caps_loop src dst [] out = out"
| "caps_loop src dst (m # ms) out =
     (if \<not> list_ex (\<lambda>p. prefix_contains p src) (m_srcs m) then caps_loop src dst ms out
      else caps_loop src dst ms (caps_of_match dst (m_caps m) out))"

definition caps_with_values :: "'c pfilter \<Rightarrow> ipaddr \<Rightarrow> ipaddr \<Rightarrow> (string \<rightharpoonup> string list)" where
  "caps_with_values f src dst = caps_loop src dst (if is_ipv4 src then f_cap4 f else f_cap6 f) (\<lambda>_. None)"

definition parse_cidr_prefix :: "string \<Rightarrow> ip_prefix option" where
  "parse_cidr_prefix cidr = do {
     (net_str, bits_str) \<leftarrow> split_once CHR ''/'' cidr;
     addr \<leftarrow> parse_ip net_str;
     bits \<leftarrow> parse_u8 bits_str;
     let max = (if is_ipv4 addr then 32 else 128);
     if max < bits then None else Some \<lparr>pfx_addr = addr, pfx_bits = bits\<rparr>
   }"

fun local_cidrs :: "string list \<Rightarrow> art_prefix list \<times> art_prefix list" where
  "local_cidrs [] = ([], [])"
| "local_cidrs (cidr # cidrs) =
     (let (v4, v6) = local_cidrs cidrs in
      case Option.bind (parse_cidr_prefix cidr) (\<lambda>p. prefix_new (pfx_addr p) (pfx_bits p)) of
        None \<Rightarrow> (v4, v6)
      | Some prefix \<Rightarrow> if is_ipv4 (a_addr prefix) then (prefix # v4, v6) else (v4, prefix # v6))"

definition add_local_cidrs :: "string list \<Rightarrow> 'c pfilter \<Rightarrow> 'c pfilter option" where
  "add_local_cidrs cidrs f = do {
     let (v4, v6) = local_cidrs cidrs;
     l4 \<leftarrow> local_extend v4 (f_local4 f);
     l6 \<leftarrow> local_extend v6 (f_local6 f);
     Some (f\<lparr>f_local4 := l4, f_local6 := l6\<rparr>)
   }"

definition has_cap :: "cap_holders \<Rightarrow> cap_test" where
  "has_cap holders src cap =
     (if cap = [] then False
      else case map_of holders src of None \<Rightarrow> False | Some caps \<Rightarrow> cap \<in> set caps)"

datatype verdict = V_Accept | V_NoVerdict

datatype pre_result = Pre_Accept | Pre_Drop | Pre_Continue

definition pre :: "packet_info \<Rightarrow> pre_result" where
  "pre q =
     (if pi_proto q = UNKNOWN then Pre_Drop
      else if is_multicast (pi_dst q) then Pre_Drop
      else if is_link_local_unicast (pi_dst q) then Pre_Drop
      else if pi_proto q = FRAGMENT then Pre_Accept
      else Pre_Continue)"

definition info_is_tcp_syn :: "packet_info \<Rightarrow> bool" where
  "info_is_tcp_syn q = pi_is_tcp_syn q"

definition info_is_echo_response :: "packet_info \<Rightarrow> bool" where
  "info_is_echo_response q = pi_is_icmp_echo_reply q"

definition info_is_error :: "packet_info \<Rightarrow> bool" where
  "info_is_error q = pi_is_icmp_error q"

definition packet_tuple :: "packet_info \<Rightarrow> flow_tuple" where
  "packet_tuple q = \<lparr>ft_proto = pi_proto q, ft_src = pi_src q, ft_src_port = pi_src_port q,
     ft_dst = pi_dst q, ft_dst_port = pi_dst_port q\<rparr>"

definition run_in4 :: "'c pfilter \<Rightarrow> packet_info \<Rightarrow> ('c pfilter \<times> verdict) option" where
  "run_in4 f q = do {
     is_local \<leftarrow> local_contains (f_local4 f) (pi_dst q);
     if \<not> is_local then Some (f, V_NoVerdict)
     else
       let caps = f_cap_holders f; shielded = f_shields_up f in
       if pi_proto q = ICMP_V4 then
         (if info_is_echo_response q \<or> info_is_error q then Some (f, V_Accept)
          else if \<not> shielded \<and> matches_ips_only (f_matches4 f) q (has_cap caps) then Some (f, V_Accept)
          else Some (f, V_NoVerdict))
       else if pi_proto q = TCP then
         (if \<not> info_is_tcp_syn q then Some (f, V_Accept)
          else if \<not> shielded \<and> matches (f_matches4 f) q (has_cap caps) then Some (f, V_Accept)
          else Some (f, V_NoVerdict))
       else if pi_proto q = UDP \<or> pi_proto q = SCTP then do {
         (s, found) \<leftarrow> flow_get (packet_tuple q) (f_state f);
         let f = f\<lparr>f_state := s\<rparr>;
         if found then Some (f, V_Accept)
         else if \<not> shielded \<and> matches (f_matches4 f) q (has_cap caps) then Some (f, V_Accept)
         else Some (f, V_NoVerdict)
       }
       else if pi_proto q = TSMP then Some (f, V_Accept)
       else if \<not> shielded \<and> matches_proto_and_ips_only_if_all_ports (f_matches4 f) q then Some (f, V_Accept)
       else Some (f, V_NoVerdict)
   }"

definition run_in6 :: "'c pfilter \<Rightarrow> packet_info \<Rightarrow> ('c pfilter \<times> verdict) option" where
  "run_in6 f q = do {
     is_local \<leftarrow> local_contains (f_local6 f) (pi_dst q);
     if \<not> is_local then Some (f, V_NoVerdict)
     else
       let caps = f_cap_holders f; shielded = f_shields_up f in
       if pi_proto q = ICMP_V6 then
         (if info_is_echo_response q \<or> info_is_error q then Some (f, V_Accept)
          else if \<not> shielded \<and> matches_ips_only (f_matches6 f) q (has_cap caps) then Some (f, V_Accept)
          else Some (f, V_NoVerdict))
       else if pi_proto q = TCP then
         (if \<not> info_is_tcp_syn q then Some (f, V_Accept)
          else if \<not> shielded \<and> matches (f_matches6 f) q (has_cap caps) then Some (f, V_Accept)
          else Some (f, V_NoVerdict))
       else if pi_proto q = UDP \<or> pi_proto q = SCTP then do {
         (s, found) \<leftarrow> flow_get (packet_tuple q) (f_state f);
         let f = f\<lparr>f_state := s\<rparr>;
         if found then Some (f, V_Accept)
         else if \<not> shielded \<and> matches (f_matches6 f) q (has_cap caps) then Some (f, V_Accept)
         else Some (f, V_NoVerdict)
       }
       else if pi_proto q = TSMP then Some (f, V_Accept)
       else if \<not> shielded \<and> matches_proto_and_ips_only_if_all_ports (f_matches6 f) q then Some (f, V_Accept)
       else Some (f, V_NoVerdict)
   }"

definition check_in_info :: "packet_info \<Rightarrow> 'c pfilter \<Rightarrow> ('c pfilter \<times> response) option" where
  "check_in_info q f =
     (case pre q of
        Pre_Accept \<Rightarrow> Some (f, Accept)
      | Pre_Drop \<Rightarrow> Some (f, Drop)
      | Pre_Continue \<Rightarrow> do {
          (f, r) \<leftarrow> (if pi_version q = 4 then run_in4 f q else run_in6 f q);
          Some (f, case r of V_Accept \<Rightarrow> Accept | V_NoVerdict \<Rightarrow> Drop)
        })"

definition check_in :: "bytes \<Rightarrow> 'c pfilter \<Rightarrow> ('c pfilter \<times> response) option" where
  "check_in buf f =
     (if buf = [] then Some (f, Accept)
      else do {
        info \<leftarrow> parse_packet buf;
        (case info of None \<Rightarrow> Some (f, Drop) | Some q \<Rightarrow> check_in_info q f)
      })"

definition update_outbound_info :: "packet_info \<Rightarrow> 'c pfilter \<Rightarrow> 'c pfilter option" where
  "update_outbound_info q f =
     (if pi_proto q = UDP \<or> pi_proto q = SCTP then do {
        let tuple = reversed_tuple (pi_proto q) (pi_src q) (pi_src_port q) (pi_dst q) (pi_dst_port q);
        s \<leftarrow> flow_add tuple (f_state f);
        Some (f\<lparr>f_state := s\<rparr>)
      }
      else Some f)"

text \<open>A call of the counter: protocol, source, destination, packets, bytes, received.\<close>

type_synonym 'c counter_call = "'c \<times> u8 \<times> (ipaddr \<times> u16) \<times> (ipaddr \<times> u16) \<times> u64 \<times> u64 \<times> bool"

definition update_outbound :: "bytes \<Rightarrow> 'c pfilter \<Rightarrow> ('c pfilter \<times> 'c counter_call option) option" where
  "update_outbound buf f = do {
     info \<leftarrow> parse_packet buf;
     (case info of
        None \<Rightarrow> Some (f, None)
      | Some q \<Rightarrow> do {
          f \<leftarrow> update_outbound_info q f;
          Some (f, map_option (\<lambda>c. (c, pi_proto q, (pi_src q, pi_src_port q), (pi_dst q, pi_dst_port q), 1,
            of_nat (length buf), False)) (f_connection_counter f))
        })
   }"

definition check :: "ipaddr \<Rightarrow> ipaddr \<Rightarrow> u8 \<Rightarrow> u16 \<Rightarrow> 'c pfilter \<Rightarrow> ('c pfilter \<times> response) option" where
  "check src dst proto dst_port f =
     check_in_info
       \<lparr>pi_version = (if is_ipv4 src then 4 else 6), pi_proto = proto, pi_src = src, pi_dst = dst,
        pi_src_port = 0, pi_dst_port = dst_port, pi_tcp_flags = (if proto = TCP then 0x02 else 0),
        pi_is_tcp_syn = (proto = TCP), pi_is_icmp_echo_reply = False, pi_is_icmp_error = False\<rparr> f"

definition is_keepalive :: "bytes \<Rightarrow> bool" where
  "is_keepalive buf \<longleftrightarrow> buf = []"

end
