(* ===== verification/Filter_Spec.thy ===== *)
theory Filter_Spec
  imports Packet_Filter
begin

text \<open>
  The contract of the packet filter.  The specification keeps the rules as the control server sent
  them, the local addresses as a predicate, and the recorded flows as a list, most recently used
  first.  The refinement covers every sequence of operations on a filter; the theorems on return
  traffic, on the shields and on the size of the flow state follow from the specification.
\<close>

subsection \<open>The specification\<close>

record 'c spec_filter =
  sf_rules :: "filter_rule list"
  sf_local :: "ipaddr \<Rightarrow> bool"
  sf_flows :: "(tuple \<times> unit) list"
  sf_shields :: bool
  sf_caps :: cap_holders
  sf_counter :: "'c option"
  sf_hash :: sum

definition no_caps :: cap_test where
  "no_caps ip c = False"

definition rule_reaches_icmp :: "cap_test \<Rightarrow> filter_rule \<Rightarrow> packet_info \<Rightarrow> bool" where
  "rule_reaches_icmp holds r q \<longleftrightarrow>
     (\<exists>s \<in> set (SrcIPs r). src_denotes no_caps s (pi_src q)) \<and> (\<exists>d \<in> set (DstPorts r). denotes (IP d) (pi_dst q)) \<or>
     (\<exists>s \<in> set (SrcIPs r). \<exists>c. s \<noteq> ''*'' \<and> strip_prefix ''cap:'' s = Some c \<and> holds (pi_src q) c) \<and>
     (\<exists>d \<in> set (DstPorts r). \<exists>ip. is_ipv4 ip = is_ipv4 (pi_dst q) \<and> denotes (IP d) ip)"

definition rule_allows_all_ports :: "filter_rule \<Rightarrow> packet_info \<Rightarrow> bool" where
  "rule_allows_all_ports r q \<longleftrightarrow> pi_proto q \<in> set (rule_protos r) \<and>
     (\<exists>s \<in> set (SrcIPs r). src_denotes no_caps s (pi_src q)) \<and>
     (\<exists>d \<in> set (DstPorts r). Ports d = tc_port_range_all \<and> denotes (IP d) (pi_dst q))"

definition icmp_of :: "packet_info \<Rightarrow> u8" where
  "icmp_of q = (if pi_version q = 4 then ICMP_V4 else ICMP_V6)"

definition tracked :: "packet_info \<Rightarrow> bool" where
  "tracked q \<longleftrightarrow> pi_proto q = UDP \<or> pi_proto q = SCTP"

definition established :: "(tuple \<times> unit) list \<Rightarrow> packet_info \<Rightarrow> bool" where
  "established flows q \<longleftrightarrow>
     pi_proto q = icmp_of q \<and> (pi_is_icmp_echo_reply q \<or> pi_is_icmp_error q) \<or>
     pi_proto q = TCP \<and> \<not> pi_is_tcp_syn q \<or>
     tracked q \<and> as_tuple (packet_tuple q) \<in> fst ` set flows \<or>
     pi_proto q = TSMP"

definition may_open :: "cap_holders \<Rightarrow> filter_rule list \<Rightarrow> packet_info \<Rightarrow> bool" where
  "may_open caps rules q \<longleftrightarrow>
     (\<exists>r \<in> set rules.
        if pi_proto q = icmp_of q then rule_reaches_icmp (has_cap caps) r q
        else if pi_proto q = TCP \<or> tracked q then rule_allows (has_cap caps) r q
        else rule_allows_all_ports r q)"

definition is_local :: "'c spec_filter \<Rightarrow> packet_info \<Rightarrow> bool" where
  "is_local S q \<longleftrightarrow> sf_local S (pi_dst q) \<and> is_ipv4 (pi_dst q) = (pi_version q = 4)"

definition spec_verdict :: "'c spec_filter \<Rightarrow> packet_info \<Rightarrow> response" where
  "spec_verdict S q =
     (if pre q = Pre_Accept then Accept
      else if pre q = Pre_Continue \<and> is_local S q \<and>
        (established (sf_flows S) q \<or> \<not> sf_shields S \<and> may_open (sf_caps S) (sf_rules S) q)
      then Accept else Drop)"

definition spec_packet :: "packet_info \<Rightarrow> 'c spec_filter \<Rightarrow> 'c spec_filter \<times> response" where
  "spec_packet q S =
     (if pre q = Pre_Continue \<and> is_local S q \<and> tracked q
      then S\<lparr>sf_flows := fst (lru_get (as_tuple (packet_tuple q)) (sf_flows S))\<rparr> else S,
      spec_verdict S q)"

definition spec_outbound :: "packet_info \<Rightarrow> 'c spec_filter \<Rightarrow> 'c spec_filter" where
  "spec_outbound q S =
     (if tracked q
      then S\<lparr>sf_flows := lru_add 512
        (tuple_new (pi_proto q) (pi_dst q, pi_dst_port q) (pi_src q, pi_src_port q)) () (sf_flows S)\<rparr>
      else S)"

definition spec_new :: "hash_env \<Rightarrow> filter_rule list \<Rightarrow> ipaddr list \<Rightarrow> cap_holders \<Rightarrow> 'c spec_filter" where
  "spec_new env rules local_ips caps =
     \<lparr>sf_rules = rules, sf_local = (\<lambda>ip. ip \<in> set local_ips), sf_flows = [], sf_shields = False, sf_caps = caps,
      sf_counter = None, sf_hash = filter_inputs_hash env rules local_ips caps\<rparr>"

subsection \<open>Sequences of operations\<close>

datatype 'c filter_op =
  Check_In bytes
| Check ipaddr ipaddr u8 u16
| Update_Outbound bytes
| Set_Shields_Up bool
| Set_Counter "'c option"
| Add_Local "string list"
| Rebuild "filter_rule list" "ipaddr list" cap_holders

datatype 'c filter_out = Verdict response | Counted "'c counter_call option" | Rebuilt "bool option" | Done

definition check_info :: "ipaddr \<Rightarrow> ipaddr \<Rightarrow> u8 \<Rightarrow> u16 \<Rightarrow> packet_info" where
  "check_info src dst proto dst_port =
     \<lparr>pi_version = (if is_ipv4 src then 4 else 6), pi_proto = proto, pi_src = src, pi_dst = dst,
      pi_src_port = 0, pi_dst_port = dst_port, pi_tcp_flags = (if proto = TCP then 0x02 else 0),
      pi_is_tcp_syn = (proto = TCP), pi_is_icmp_echo_reply = False, pi_is_icmp_error = False\<rparr>"

fun filter_step :: "hash_env \<Rightarrow> 'c filter_op \<Rightarrow> 'c pfilter \<Rightarrow> ('c pfilter \<times> 'c filter_out) option" where
  "filter_step env (Check_In buf) f = map_option (\<lambda>(f, r). (f, Verdict r)) (check_in buf f)"
| "filter_step env (Check src dst proto port) f = map_option (\<lambda>(f, r). (f, Verdict r)) (check src dst proto port f)"
| "filter_step env (Update_Outbound buf) f = map_option (\<lambda>(f, c). (f, Counted c)) (update_outbound buf f)"
| "filter_step env (Set_Shields_Up on) f = Some (set_shields_up on f, Done)"
| "filter_step env (Set_Counter c) f = Some (set_connection_counter c f, Done)"
| "filter_step env (Add_Local cidrs) f = map_option (\<lambda>f. (f, Done)) (add_local_cidrs cidrs f)"
| "filter_step env (Rebuild rules ips caps) f =
     map_option (\<lambda>(f, r). (f, Rebuilt (case r of Inl _ \<Rightarrow> None | Inr b \<Rightarrow> Some b)))
       (rebuild_if_changed env rules ips caps f)"

fun filter_run :: "hash_env \<Rightarrow> 'c filter_op list \<Rightarrow> 'c pfilter \<Rightarrow> ('c pfilter \<times> 'c filter_out list) option" where
  "filter_run env [] f = Some (f, [])"
| "filter_run env (op # ops) f = do {
     (f, out) \<leftarrow> filter_step env op f;
     (f, outs) \<leftarrow> filter_run env ops f;
     Some (f, out # outs)
   }"

definition info_of :: "bytes \<Rightarrow> packet_info option" where
  "info_of buf = Option.bind (parse_packet buf) id"

fun spec_step :: "hash_env \<Rightarrow> 'c filter_op \<Rightarrow> 'c spec_filter \<Rightarrow> 'c spec_filter \<times> 'c filter_out" where
  "spec_step env (Check_In buf) S =
     (if buf = [] then (S, Verdict Accept)
      else case info_of buf of
        None \<Rightarrow> (S, Verdict Drop)
      | Some q \<Rightarrow> (fst (spec_packet q S), Verdict (snd (spec_packet q S))))"
| "spec_step env (Check src dst proto port) S =
     (fst (spec_packet (check_info src dst proto port) S), Verdict (snd (spec_packet (check_info src dst proto port) S)))"
| "spec_step env (Update_Outbound buf) S =
     (case info_of buf of
        None \<Rightarrow> (S, Counted None)
      | Some q \<Rightarrow> (spec_outbound q S,
          Counted (map_option (\<lambda>c. (c, pi_proto q, (pi_src q, pi_src_port q), (pi_dst q, pi_dst_port q), 1,
            of_nat (length buf), False)) (sf_counter S))))"
| "spec_step env (Set_Shields_Up on) S = (S\<lparr>sf_shields := on\<rparr>, Done)"
| "spec_step env (Set_Counter c) S = (S\<lparr>sf_counter := c\<rparr>, Done)"
| "spec_step env (Add_Local cidrs) S =
     (S\<lparr>sf_local := (\<lambda>ip. sf_local S ip \<or> (\<exists>c \<in> set cidrs. \<exists>p. parse_cidr_prefix c = Some p \<and> prefix_contains p ip))\<rparr>, Done)"
| "spec_step env (Rebuild rules ips caps) S =
     (if sf_hash S \<noteq> sum_default \<and> sf_hash S = filter_inputs_hash env rules ips caps then (S, Rebuilt (Some False))
      else if list_all rule_compiles rules then
        (S\<lparr>sf_rules := rules, sf_local := (\<lambda>ip. ip \<in> set ips), sf_caps := caps,
           sf_hash := filter_inputs_hash env rules ips caps\<rparr>, Rebuilt (Some True))
      else (S, Rebuilt None))"

fun spec_run :: "hash_env \<Rightarrow> 'c filter_op list \<Rightarrow> 'c spec_filter \<Rightarrow> 'c spec_filter \<times> 'c filter_out list" where
  "spec_run env [] S = (S, [])"
| "spec_run env (op # ops) S =
     (let (S, out) = spec_step env op S; (S, outs) = spec_run env ops S in (S, out # outs))"

subsection \<open>The abstraction\<close>

definition local_rep :: "bool \<Rightarrow> local_ip_set \<Rightarrow> bool" where
  "local_rep v4 l \<longleftrightarrow> list_all prefix_wf (li_prefixes l) \<and> list_all (\<lambda>p. is_ipv4 (a_addr p) = v4) (li_prefixes l) \<and>
     new_contains_ip_func (li_prefixes l) = Some (li_contains l)"

definition flows_rep :: "flow_state \<Rightarrow> (tuple \<times> unit) list \<Rightarrow> bool" where
  "flows_rep s flows \<longleftrightarrow> cache_rep (fs_cache s) flows \<and> c_max_entries (fs_cache s) = 512 \<and> length flows \<le> 512"

definition in_prefixes :: "art_prefix list \<Rightarrow> ipaddr \<Rightarrow> bool" where
  "in_prefixes ps ip \<longleftrightarrow> (\<exists>p \<in> set ps. art_contains p ip)"

definition filter_rep :: "'c pfilter \<Rightarrow> 'c spec_filter \<Rightarrow> bool" where
  "filter_rep f S \<longleftrightarrow>
     list_all rule_compiles (sf_rules S) \<and>
     f_matches4 f = family_rules True (map compiled (sf_rules S)) \<and>
     f_matches6 f = family_rules False (map compiled (sf_rules S)) \<and>
     local_rep True (f_local4 f) \<and> local_rep False (f_local6 f) \<and>
     (\<forall>ip. sf_local S ip \<longleftrightarrow> in_prefixes (li_prefixes (f_local4 f) @ li_prefixes (f_local6 f)) ip) \<and>
     flows_rep (f_state f) (sf_flows S) \<and> f_shields_up f = sf_shields S \<and> f_cap_holders f = sf_caps S \<and>
     f_connection_counter f = sf_counter S \<and> f_input_hash f = sf_hash S"

subsection \<open>Local addresses\<close>

lemma prefix_new_wf: "prefix_new a n = Some p \<Longrightarrow> prefix_wf p \<and> a_addr p = a \<and> a_bits p = n"
  by (auto simp: prefix_new_def prefix_wf_def bit_len_addr_len split: if_splits)

lemma host_contains: "n = addr_len a \<Longrightarrow> art_contains (Art_Prefix a n) ip \<longleftrightarrow> ip = a"
  using art_prefix.contains_host[of "Art_Prefix a n" ip] by auto

lemma local_contains_rep:
  assumes "local_rep v4 l"
  shows "local_contains l ip = Some (in_prefixes (li_prefixes l) ip)"
  using assms new_contains_ip_func_ok[of "li_prefixes l" ip]
  by (auto simp: local_contains_def local_rep_def in_prefixes_def)

lemma local_rep_family: "local_rep v4 l \<Longrightarrow> in_prefixes (li_prefixes l) ip \<Longrightarrow> is_ipv4 ip = v4"
  by (auto simp: local_rep_def in_prefixes_def list_all_iff art_contains_pbits)

lemma in_prefixes_append [simp]: "in_prefixes (ps @ qs) ip \<longleftrightarrow> in_prefixes ps ip \<or> in_prefixes qs ip"
  by (auto simp: in_prefixes_def)

lemma local_new_rep:
  assumes "list_all prefix_wf ps" "list_all (\<lambda>p. is_ipv4 (a_addr p) = v4) ps"
  obtains l where "local_new ps = Some l" "local_rep v4 l" "li_prefixes l = ps"
proof -
  obtain s where s: "new_contains_ip_func ps = Some s" using ip_set.build_member[OF assms(1)] by blast
  show ?thesis using that[of "\<lparr>li_prefixes = ps, li_contains = s\<rparr>"] assms s by (simp add: local_new_def local_rep_def)
qed

lemma local_extend_rep:
  assumes "local_rep v4 l" "list_all prefix_wf ps" "list_all (\<lambda>p. is_ipv4 (a_addr p) = v4) ps"
  obtains l' where "local_extend ps l = Some l'" "local_rep v4 l'" "li_prefixes l' = li_prefixes l @ ps"
proof -
  have "list_all prefix_wf (li_prefixes l @ ps)" using assms by (simp add: local_rep_def)
  then obtain s where s: "new_contains_ip_func (li_prefixes l @ ps) = Some s" using ip_set.build_member by blast
  show ?thesis using that[of "\<lparr>li_prefixes = li_prefixes l @ ps, li_contains = s\<rparr>"] assms s
    by (simp add: local_extend_def local_rep_def)
qed

lemma host_prefixes_ok:
  "\<exists>v4 v6. host_prefixes ips = Some (v4, v6) \<and> list_all prefix_wf (v4 @ v6) \<and>
     list_all (\<lambda>p. is_ipv4 (a_addr p)) v4 \<and> list_all (\<lambda>p. \<not> is_ipv4 (a_addr p)) v6 \<and>
     (\<forall>ip. in_prefixes (v4 @ v6) ip \<longleftrightarrow> ip \<in> set ips)"
proof (induction ips)
  case Nil
  then show ?case by (simp add: in_prefixes_def)
next
  case (Cons a ips)
  then obtain v4 v6 where IH: "host_prefixes ips = Some (v4, v6)" "list_all prefix_wf (v4 @ v6)"
    "list_all (\<lambda>p. is_ipv4 (a_addr p)) v4" "list_all (\<lambda>p. \<not> is_ipv4 (a_addr p)) v6"
    "\<forall>ip. in_prefixes (v4 @ v6) ip \<longleftrightarrow> ip \<in> set ips" by auto
  let ?p = "Art_Prefix a (addr_len a)"
  have p: "prefix_new a (if is_ipv4 a then 32 else 128) = Some ?p" "prefix_wf ?p"
    by (simp_all add: prefix_new_def bit_len_addr_len addr_len_def prefix_wf_def)
  have "in_prefixes (?p # xs) ip \<longleftrightarrow> ip = a \<or> in_prefixes xs ip" for xs ip
    by (simp add: in_prefixes_def host_contains)
  then show ?case using IH p by (cases "is_ipv4 a") auto
qed

lemma partition_local_ips_ok:
  obtains l4 l6 where "partition_local_ips ips = Some (l4, l6)" "local_rep True l4" "local_rep False l6"
    "\<forall>ip. in_prefixes (li_prefixes l4 @ li_prefixes l6) ip \<longleftrightarrow> ip \<in> set ips"
proof -
  obtain v4 v6 where v: "host_prefixes ips = Some (v4, v6)" "list_all prefix_wf (v4 @ v6)"
    "list_all (\<lambda>p. is_ipv4 (a_addr p)) v4" "list_all (\<lambda>p. \<not> is_ipv4 (a_addr p)) v6"
    "\<forall>ip. in_prefixes (v4 @ v6) ip \<longleftrightarrow> ip \<in> set ips" using host_prefixes_ok by blast
  obtain l4 where l4: "local_new v4 = Some l4" "local_rep True l4" "li_prefixes l4 = v4"
    using local_new_rep[of v4 True] v by auto
  obtain l6 where l6: "local_new v6 = Some l6" "local_rep False l6" "li_prefixes l6 = v6"
    using local_new_rep[of v6 False] v by auto
  show ?thesis using that[of l4 l6] v l4 l6 by (simp add: partition_local_ips_def)
qed

lemma cidr_contains:
  assumes "parse_cidr_prefix c = Some p" "prefix_new (pfx_addr p) (pfx_bits p) = Some ap"
  shows "art_contains ap ip \<longleftrightarrow> prefix_contains p ip"
proof -
  have "pfx_bits p \<le> addr_len (pfx_addr p)" using assms(1)
    by (auto simp: parse_cidr_prefix_def bind_eq_Some_conv addr_len_def split: if_splits)
  then have "prefix_contains p ip \<longleftrightarrow> leading_bits_agree (pfx_addr p) (pfx_bits p) ip" by (rule fp.contains_iff)
  moreover have "art_contains ap ip \<longleftrightarrow> leading_bits_agree (a_addr ap) (a_bits ap) ip"
    using prefix_new_wf[OF assms(2)] art_contains_iff by blast
  ultimately show ?thesis using prefix_new_wf[OF assms(2)] by metis
qed

lemma local_cidrs_ok:
  "local_cidrs cidrs = (v4, v6) \<Longrightarrow> list_all prefix_wf (v4 @ v6) \<and>
     list_all (\<lambda>p. is_ipv4 (a_addr p)) v4 \<and> list_all (\<lambda>p. \<not> is_ipv4 (a_addr p)) v6 \<and>
     (\<forall>ip. in_prefixes (v4 @ v6) ip \<longleftrightarrow>
        (\<exists>c \<in> set cidrs. \<exists>p. parse_cidr_prefix c = Some p \<and> prefix_contains p ip))"
proof (induction cidrs arbitrary: v4 v6)
  case Nil
  then show ?case by (simp add: in_prefixes_def)
next
  case (Cons c cidrs)
  obtain w4 w6 where w: "local_cidrs cidrs = (w4, w6)" by fastforce
  note IH = Cons.IH[OF w]
  consider (skip) "parse_cidr_prefix c = None"
    | (add) p ap where "parse_cidr_prefix c = Some p" "prefix_new (pfx_addr p) (pfx_bits p) = Some ap"
  proof (cases "parse_cidr_prefix c")
    case (Some p)
    then have "pfx_bits p \<le> addr_len (pfx_addr p)"
      by (auto simp: parse_cidr_prefix_def bind_eq_Some_conv addr_len_def split: if_splits)
    then show ?thesis using add Some by (simp add: prefix_new_def bit_len_addr_len)
  qed (rule skip)
  then show ?case
  proof cases
    case skip
    then show ?thesis using Cons.prems IH w by simp
  next
    case add
    note wf = prefix_new_wf[OF add(2)] and cont = cidr_contains[OF add]
    have "in_prefixes (v4 @ v6) ip \<longleftrightarrow> art_contains ap ip \<or> in_prefixes (w4 @ w6) ip" for ip
      using Cons.prems add w by (auto simp: in_prefixes_def split: if_splits)
    then show ?thesis using Cons.prems IH w add wf cont by (auto split: if_splits)
  qed
qed

subsection \<open>Packets\<close>

lemma fill_transport_info_same:
  "fill_transport_info info proto t = Some info' \<Longrightarrow>
     pi_version info' = pi_version info \<and> pi_src info' = pi_src info \<and> pi_dst info' = pi_dst info"
  by (auto simp: fill_transport_info_def bind_eq_Some_conv split: if_splits)

lemma parse_packet_family:
  assumes "parse_packet buf = Some (Some q)"
  shows "is_ipv4 (pi_src q) = (pi_version q = 4)" "is_ipv4 (pi_dst q) = (pi_version q = 4)"
  using assms
  by (auto simp: parse_packet_def parse_v4_def parse_v6_def Let_def bind_eq_Some_conv
    dest!: fill_transport_info_same split: if_splits)

lemma parse_packet_total: "\<exists>r. parse_packet buf = Some r"
  using decode_agrees[of buf] by (auto simp: decoders_agree_def)

lemma check_info_family: "is_ipv4 (pi_src (check_info src dst proto port)) = (pi_version (check_info src dst proto port) = 4)"
  by (simp add: check_info_def)

subsection \<open>Flows\<close>

lemma flows_rep_new: "flows_rep flow_state_new []"
  by (simp add: flows_rep_def flow_state_new_def cache_rep_default)

lemma flow_get_rep:
  assumes "flows_rep s flows"
  obtains s' where "flow_get t s = Some (s', as_tuple t \<in> fst ` set flows)"
    "flows_rep s' (fst (lru_get (as_tuple t) flows))"
proof -
  obtain c where c: "cache_get (as_tuple t) (fs_cache s) = Some (c, map_of flows (as_tuple t))"
    "cache_rep c (fst (lru_get (as_tuple t) flows))" "c_max_entries c = 512"
    "length (fst (lru_get (as_tuple t) flows)) \<le> 512"
    using flow_cache.get_member[of "fs_cache s" flows "as_tuple t"] assms by (fastforce simp: flows_rep_def)
  then show ?thesis using that[of "s\<lparr>fs_cache := c\<rparr>"] map_of_eq_None_iff[of flows "as_tuple t"]
    by (auto simp: flow_get_def flows_rep_def)
qed

lemma flow_add_rep:
  assumes "flows_rep s flows"
  obtains s' where "flow_add t s = Some s'" "flows_rep s' (lru_add 512 (as_tuple t) () flows)"
proof -
  obtain c where c: "cache_add (as_tuple t) () (fs_cache s) = Some c"
    "cache_rep c (lru_add 512 (as_tuple t) () flows)" "c_max_entries c = 512"
    using cache_add_refines[of "fs_cache s" flows "as_tuple t" "()"] assms by (auto simp: flows_rep_def)
  moreover have "length (lru_add 512 (as_tuple t) () flows) \<le> 512"
    using assms lru_add_length[of flows 512] cache_rep_distinct by (auto simp: flows_rep_def)
  ultimately show ?thesis using that[of "s\<lparr>fs_cache := c\<rparr>"] by (auto simp: flow_add_def flows_rep_def)
qed

subsection \<open>Rules\<close>

lemma compiled_src_plain:
  assumes "rule_compiles r"
  shows "(\<exists>p \<in> set (m_srcs (compiled r)). prefix_contains p ip) \<longleftrightarrow> (\<exists>s \<in> set (SrcIPs r). src_denotes no_caps s ip)"
proof -
  have "src_denotes no_caps s ip \<longleftrightarrow> (\<exists>p \<in> set (src_prefixes s). prefix_contains p ip)" if s: "s \<in> set (SrcIPs r)" for s
  proof -
    have "\<forall>s \<in> set (SrcIPs r). \<exists>x. parse_ip_set s = Inr x" using assms by (simp add: rule_compiles_def)
    then obtain x where "parse_ip_set s = Inr x" using s by blast
    from src_denotes_eq[OF this, of no_caps ip] show ?thesis by (simp add: no_caps_def)
  qed
  then show ?thesis by (auto simp: compiled_def)
qed

lemma compiled_src_caps:
  "(\<exists>c \<in> set (m_src_caps (compiled r)). holds ip c) \<longleftrightarrow>
     (\<exists>s \<in> set (SrcIPs r). \<exists>c. s \<noteq> ''*'' \<and> strip_prefix ''cap:'' s = Some c \<and> holds ip c)"
proof -
  have "c \<in> set (src_cap s) \<longleftrightarrow> s \<noteq> ''*'' \<and> strip_prefix ''cap:'' s = Some c" for s c
    using parse_ip_set_Cap[of s c] by (auto simp: src_cap_def split: sum.splits ip_set_result.splits)
  then show ?thesis by (simp add: compiled_def) metis
qed

lemma dst_denotes:
  assumes "rule_compiles r" "d \<in> set (DstPorts r)"
  shows "(\<exists>p \<in> set (src_prefixes (IP d)). prefix_contains p ip) \<longleftrightarrow> denotes (IP d) ip"
proof -
  obtain ps where "parse_ip_set (IP d) = Inr (Prefixes ps)" using assms by (auto simp: rule_compiles_def)
  then show ?thesis using parse_ip_set_denotes by (simp add: src_prefixes_def)
qed

lemma compiled_dst:
  assumes "rule_compiles r"
  shows "(\<exists>n \<in> set (m_dsts (compiled r)). P (npr_ports n) \<and> prefix_contains (npr_net n) ip) \<longleftrightarrow>
    (\<exists>d \<in> set (DstPorts r). P \<lparr>pr_first = First (Ports d), pr_last = Last (Ports d)\<rparr> \<and> denotes (IP d) ip)"
  using dst_denotes[OF assms, of _ ip, symmetric] by (simp add: compiled_def dst_ranges_def)

lemma compiled_all_ports:
  assumes "rule_compiles r"
  shows "rule_admits_all_ports (compiled r) q \<longleftrightarrow> rule_allows_all_ports r q"
proof -
  have "(\<lparr>pr_first = First p, pr_last = Last p\<rparr> = port_range_all) = (p = tc_port_range_all)" for p :: tc_port_range
    by (cases p) (auto simp: port_range_all_def tc_port_range_all_def)
  then have dst: "(\<exists>n \<in> set (m_dsts (compiled r)). npr_ports n = port_range_all \<and> prefix_contains (npr_net n) (pi_dst q)) =
      (\<exists>d \<in> set (DstPorts r). Ports d = tc_port_range_all \<and> denotes (IP d) (pi_dst q))"
    using compiled_dst[OF assms, of "\<lambda>p. p = port_range_all"] by simp
  have protos: "m_ip_proto (compiled r) = rule_protos r" by (simp add: compiled_def)
  show ?thesis
    unfolding rule_admits_all_ports_def rule_allows_all_ports_def dst protos compiled_src_plain[OF assms] ..
qed

lemma parse_range_wf: "parse_range arg a b = Inr (Prefixes ps) \<Longrightarrow> p \<in> set ps \<Longrightarrow> pfx_bits p \<le> addr_len (pfx_addr p)"
  using range_loop_len[where 'a = 32] range_loop_len[where 'a = 128]
  by (auto simp: parse_range_def Let_def range_to_prefixes_v4_def range_to_prefixes_v6_def addr_len_def
    split: option.splits if_splits ipaddr.splits)

lemma parse_ip_set_wf:
  assumes "parse_ip_set arg = Inr (Prefixes ps)" "p \<in> set ps"
  shows "pfx_bits p \<le> addr_len (pfx_addr p)"
  using assms
  by (auto simp: parse_ip_set_def wildcard_prefixes_def parse_cidr_def host_prefix_def addr_len_def Let_def
    dest!: parse_range_wf[unfolded addr_len_def] split: if_splits option.splits sum.splits prod.splits)

lemma compiled_dst_family:
  assumes "rule_compiles r"
  shows "(\<exists>n \<in> set (m_dsts (compiled r)). is_v4 (npr_net n) = v4) \<longleftrightarrow>
    (\<exists>d \<in> set (DstPorts r). \<exists>ip. is_ipv4 ip = v4 \<and> denotes (IP d) ip)"
proof -
  have "(\<exists>p \<in> set (src_prefixes (IP d)). is_v4 p = v4) \<longleftrightarrow> (\<exists>ip. is_ipv4 ip = v4 \<and> denotes (IP d) ip)"
    if d: "d \<in> set (DstPorts r)" for d
  proof -
    have "prefix_contains p (pfx_addr p)" if "p \<in> set (src_prefixes (IP d))" for p
      using that parse_ip_set_wf[OF sym]
      by (intro fp.contains_net) (auto simp: src_prefixes_def split: sum.splits ip_set_result.splits)
    then show ?thesis unfolding dst_denotes[OF assms d, symmetric] is_v4_def
      using contains_same_family[unfolded is_v4_def] by blast
  qed
  then show ?thesis by (simp add: compiled_def dst_ranges_def)
qed

lemma compiled_icmp:
  assumes "list_all rule_compiles rules" "is_ipv4 (pi_src q) = v4" "is_ipv4 (pi_dst q) = v4"
  shows "matches_ips_only (family_rules v4 (map compiled rules)) q holds \<longleftrightarrow>
    (\<exists>r \<in> set rules. rule_reaches_icmp holds r q)"
proof -
  have "(\<exists>n \<in> set (m_dsts (compiled r)). prefix_contains (npr_net n) ip) = (\<exists>d \<in> set (DstPorts r). denotes (IP d) ip)"
    if "rule_compiles r" for r ip using compiled_dst[OF that, of "\<lambda>_. True"] by simp
  then have "rule_reaches (compiled r) q \<or> ((\<exists>c \<in> set (m_src_caps (compiled r)). holds (pi_src q) c) \<and>
      (\<exists>d \<in> set (m_dsts (compiled r)). is_v4 (npr_net d) = v4)) \<longleftrightarrow> rule_reaches_icmp holds r q" if "rule_compiles r" for r
    using that assms(3)
    by (simp only: rule_reaches_def rule_reaches_icmp_def compiled_src_plain compiled_src_caps compiled_dst_family)
  then show ?thesis using assms(1) by (simp add: family_rules_ips_only[OF assms(2,3)] list_all_iff)
qed

lemma compiled_matches:
  assumes "list_all rule_compiles rules" "is_ipv4 (pi_src q) = v4" "is_ipv4 (pi_dst q) = v4"
  shows "matches (family_rules v4 (map compiled rules)) q holds \<longleftrightarrow> (\<exists>r \<in> set rules. rule_allows holds r q)"
    "matches_proto_and_ips_only_if_all_ports (family_rules v4 (map compiled rules)) q \<longleftrightarrow>
       (\<exists>r \<in> set rules. rule_allows_all_ports r q)"
  unfolding family_rules_matches[OF assms(2,3)] using assms(1)
  by (simp_all add: matches_iff all_ports_iff list_all_iff compiled_admits compiled_all_ports)

subsection \<open>Refinement\<close>

text \<open>The common shape of the two handlers for inbound packets.\<close>

definition run_in :: "u8 \<Rightarrow> local_ip_set \<Rightarrow> match_rule list \<Rightarrow> 'c pfilter \<Rightarrow> packet_info \<Rightarrow> ('c pfilter \<times> verdict) option" where
  "run_in icmp l ms f q = do {
     inside \<leftarrow> local_contains l (pi_dst q);
     (if \<not> inside then Some (f, V_NoVerdict)
      else do {
        (s, flow) \<leftarrow> (if tracked q then flow_get (packet_tuple q) (f_state f) else Some (f_state f, False));
        let old = (pi_proto q = icmp \<and> (pi_is_icmp_echo_reply q \<or> pi_is_icmp_error q) \<or>
              pi_proto q = TCP \<and> \<not> pi_is_tcp_syn q \<or> flow \<or> pi_proto q = TSMP);
        let fresh = (if pi_proto q = icmp then matches_ips_only ms q (has_cap (f_cap_holders f))
              else if pi_proto q = TCP \<or> tracked q then matches ms q (has_cap (f_cap_holders f))
              else matches_proto_and_ips_only_if_all_ports ms q);
        Some (f\<lparr>f_state := s\<rparr>, if old \<or> \<not> f_shields_up f \<and> fresh then V_Accept else V_NoVerdict)
      })
   }"

lemma run_in_eq:
  "run_in4 f q = run_in ICMP_V4 (f_local4 f) (f_matches4 f) f q"
  "run_in6 f q = run_in ICMP_V6 (f_local6 f) (f_matches6 f) f q"
  by (auto simp: run_in4_def run_in6_def run_in_def tracked_def info_is_tcp_syn_def info_is_echo_response_def
    info_is_error_def ICMP_V4_def ICMP_V6_def TCP_def UDP_def SCTP_def TSMP_def Let_def
    intro!: bind_option_cong split: prod.splits)

lemma run_in_rep:
  assumes l: "local_rep v4 l" "\<forall>ip. is_ipv4 ip = v4 \<longrightarrow> in_prefixes (li_prefixes l) ip = sf_local S ip"
    and ms: "ms = family_rules v4 (map compiled (sf_rules S))"
    and rep: "filter_rep f S" and fam: "is_ipv4 (pi_src q) = v4" "v4 = (pi_version q = 4)" and icmp: "icmp = icmp_of q"
  shows "\<exists>f'. run_in icmp l ms f q =
      Some (f', if is_local S q \<and> (established (sf_flows S) q \<or> \<not> sf_shields S \<and> may_open (sf_caps S) (sf_rules S) q)
                then V_Accept else V_NoVerdict) \<and>
    filter_rep f' (if is_local S q \<and> tracked q
      then S\<lparr>sf_flows := fst (lru_get (as_tuple (packet_tuple q)) (sf_flows S))\<rparr> else S)"
proof -
  have inside: "local_contains l (pi_dst q) = Some (is_local S q)"
    using local_contains_rep[OF l(1)] local_rep_family[OF l(1)] l(2) fam by (auto simp: is_local_def)
  show ?thesis
  proof (cases "is_local S q")
    case False
    then show ?thesis using inside rep by (simp add: run_in_def)
  next
    case True
    then have dst: "is_ipv4 (pi_dst q) = v4" using fam by (simp add: is_local_def)
    have comp: "list_all rule_compiles (sf_rules S)" and caps: "f_cap_holders f = sf_caps S"
      and sh: "f_shields_up f = sf_shields S" and fl: "flows_rep (f_state f) (sf_flows S)"
      using rep by (simp_all add: filter_rep_def)
    obtain s where s: "(if tracked q then flow_get (packet_tuple q) (f_state f) else Some (f_state f, False)) =
        Some (s, tracked q \<and> as_tuple (packet_tuple q) \<in> fst ` set (sf_flows S))"
      "flows_rep s (if tracked q then fst (lru_get (as_tuple (packet_tuple q)) (sf_flows S)) else sf_flows S)"
    proof (cases "tracked q")
      case True
      obtain s where "flow_get (packet_tuple q) (f_state f) = Some (s, as_tuple (packet_tuple q) \<in> fst ` set (sf_flows S))"
        "flows_rep s (fst (lru_get (as_tuple (packet_tuple q)) (sf_flows S)))" by (rule flow_get_rep[OF fl])
      then show ?thesis using that True by simp
    qed (use that fl in simp)
    have open_eq: "(if pi_proto q = icmp then matches_ips_only ms q (has_cap (f_cap_holders f))
          else if pi_proto q = TCP \<or> tracked q then matches ms q (has_cap (f_cap_holders f))
          else matches_proto_and_ips_only_if_all_ports ms q) = may_open (sf_caps S) (sf_rules S) q"
      unfolding ms caps icmp may_open_def compiled_icmp[OF comp fam(1) dst] compiled_matches[OF comp fam(1) dst] by auto
    have rep': "filter_rep (f\<lparr>f_state := s\<rparr>) (if tracked q
        then S\<lparr>sf_flows := fst (lru_get (as_tuple (packet_tuple q)) (sf_flows S))\<rparr> else S)"
      using rep s(2) by (cases "tracked q") (simp_all add: filter_rep_def)
    have "run_in icmp l ms f q = Some (f\<lparr>f_state := s\<rparr>,
        if established (sf_flows S) q \<or> \<not> sf_shields S \<and> may_open (sf_caps S) (sf_rules S) q then V_Accept else V_NoVerdict)"
      unfolding run_in_def Let_def open_eq inside s(1) sh unfolding established_def icmp using True by simp
    then show ?thesis using True rep' by simp
  qed
qed

lemma check_in_info_rep:
  assumes rep: "filter_rep f S" and src: "is_ipv4 (pi_src q) = (pi_version q = 4)"
  shows "\<exists>f'. check_in_info q f = Some (f', snd (spec_packet q S)) \<and> filter_rep f' (fst (spec_packet q S))"
proof (cases "pre q")
  case Pre_Continue
  let ?v4 = "pi_version q = 4"
  let ?l = "if ?v4 then f_local4 f else f_local6 f"
  have l: "local_rep ?v4 ?l" using rep by (auto simp: filter_rep_def)
  have loc: "\<forall>ip. is_ipv4 ip = ?v4 \<longrightarrow> in_prefixes (li_prefixes ?l) ip = sf_local S ip"
    using rep local_rep_family[of True "f_local4 f"] local_rep_family[of False "f_local6 f"]
    by (auto simp: filter_rep_def)
  have eq: "(if ?v4 then run_in4 f q else run_in6 f q) =
      run_in (icmp_of q) ?l (family_rules ?v4 (map compiled (sf_rules S))) f q"
    using rep by (simp add: run_in_eq icmp_of_def filter_rep_def)
  from run_in_rep[OF l loc refl rep src refl refl] Pre_Continue show ?thesis
    by (auto simp: check_in_info_def eq spec_packet_def spec_verdict_def)
qed (use rep in \<open>simp_all add: check_in_info_def spec_packet_def spec_verdict_def\<close>)

lemma filter_new_rep:
  assumes "list_all rule_compiles rules"
  obtains f where "filter_new env rules ips caps = Some (Inr f)" "filter_rep f (spec_new env rules ips caps)"
proof -
  have m: "matches_from_filter_rules rules = Inr (map compiled rules)"
    using assms by (simp add: matches_from_filter_rules_Inr)
  obtain l4 l6 where l: "partition_local_ips ips = Some (l4, l6)" "local_rep True l4" "local_rep False l6"
    "\<forall>ip. in_prefixes (li_prefixes l4 @ li_prefixes l6) ip \<longleftrightarrow> ip \<in> set ips" by (rule partition_local_ips_ok)
  obtain m4 m6 where m46: "partition_by_family (map compiled rules) = (m4, m6)" by fastforce
  obtain c4 c6 where c46: "partition_caps_by_family (map compiled rules) = (c4, c6)" by fastforce
  show ?thesis
    by (rule that; (simp add: filter_new_def m l m46 c46)?)
      (use assms l m46 in \<open>simp add: filter_rep_def spec_new_def family_rules_def flows_rep_new\<close>)
qed

lemma filter_new_error:
  assumes "\<not> list_all rule_compiles rules"
  obtains e where "filter_new env rules ips caps = Some (Inl e)"
  using assms matches_from_filter_rules_Inr[of rules]
  by (cases "matches_from_filter_rules rules") (auto simp: filter_new_def)

lemma rebuild_rep:
  fixes f :: "'c pfilter"
  assumes rep: "filter_rep f S"
  shows "\<exists>f'. filter_step env (Rebuild rules ips caps) f = Some (f', snd (spec_step env (Rebuild rules ips caps) S)) \<and>
    filter_rep f' (fst (spec_step env (Rebuild rules ips caps) S))"
proof -
  have unch: "is_inputs_unchanged env f rules ips caps \<longleftrightarrow>
      sf_hash S \<noteq> sum_default \<and> sf_hash S = filter_inputs_hash env rules ips caps"
    using rep by (simp add: is_inputs_unchanged_def filter_rep_def)
  show ?thesis
  proof (cases "is_inputs_unchanged env f rules ips caps")
    case True
    then have "rebuild_if_changed env rules ips caps f = Some (f, Inr False)"
      "spec_step env (Rebuild rules ips caps) S = (S, Rebuilt (Some False))"
      using unch by (auto simp: rebuild_if_changed_def)
    then show ?thesis using rep by auto
  next
    case changed: False
    show ?thesis
    proof (cases "list_all rule_compiles rules")
      case True
      obtain n :: "'c pfilter" where n: "filter_new env rules ips caps = Some (Inr n)"
        "filter_rep n (spec_new env rules ips caps)" using filter_new_rep[OF True] .
      let ?n = "n\<lparr>f_state := f_state f, f_shields_up := f_shields_up f, f_connection_counter := f_connection_counter f\<rparr>"
      let ?S = "S\<lparr>sf_rules := rules, sf_local := (\<lambda>ip. ip \<in> set ips), sf_caps := caps,
        sf_hash := filter_inputs_hash env rules ips caps\<rparr>"
      have "rebuild_if_changed env rules ips caps f = Some (?n, Inr True)"
        using changed n(1) by (simp add: rebuild_if_changed_def share_state_with_def)
      moreover have "spec_step env (Rebuild rules ips caps) S = (?S, Rebuilt (Some True))"
        using changed unch True by auto
      moreover have "filter_rep ?n ?S" using n(2) rep by (simp add: filter_rep_def spec_new_def)
      ultimately show ?thesis by auto
    next
      case False
      obtain e where "filter_new env rules ips caps = (Some (Inl e) :: (filter_error + 'c pfilter) option)"
        using filter_new_error[OF False] .
      then have "rebuild_if_changed env rules ips caps f = Some (f, Inl e)"
        using changed by (simp add: rebuild_if_changed_def)
      moreover have "spec_step env (Rebuild rules ips caps) S = (S, Rebuilt None)" using changed unch False by auto
      ultimately show ?thesis using rep by auto
    qed
  qed
qed

lemma add_local_rep:
  assumes rep: "filter_rep f S"
  shows "\<exists>f'. filter_step env (Add_Local cidrs) f = Some (f', snd (spec_step env (Add_Local cidrs) S)) \<and>
    filter_rep f' (fst (spec_step env (Add_Local cidrs) S))"
proof -
  obtain v4 v6 where v: "local_cidrs cidrs = (v4, v6)" by fastforce
  note ok = local_cidrs_ok[OF v]
  obtain l4 where l4: "local_extend v4 (f_local4 f) = Some l4" "local_rep True l4" "li_prefixes l4 = li_prefixes (f_local4 f) @ v4"
    using local_extend_rep[of True "f_local4 f" v4] ok rep by (auto simp: filter_rep_def)
  obtain l6 where l6: "local_extend v6 (f_local6 f) = Some l6" "local_rep False l6" "li_prefixes l6 = li_prefixes (f_local6 f) @ v6"
    using local_extend_rep[of False "f_local6 f" v6] ok rep by (auto simp: filter_rep_def)
  show ?thesis using ok rep l4 l6 v by (auto simp: add_local_cidrs_def filter_rep_def)
qed

lemma outbound_rep:
  assumes rep: "filter_rep f S"
  shows "\<exists>f'. update_outbound_info q f = Some f' \<and> filter_rep f' (spec_outbound q S)"
proof (cases "tracked q")
  case True
  have "flows_rep (f_state f) (sf_flows S)" using rep by (simp add: filter_rep_def)
  then obtain s where s: "flow_add (reversed_tuple (pi_proto q) (pi_src q) (pi_src_port q) (pi_dst q) (pi_dst_port q))
      (f_state f) = Some s"
    "flows_rep s (lru_add 512 (as_tuple (reversed_tuple (pi_proto q) (pi_src q) (pi_src_port q) (pi_dst q) (pi_dst_port q)))
      () (sf_flows S))" by (rule flow_add_rep)
  have "as_tuple (reversed_tuple (pi_proto q) (pi_src q) (pi_src_port q) (pi_dst q) (pi_dst_port q)) =
      tuple_new (pi_proto q) (pi_dst q, pi_dst_port q) (pi_src q, pi_src_port q)"
    by (simp add: as_tuple_def reversed_tuple_def)
  then show ?thesis using True s rep
    by (auto simp: update_outbound_info_def spec_outbound_def tracked_def filter_rep_def)
next
  case False
  then show ?thesis using rep by (auto simp: update_outbound_info_def spec_outbound_def tracked_def)
qed

lemma info_of_cases:
  obtains "parse_packet buf = Some None" "info_of buf = None"
  | q where "parse_packet buf = Some (Some q)" "info_of buf = Some q" "is_ipv4 (pi_src q) = (pi_version q = 4)"
  using parse_packet_total[of buf] parse_packet_family(1)[of buf] by (auto simp: info_of_def) (metis not_Some_eq)

lemma check_in_rep:
  assumes rep: "filter_rep f S"
  shows "\<exists>f'. filter_step env (Check_In buf) f = Some (f', snd (spec_step env (Check_In buf) S)) \<and>
    filter_rep f' (fst (spec_step env (Check_In buf) S))"
proof (cases rule: info_of_cases[of buf])
  case (2 q)
  from check_in_info_rep[OF rep 2(3)] show ?thesis using rep 2 by (auto simp: check_in_def)
qed (use rep in \<open>auto simp: check_in_def\<close>)

lemma filter_step_rep:
  assumes rep: "filter_rep f S"
  shows "\<exists>f'. filter_step env op f = Some (f', snd (spec_step env op S)) \<and> filter_rep f' (fst (spec_step env op S))"
proof (cases op)
  case (Check src dst proto port)
  have "check src dst proto port f = check_in_info (check_info src dst proto port) f"
    by (simp add: check_def check_info_def)
  then show ?thesis using check_in_info_rep[OF rep check_info_family] Check by fastforce
next
  case (Update_Outbound buf)
  have c: "f_connection_counter f' = sf_counter S" if "filter_rep f' (spec_outbound q S)" for f' q
    using that by (simp add: filter_rep_def spec_outbound_def split: if_splits)
  show ?thesis
  proof (cases rule: info_of_cases[of buf])
    case (2 q)
    from outbound_rep[OF rep, of q] obtain f' where "update_outbound_info q f = Some f'" "filter_rep f' (spec_outbound q S)"
      by blast
    then show ?thesis using 2 c Update_Outbound by (auto simp: update_outbound_def)
  qed (use rep Update_Outbound in \<open>auto simp: update_outbound_def\<close>)
qed (use rep check_in_rep[OF rep] add_local_rep[OF rep] rebuild_rep[OF rep] in
  \<open>simp_all add: set_shields_up_def set_connection_counter_def filter_rep_def\<close>)

lemma filter_run_rep:
  "filter_rep f S \<Longrightarrow> \<exists>f'. filter_run env ops f = Some (f', snd (spec_run env ops S)) \<and> filter_rep f' (fst (spec_run env ops S))"
proof (induction ops arbitrary: f S)
  case (Cons op ops)
  obtain f1 where f1: "filter_step env op f = Some (f1, snd (spec_step env op S))" "filter_rep f1 (fst (spec_step env op S))"
    using filter_step_rep[OF Cons.prems] by blast
  from Cons.IH[OF f1(2)] f1(1) show ?case by (auto simp: case_prod_beta Let_def)
qed simp

subsection \<open>Recorded flows\<close>

text \<open>\<open>p\<close> is a packet of the flow in the other direction.\<close>

definition reply_of :: "packet_info \<Rightarrow> packet_info \<Rightarrow> bool" where
  "reply_of q p \<longleftrightarrow> pi_proto p = pi_proto q \<and> pi_src_port p = pi_dst_port q \<and> pi_dst_port p = pi_src_port q \<and>
     canonical_addr (pi_src p) = canonical_addr (pi_dst q) \<and> canonical_addr (pi_dst p) = canonical_addr (pi_src q)"

definition reply_tuple :: "packet_info \<Rightarrow> tuple" where
  "reply_tuple q = tuple_new (pi_proto q) (pi_dst q, pi_dst_port q) (pi_src q, pi_src_port q)"

lemma tuple_new_eq_iff:
  "tuple_new p s d = tuple_new p' s' d' \<longleftrightarrow> p = p' \<and> snd s = snd s' \<and> snd d = snd d' \<and>
     canonical_addr (fst s) = canonical_addr (fst s') \<and> canonical_addr (fst d) = canonical_addr (fst d')"
  by (auto simp: tuple_new_def mapped_octets_eq_iff)

lemma reply_tuple_iff: "as_tuple (packet_tuple p) = reply_tuple q \<longleftrightarrow> reply_of q p"
  by (auto simp: as_tuple_def packet_tuple_def reply_tuple_def tuple_new_eq_iff reply_of_def)

lemma lru_get_keys: "fst ` set (fst (lru_get k al)) = fst ` set al"
  by (force simp: lru_get_def AList.delete_eq split: option.splits dest: map_of_SomeD)

end
