(* ===== verification/Filter_Runs.thy ===== *)
theory Filter_Runs
  imports Filter_Spec
begin

text \<open>
  Lemmas on runs of the packet filter: where a recorded flow comes from and how long it stays, the
  capabilities that the compiled grants give, and the byte stream of the inputs that are hashed.
\<close>

subsection \<open>Flows over a run\<close>

lemma spec_packet_flows:
  "sf_flows (fst (spec_packet q S)) = sf_flows S \<or>
     sf_flows (fst (spec_packet q S)) = fst (lru_get (as_tuple (packet_tuple q)) (sf_flows S))"
  by (simp add: spec_packet_def)

lemma spec_step_flows:
  obtains (same) "sf_flows (fst (spec_step env op S)) = sf_flows S"
  | (get) k where "sf_flows (fst (spec_step env op S)) = fst (lru_get k (sf_flows S))"
  | (add) b q where "op = Update_Outbound b" "info_of b = Some q" "tracked q"
      "sf_flows (fst (spec_step env op S)) = lru_add 512 (reply_tuple q) () (sf_flows S)"
proof (cases op)
  case (Check_In b)
  show ?thesis
  proof (cases "b = [] \<or> info_of b = None")
    case True
    then show ?thesis using same Check_In by auto
  next
    case False
    then obtain q where "b \<noteq> []" "info_of b = Some q" by auto
    then show ?thesis using same get[of "as_tuple (packet_tuple q)"] spec_packet_flows[of q S] Check_In by fastforce
  qed
next
  case (Check src dst proto port)
  let ?q = "check_info src dst proto port"
  show ?thesis using same get[of "as_tuple (packet_tuple ?q)"] spec_packet_flows[of ?q S] Check by fastforce
next
  case (Update_Outbound b)
  show ?thesis
  proof (cases "info_of b")
    case (Some q)
    then show ?thesis using same add[of b q] Update_Outbound
      by (cases "tracked q") (simp_all add: spec_outbound_def reply_tuple_def)
  qed (use same Update_Outbound in simp)
qed (use same in \<open>auto split: if_splits\<close>)

lemma lru_add_keys: "fst ` set (lru_add m k v al) \<subseteq> insert k (fst ` set al)"
  by (auto simp: lru_add_def AList.delete_eq Let_def split: if_splits dest!: in_set_butlastD)

lemma flows_origin:
  "t \<in> fst ` set (sf_flows (fst (spec_run env ops S))) \<Longrightarrow>
     t \<in> fst ` set (sf_flows S) \<or>
     (\<exists>b q. Update_Outbound b \<in> set ops \<and> info_of b = Some q \<and> tracked q \<and> t = reply_tuple q)"
proof (induction ops arbitrary: S)
  case (Cons op ops)
  let ?S = "fst (spec_step env op S)"
  have "t \<in> fst ` set (sf_flows ?S) \<or>
      (\<exists>b q. Update_Outbound b \<in> set ops \<and> info_of b = Some q \<and> tracked q \<and> t = reply_tuple q)"
    using Cons.IH[of ?S] Cons.prems by (simp add: case_prod_beta Let_def)
  then show ?case
  proof
    assume t: "t \<in> fst ` set (sf_flows ?S)"
    show ?case
    proof (cases rule: spec_step_flows[of env op S])
      case (add b q)
      then show ?thesis using t lru_add_keys[of 512 "reply_tuple q" "()" "sf_flows S"] by auto
    qed (use t in \<open>simp_all add: lru_get_keys\<close>)
  qed auto
qed simp

definition near :: "'k \<Rightarrow> nat \<Rightarrow> ('k \<times> 'v) list \<Rightarrow> bool" where
  "near t n al \<longleftrightarrow> (\<exists>ys v zs. al = ys @ (t, v) # zs \<and> length ys \<le> n)"

lemma near_member: "near t n al \<Longrightarrow> t \<in> fst ` set al"
  by (auto simp: near_def)

lemma near_touch:
  assumes "near t n al"
  shows "near t (Suc n) ((k, v) # AList.delete k al)"
proof (cases "k = t")
  case True
  then show ?thesis by (auto simp: near_def intro!: exI[of _ "[]"])
next
  case False
  obtain ys w zs where al: "al = ys @ (t, w) # zs" "length ys \<le> n" using assms by (auto simp: near_def)
  then have "(k, v) # AList.delete k al = ((k, v) # AList.delete k ys) @ (t, w) # AList.delete k zs"
    using False by (simp add: AList.delete_eq)
  moreover have "length (AList.delete k ys) \<le> n" using al(2) length_delete_le[of k ys] by simp
  ultimately show ?thesis unfolding near_def by (metis length_Cons Suc_le_mono)
qed

lemma near_get: "near t n al \<Longrightarrow> near t (Suc n) (fst (lru_get k al))"
  using near_touch[of t n al k] by (auto simp: lru_get_def near_def le_Suc_eq split: option.splits)

lemma near_butlast:
  assumes "near t n al" "Suc n < length al"
  shows "near t n (butlast al)"
proof -
  obtain ys w zs where al: "al = ys @ (t, w) # zs" "length ys \<le> n" using assms by (auto simp: near_def)
  then have "zs \<noteq> []" using assms(2) by auto
  then have "butlast al = ys @ (t, w) # butlast zs" using al by (simp add: butlast_append)
  then show ?thesis using al(2) by (auto simp: near_def)
qed

lemma near_add: "near t n al \<Longrightarrow> n < 511 \<Longrightarrow> near t (Suc n) (lru_add 512 k () al)"
  using near_touch[of t n al k "()"] near_butlast[of t "Suc n" "(k, ()) # AList.delete k al"]
  by (auto simp: lru_add_def Let_def)

lemma add_near: "near t 0 (lru_add 512 t () al)"
  by (auto simp: lru_add_def Let_def near_def intro!: exI[of _ "[]"])

lemma near_run:
  "near t n (sf_flows S) \<Longrightarrow> n + length ops < 512 \<Longrightarrow> near t (n + length ops) (sf_flows (fst (spec_run env ops S)))"
proof (induction ops arbitrary: n S)
  case (Cons op ops)
  have "near t (Suc n) (sf_flows (fst (spec_step env op S)))"
  proof (cases rule: spec_step_flows[of env op S])
    case same
    then show ?thesis using Cons.prems(1) by (auto simp: near_def intro: le_SucI)
  qed (use Cons.prems in \<open>simp_all add: near_get near_add\<close>)
  from Cons.IH[OF this] Cons.prems(2) show ?case by (simp add: case_prod_beta Let_def)
qed simp

lemma spec_run_append: "fst (spec_run env (ops @ ops') S) = fst (spec_run env ops' (fst (spec_run env ops S)))"
  by (induction ops arbitrary: S) (simp_all add: case_prod_beta Let_def)

subsection \<open>Runs from a new filter\<close>

lemma filter_new_compiles:
  fixes f :: "'c pfilter"
  assumes new: "filter_new env rules ips caps = Some (Inr f)"
  shows "list_all rule_compiles rules"
proof (rule ccontr)
  assume bad: "\<not> list_all rule_compiles rules"
  obtain e where "filter_new env rules ips caps = (Some (Inl e) :: (filter_error + 'c pfilter) option)"
    using filter_new_error[OF bad] .
  then show False using new by simp
qed

lemma filter_run_new:
  fixes f0 :: "'c pfilter"
  assumes "filter_new env rules ips caps = Some (Inr f0)" "filter_run env ops f0 = Some (f, outs)"
  shows "filter_rep f (fst (spec_run env ops (spec_new env rules ips caps)))"
    "outs = snd (spec_run env ops (spec_new env rules ips caps))"
proof -
  obtain f1 :: "'c pfilter" where "filter_new env rules ips caps = Some (Inr f1)"
    "filter_rep f1 (spec_new env rules ips caps)" using filter_new_rep[OF filter_new_compiles[OF assms(1)]] .
  then have "filter_rep f0 (spec_new env rules ips caps)" using assms(1) by simp
  from filter_run_rep[OF this, of env ops] assms(2) show "filter_rep f (fst (spec_run env ops (spec_new env rules ips caps)))"
    "outs = snd (spec_run env ops (spec_new env rules ips caps))" by auto
qed

lemma check_in_verdict:
  assumes "filter_rep f S" "parse_packet buf = Some (Some q)"
  obtains f' where "check_in buf f = Some (f', spec_verdict S q)"
proof -
  have "buf \<noteq> []" using assms(2) by (auto simp: parse_packet_def)
  then show ?thesis using check_in_info_rep[OF assms(1) parse_packet_family(1)[OF assms(2)]] assms(2) that
    by (auto simp: check_in_def spec_packet_def)
qed

lemma reply_verdict:
  assumes "near (reply_tuple q) n (sf_flows S)" "tracked q" "reply_of q p" "pre p = Pre_Continue" "is_local S p"
  shows "spec_verdict S p = Accept"
proof -
  have "tracked p" using assms(2,3) by (simp add: tracked_def reply_of_def)
  moreover have "as_tuple (packet_tuple p) \<in> fst ` set (sf_flows S)"
    using near_member[OF assms(1)] assms(3) reply_tuple_iff[of p q] by simp
  ultimately show ?thesis using assms(4,5) by (simp add: spec_verdict_def established_def)
qed

subsection \<open>Capability grants\<close>

lemma parse_range_Inl:
  assumes "parse_range arg a b = Inl x" "parse_ip a = Some s" "parse_ip b = Some e"
  shows "\<not> in_range s e ip"
proof -
  have "range_to_prefixes_v4 s' e' = [] \<Longrightarrow> \<not> in_range (V4 s') (V4 e') ip" for s' e'
    using range_v4_contains[of s' e' ip] by simp
  moreover have "range_to_prefixes_v6 s' e' = [] \<Longrightarrow> \<not> in_range (V6 s') (V6 e') ip" for s' e'
    using range_v6_contains[of s' e' ip] by simp
  ultimately show ?thesis using assms
    by (cases s; cases e; cases ip) (auto simp: parse_range_def Let_def split: if_splits)
qed

lemma parse_ip_set_Inl:
  assumes "parse_ip_set arg = Inl e"
  shows "\<not> denotes arg ip"
proof (cases "CHR ''/'' \<notin> set arg \<and> length (filter (\<lambda>c. c = CHR ''-'') arg) = 1")
  case True
  then obtain a b where ab: "split_once CHR ''-'' arg = Some (a, b)" "\<And>a' b'. arg = a' @ CHR ''-'' # b' \<longleftrightarrow> a' = a \<and> b' = b"
    using split_dash by metis
  then have "parse_range arg a b = Inl e" "arg \<noteq> ''*''"
    using True assms by (auto simp: parse_ip_set_def split: if_splits option.splits)
  then show ?thesis using True ab(2) parse_range_Inl by (auto simp: denotes_def)
next
  case False
  then show ?thesis using assms by (auto simp: denotes_def parse_ip_set_def split: if_splits option.splits sum.splits)
qed

text \<open>The entries of a grant that reach an address.\<close>

definition grants :: "cap_grant \<Rightarrow> ipaddr \<Rightarrow> string \<Rightarrow> string list \<Rightarrow> bool" where
  "grants g dst c vs \<longleftrightarrow> (\<exists>d \<in> set (Dsts g). src_denotes no_caps d dst) \<and>
     (c \<in> set (Caps g) \<and> vs = [] \<or> (c, vs) \<in> set (CapMap g))"

lemma plain_prefixes: "(\<exists>p \<in> set (src_prefixes s). prefix_contains p ip) \<longleftrightarrow> src_denotes no_caps s ip"
proof (cases "parse_ip_set s")
  case (Inl e)
  then have "\<not> (s \<noteq> ''*'' \<and> strip_prefix ''cap:'' s = Some c)" for c using parse_ip_set_Cap[of s c] by auto
  then have "src_denotes no_caps s ip = denotes s ip" by (auto simp: src_denotes_def split: option.splits)
  then show ?thesis using Inl parse_ip_set_Inl[OF Inl] by (simp add: src_prefixes_def)
next
  case (Inr x)
  from src_denotes_eq[OF Inr, of no_caps ip] show ?thesis by (simp add: no_caps_def)
qed

lemma parse_cap_grant_iff:
  "(\<exists>cm \<in> set (parse_cap_grant g). cm_cap cm = c \<and> cm_values cm = vs \<and> prefix_contains (cm_dst cm) dst) \<longleftrightarrow>
     grants g dst c vs"
proof -
  have pair: "(\<exists>x \<in> A. fst x = c \<and> snd x = vs \<and> X) \<longleftrightarrow> (c, vs) \<in> A \<and> X" for A X by force
  have "parse_cap_grant g = concat (map (\<lambda>d. concat (map (\<lambda>pfx.
      map (\<lambda>cap. \<lparr>cm_dst = pfx, cm_cap = cap, cm_values = []\<rparr>) (Caps g) @
      map (\<lambda>(cap, vals). \<lparr>cm_dst = pfx, cm_cap = cap, cm_values = vals\<rparr>) (CapMap g)) (src_prefixes d))) (Dsts g))"
    unfolding parse_cap_grant_def
    by (rule arg_cong[of _ _ concat], rule map_cong) (auto simp: src_prefixes_def split: sum.splits ip_set_result.splits)
  then have "(\<exists>cm \<in> set (parse_cap_grant g). cm_cap cm = c \<and> cm_values cm = vs \<and> prefix_contains (cm_dst cm) dst) \<longleftrightarrow>
      (\<exists>d \<in> set (Dsts g). \<exists>p \<in> set (src_prefixes d). prefix_contains p dst \<and>
        (c \<in> set (Caps g) \<and> vs = [] \<or> (c, vs) \<in> set (CapMap g)))"
    by (simp add: bex_Un case_prod_beta pair) blast
  then show ?thesis unfolding grants_def plain_prefixes[symmetric] by blast
qed

lemma caps_of_match_eq:
  "caps_of_match dst cms out c =
     (let vs = map cm_values (filter (\<lambda>cm. cm_cap cm = c \<and> c \<noteq> [] \<and> prefix_contains (cm_dst cm) dst) cms) in
      if vs = [] then out c else Some (concat ((case out c of None \<Rightarrow> [] | Some prev \<Rightarrow> prev) # vs)))"
  by (induction dst cms out rule: caps_of_match.induct) (auto simp: Let_def split: option.splits)

definition cap_entries :: "ipaddr \<Rightarrow> ipaddr \<Rightarrow> string \<Rightarrow> match_rule list \<Rightarrow> cap_match list" where
  "cap_entries src dst c ms =
     concat (map (\<lambda>m. filter (\<lambda>cm. cm_cap cm = c \<and> c \<noteq> [] \<and> prefix_contains (cm_dst cm) dst) (m_caps m))
       (filter (\<lambda>m. list_ex (\<lambda>p. prefix_contains p src) (m_srcs m)) ms))"

lemma caps_loop_eq:
  "caps_loop src dst ms out c =
     (if cap_entries src dst c ms = [] then out c
      else Some ((case out c of None \<Rightarrow> [] | Some prev \<Rightarrow> prev) @ concat (map cm_values (cap_entries src dst c ms))))"
proof (induction ms arbitrary: out)
  case (Cons m ms)
  show ?case
  proof (cases "list_ex (\<lambda>p. prefix_contains p src) (m_srcs m)")
    case True
    then have "cap_entries src dst c (m # ms) =
        filter (\<lambda>cm. cm_cap cm = c \<and> c \<noteq> [] \<and> prefix_contains (cm_dst cm) dst) (m_caps m) @ cap_entries src dst c ms"
      by (simp add: cap_entries_def)
    then show ?thesis
      using True Cons.IH[of "caps_of_match dst (m_caps m) out"] caps_of_match_eq[of dst "m_caps m" out c]
      by (auto simp: Let_def split: option.splits)
  next
    case False
    then have "cap_entries src dst c (m # ms) = cap_entries src dst c ms" by (simp add: cap_entries_def)
    then show ?thesis using False Cons.IH by simp
  qed
qed (simp add: cap_entries_def)

lemma new_caps:
  assumes "filter_new env rules ips caps = Some (Inr f)"
  shows "(if v4 then f_cap4 f else f_cap6 f) =
    filter (\<lambda>m. m_caps m \<noteq> [] \<and> m_srcs m \<noteq> []) (map (cap_part v4 \<circ> compiled) rules)"
proof -
  have "matches_from_filter_rules rules = Inr (map compiled rules)"
    using filter_new_compiles[OF assms] by (simp add: matches_from_filter_rules_Inr)
  then show ?thesis using assms
    by (cases v4) (auto simp: filter_new_def partition_caps_by_family_eq bind_eq_Some_conv case_prod_beta)
qed

definition granted :: "filter_rule list \<Rightarrow> ipaddr \<Rightarrow> ipaddr \<Rightarrow> string \<Rightarrow> string list \<Rightarrow> bool" where
  "granted rules src dst c vs \<longleftrightarrow> c \<noteq> [] \<and>
     (\<exists>r \<in> set rules. (\<exists>s \<in> set (SrcIPs r). src_denotes no_caps s src) \<and> (\<exists>g \<in> set (CapGrant r). grants g dst c vs))"

lemma cap_part_sel [simp]: "m_caps (cap_part v4 m) = m_caps m" "m_srcs (cap_part v4 m) = filter (\<lambda>s. is_v4 s = v4) (m_srcs m)"
  by (simp_all add: cap_part_def match_default_def)

lemma compiled_caps:
  "(\<exists>cm \<in> set (m_caps (compiled r)). cm_cap cm = c \<and> cm_values cm = vs \<and> prefix_contains (cm_dst cm) dst) \<longleftrightarrow>
     (\<exists>g \<in> set (CapGrant r). grants g dst c vs)"
  unfolding parse_cap_grant_iff[symmetric] by (simp add: compiled_def)

lemma cap_entries_iff:
  "cm \<in> set (cap_entries src dst c ms) \<longleftrightarrow> cm_cap cm = c \<and> c \<noteq> [] \<and> prefix_contains (cm_dst cm) dst \<and>
     (\<exists>m \<in> set ms. (\<exists>p \<in> set (m_srcs m). prefix_contains p src) \<and> cm \<in> set (m_caps m))"
  by (auto simp: cap_entries_def list_ex_iff)

lemma cap_entries_part:
  "cm \<in> set (cap_entries src dst c (filter (\<lambda>m. m_caps m \<noteq> [] \<and> m_srcs m \<noteq> []) (map (cap_part v4 \<circ> compiled) rules))) \<longleftrightarrow>
     cm_cap cm = c \<and> c \<noteq> [] \<and> prefix_contains (cm_dst cm) dst \<and>
     (\<exists>r \<in> set rules. (\<exists>p \<in> set (filter (\<lambda>s. is_v4 s = v4) (m_srcs (compiled r))). prefix_contains p src) \<and>
       cm \<in> set (m_caps (compiled r)))"
proof -
  have "(\<exists>m \<in> set (filter (\<lambda>m. m_caps m \<noteq> [] \<and> m_srcs m \<noteq> []) (map f rs)). (\<exists>p \<in> set (m_srcs m). P p) \<and> cm \<in> set (m_caps m)) \<longleftrightarrow>
      (\<exists>r \<in> set rs. (\<exists>p \<in> set (m_srcs (f r)). P p) \<and> cm \<in> set (m_caps (f r)))" for f :: "filter_rule \<Rightarrow> match_rule" and rs P
    by (induction rs) auto
  from this[of "cap_part v4 \<circ> compiled" rules "\<lambda>p. prefix_contains p src"]
  show ?thesis unfolding cap_entries_iff by (simp only: cap_part_sel o_apply)
qed

lemma cap_entries_granted:
  assumes "filter_new env rules ips caps = Some (Inr f)" "v4 = is_ipv4 src"
  shows "(\<exists>cm \<in> set (cap_entries src dst c (if v4 then f_cap4 f else f_cap6 f)). cm_values cm = vs) \<longleftrightarrow>
    granted rules src dst c vs"
proof -
  note comp = filter_new_compiles[OF assms(1)]
  have "(\<exists>cm \<in> set (cap_entries src dst c (if v4 then f_cap4 f else f_cap6 f)). cm_values cm = vs) \<longleftrightarrow>
    c \<noteq> [] \<and> (\<exists>r \<in> set rules. (\<exists>p \<in> set (filter (\<lambda>s. is_v4 s = v4) (m_srcs (compiled r))). prefix_contains p src) \<and>
      (\<exists>cm \<in> set (m_caps (compiled r)). cm_cap cm = c \<and> cm_values cm = vs \<and> prefix_contains (cm_dst cm) dst))"
    unfolding new_caps[OF assms(1)] Bex_def[of "set (cap_entries _ _ _ _)"] cap_entries_part by blast
  also have "\<dots> \<longleftrightarrow> granted rules src dst c vs"
    using comp compiled_src_plain[of _ src] family_srcs[of src v4] assms(2)
    unfolding granted_def compiled_caps list_all_iff by metis
  finally show ?thesis .
qed

subsection \<open>The hash of the inputs\<close>

definition enc_filter_inputs :: "(bytes \<Rightarrow> sum) \<Rightarrow> filter_inputs \<Rightarrow> bytes" where
  "enc_filter_inputs sha inputs = enc_slice (enc_filter_rule sha) (fst inputs) @
     enc_slice enc_ip (fst (snd inputs)) @ enc_map sha (\<lambda>(ip, cs). enc_ip ip @ enc_map sha enc_str cs) (snd (snd inputs))"

definition inputs_view :: "(bytes \<Rightarrow> sum) \<Rightarrow> filter_inputs \<Rightarrow>
    (string list \<times> i32 list \<times> tc_net_port_range list \<times> i32 list \<times> (string list \<times> string list \<times> nat \<times> sum) list) list \<times>
    ipaddr list \<times> nat \<times> sum" where
  "inputs_view sha inputs = (map (filter_rule_view sha) (fst inputs), fst (snd inputs),
     length (snd (snd inputs)), digest sha (\<lambda>(ip, cs). enc_ip ip @ enc_map sha enc_str cs) (snd (snd inputs)))"

definition inputs_ok :: "filter_inputs \<Rightarrow> bool" where
  "inputs_ok inputs \<longleftrightarrow> slice_ok filter_rule_ok (fst inputs) \<and> length (fst (snd inputs)) < 2 ^ 64 \<and>
     length (snd (snd inputs)) < 2 ^ 64"

definition inputs_stream :: "hash_env \<Rightarrow> filter_inputs \<Rightarrow> bytes" where
  "inputs_stream env inputs =
     to_le_bytes (he_seed env) @ enc_str (he_type_name env) @ enc_filter_inputs (he_sha env) inputs"

lemma streams_filter_inputs:
  assumes sha: "\<And>bs. length (sha bs) = 32"
  shows "streams (deep_hash_filter_inputs sha) (enc_filter_inputs sha)"
proof -
  have caps: "streams (hash_map sha deep_hash_ipaddr (hash_set sha deep_hash_str))
      (enc_map sha (\<lambda>(ip, cs). enc_ip ip @ enc_map sha enc_str cs))"
    by (rule streams_map[OF sha streams_ip streams_set[OF sha streams_str]])
  note rules = streamsD[OF streams_slice[OF streams_filter_rule[OF sha]]] and ips = streamsD[OF streams_slice[OF streams_ip]]
  show ?thesis
    unfolding streams_def deep_hash_filter_inputs_def enc_filter_inputs_def
    by (auto simp: rules ips streamsD[OF caps])
qed

lemma filter_inputs_hash_eq:
  assumes sha: "\<And>bs. length (he_sha env bs) = 32"
  shows "filter_inputs_hash env rules ips caps = he_sha env (inputs_stream env (rules, ips, caps))"
  by (simp add: filter_inputs_hash_def deephash_update_def Let_def deephash_stream[OF streams_filter_inputs[OF sha]]
    inputs_stream_def)

lemma decodable_filter_inputs:
  assumes sha: "\<And>bs. length (sha bs) = 32"
  shows "decodable inputs_ok (inputs_view sha) (enc_filter_inputs sha)"
proof -
  let ?e = "\<lambda>(ip, cs). enc_ip ip @ enc_map sha enc_str cs"
  have 1: "decodable (\<lambda>i. slice_ok filter_rule_ok (fst i)) (\<lambda>i. map (filter_rule_view sha) (fst i))
      (\<lambda>i :: filter_inputs. enc_slice (enc_filter_rule sha) (fst i))"
    by (rule decodable_comp[OF decodable_slice[OF decodable_filter_rule[OF sha]]])
  have 2: "decodable (\<lambda>i. slice_ok (\<lambda>_. True) (fst (snd i))) (\<lambda>i. map (\<lambda>a. a) (fst (snd i)))
      (\<lambda>i :: filter_inputs. enc_slice enc_ip (fst (snd i)))"
    by (rule decodable_comp[OF decodable_slice[OF decodable_ip]])
  have 3: "decodable (\<lambda>i. length (snd (snd i)) < 2 ^ 64) (\<lambda>i. (length (snd (snd i)), digest sha ?e (snd (snd i))))
      (\<lambda>i :: filter_inputs. enc_map sha ?e (snd (snd i)))"
    by (rule decodable_comp[OF decodable_map[OF sha]])
  have "decodable inputs_ok (\<lambda>i. (map (filter_rule_view sha) (fst i), map (\<lambda>a. a) (fst (snd i)),
      length (snd (snd i)), digest sha ?e (snd (snd i)))) (enc_filter_inputs sha)"
    using decodable_weaken[OF decodable_seq[OF 1 decodable_seq[OF 2 3]], of inputs_ok]
    by (simp add: inputs_ok_def slice_ok_def enc_filter_inputs_def[abs_def] list.pred_True)
  then show ?thesis by (rule decodable_view) (simp add: inputs_view_def)
qed

text \<open>Inputs without capability maps: only there a digest stands for part of the inputs.\<close>

definition inputs_plain :: "filter_inputs \<Rightarrow> bool" where
  "inputs_plain inputs \<longleftrightarrow> list_all (\<lambda>r. list_all (\<lambda>g. CapMap g = []) (CapGrant r)) (fst inputs) \<and> snd (snd inputs) = []"

lemma map_eq_plain:
  assumes "\<And>x y. P x \<Longrightarrow> f x = f y \<Longrightarrow> x = y"
  shows "list_all P xs \<Longrightarrow> map f xs = map f ys \<Longrightarrow> xs = ys"
  by (induction xs arbitrary: ys) (auto simp: Cons_eq_map_conv assms)

lemma inputs_view_plain:
  assumes "inputs_plain inputs"
  shows "inputs_view sha inputs = inputs_view sha inputs' \<longleftrightarrow> inputs = inputs'"
proof
  assume v: "inputs_view sha inputs = inputs_view sha inputs'"
  have grant: "CapMap g = [] \<Longrightarrow> cap_grant_view sha g = cap_grant_view sha g' \<Longrightarrow> g = g'" for g g' :: cap_grant
    by (cases g; cases g') (simp add: cap_grant_view_def)
  have rule: "list_all (\<lambda>g. CapMap g = []) (CapGrant r) \<Longrightarrow> filter_rule_view sha r = filter_rule_view sha r' \<Longrightarrow> r = r'"
    for r r' :: filter_rule
    using map_eq_plain[of "\<lambda>g. CapMap g = []" "cap_grant_view sha" "CapGrant r" "CapGrant r'", OF grant]
    by (cases r; cases r') (simp add: filter_rule_view_def)
  have "fst inputs = fst inputs'"
    using map_eq_plain[of "\<lambda>r. list_all (\<lambda>g. CapMap g = []) (CapGrant r)" "filter_rule_view sha", OF rule] v assms
    by (simp add: inputs_view_def inputs_plain_def)
  then show "inputs = inputs'" using v assms by (simp add: inputs_view_def inputs_plain_def prod_eq_iff)
qed simp

end
