(* ===== verification/Filter_Properties.thy ===== *)
theory Filter_Properties
  imports Filter_Runs
begin

text \<open>
  What the packet filter guarantees: the refinement of its specification by every run, the bound on
  the flow state, what the shields and the absence of rules leave open, that the reply to an
  outbound packet comes in, what a capability grant gives, and when new inputs are noticed.
\<close>

lemma rep_local_contains:
  assumes "filter_rep f S"
  shows "local_contains (if v4 then f_local4 f else f_local6 f) ip = Some (sf_local S ip \<and> is_ipv4 ip = v4)"
proof -
  have l: "local_rep True (f_local4 f)" "local_rep False (f_local6 f)"
    "sf_local S ip \<longleftrightarrow> in_prefixes (li_prefixes (f_local4 f)) ip \<or> in_prefixes (li_prefixes (f_local6 f)) ip"
    using assms by (simp_all add: filter_rep_def)
  show ?thesis using l(3) local_contains_rep[OF l(1)] local_contains_rep[OF l(2)]
      local_rep_family[OF l(1), of ip] local_rep_family[OF l(2), of ip] by auto
qed

subsection \<open>Properties\<close>

text \<open>C1. A filter built from rules that compile answers every sequence of operations (inbound packets,
queries, outbound packets, the shields, the counter, more local prefixes, new inputs) as the
specification does, which decides on the rules as they were sent, on the set of local addresses and
on a bounded list of recent flows; in particular no operation panics.\<close>

theorem filter_refines_specification:
  assumes "list_all rule_compiles rules"
  shows "\<exists>f f'. filter_new env rules local_ips caps = Some (Inr (f :: 'c pfilter)) \<and>
    filter_run env ops f = Some (f', snd (spec_run env ops (spec_new env rules local_ips caps))) \<and>
    filter_rep f' (fst (spec_run env ops (spec_new env rules local_ips caps)))"
proof -
  obtain f :: "'c pfilter" where f: "filter_new env rules local_ips caps = Some (Inr f)"
    "filter_rep f (spec_new env rules local_ips caps)" using filter_new_rep[OF assms] .
  from filter_run_rep[OF f(2), of env ops] f(1) show ?thesis by blast
qed

definition trivial_env :: hash_env where
  "trivial_env = \<lparr>he_sha = (\<lambda>bs. replicate 32 (sum_list bs)), he_seed = 0, he_type_name = ''FilterInputs''\<rparr>"

definition own_ip :: ipaddr where
  "own_ip = V4 0x64400001"

definition udp_out :: bytes where
  "udp_out = [0x45, 0, 0, 28, 0, 0, 0, 0, 64, 17, 0, 0, 100, 64, 0, 1, 100, 64, 0, 2, 0, 53, 0, 54, 0, 8, 0, 0]"

definition udp_in :: bytes where
  "udp_in = [0x45, 0, 0, 28, 0, 0, 0, 0, 64, 17, 0, 0, 100, 64, 0, 2, 100, 64, 0, 1, 0, 54, 0, 53, 0, 8, 0, 0]"

definition udp_out_info :: packet_info where
  "udp_out_info = packet_info_default\<lparr>pi_version := 4, pi_proto := 17, pi_src := V4 0x64400001, pi_dst := V4 0x64400002,
     pi_src_port := 53, pi_dst_port := 54\<rparr>"

definition udp_in_info :: packet_info where
  "udp_in_info = packet_info_default\<lparr>pi_version := 4, pi_proto := 17, pi_src := V4 0x64400002, pi_dst := V4 0x64400001,
     pi_src_port := 54, pi_dst_port := 53\<rparr>"

lemma udp_parse:
  "parse_packet udp_out = Some (Some udp_out_info)" "parse_packet udp_in = Some (Some udp_in_info)"
  by code_simp+

lemma udp_in_facts: "pre udp_in_info = Pre_Continue" "tracked udp_out_info" "reply_of udp_out_info udp_in_info"
  by code_simp+

theorem filter_refines_specification_witness:
  "list_all rule_compiles filter_allow_all \<and>
   (\<exists>f f' :: nat pfilter. filter_new trivial_env filter_allow_all [own_ip] [] = Some (Inr f) \<and>
      filter_run trivial_env [Check_In udp_in] f =
        Some (f', snd (spec_run trivial_env [Check_In udp_in] (spec_new trivial_env filter_allow_all [own_ip] []))))"
proof -
  have "list_all rule_compiles filter_allow_all"
    by (simp add: filter_allow_all_def rule_compiles_def parse_ip_set_def)
  with filter_refines_specification[of filter_allow_all] show ?thesis by blast
qed

text \<open>C16. The number of recorded flows never exceeds 512, whatever operations a filter has seen.\<close>

theorem flow_state_bounded:
  assumes "filter_new env rules local_ips caps = Some (Inr f)" "filter_run env ops f = Some (f', outs)"
  shows "flow_len (f_state f') \<le> 512"
  using filter_run_new(1)[OF assms] by (auto simp: filter_rep_def flows_rep_def flow_len_def cache_rep_len)

theorem flow_state_bounded_witness:
  "\<exists>f f' :: nat pfilter. \<exists>outs. filter_new trivial_env [] [own_ip] [] = Some (Inr f) \<and>
     filter_run trivial_env (replicate 600 (Update_Outbound udp_out)) f = Some (f', outs) \<and> flow_len (f_state f') \<le> 512"
proof -
  obtain f :: "nat pfilter" where f: "filter_new trivial_env [] [own_ip] [] = Some (Inr f)"
    "filter_rep f (spec_new trivial_env [] [own_ip] [])" using filter_new_rep[OF list.pred_inject(1)] .
  obtain f' outs where "filter_run trivial_env (replicate 600 (Update_Outbound udp_out)) f = Some (f', outs)"
    using filter_run_rep[OF f(2)] by blast
  with f(1) flow_state_bounded[OF f(1) this] show ?thesis by blast
qed

text \<open>A run with the shields up and one outbound packet, for the two properties that follow.\<close>

definition shielded_ops :: "nat filter_op list" where
  "shielded_ops = [Set_Shields_Up True] @ Update_Outbound udp_out # [Rebuild [] [own_ip] []]"

lemma shielded_run:
  obtains f f' f'' :: "nat pfilter" and outs where "filter_new trivial_env [] [own_ip] [] = Some (Inr f)"
    "filter_run trivial_env shielded_ops f = Some (f', outs)" "f_shields_up f'"
    "local_contains (f_local4 f') (pi_dst udp_in_info) = Some True" "check_in udp_in f' = Some (f'', Accept)"
proof -
  let ?S = "fst (spec_run trivial_env shielded_ops (spec_new trivial_env [] [own_ip] []))"
  obtain f :: "nat pfilter" where f: "filter_new trivial_env [] [own_ip] [] = Some (Inr f)"
    "filter_rep f (spec_new trivial_env [] [own_ip] [])" using filter_new_rep[OF list.pred_inject(1)] .
  obtain f' outs where f': "filter_run trivial_env shielded_ops f = Some (f', outs)" "filter_rep f' ?S"
    using filter_run_rep[OF f(2)] by blast
  have S: "sf_shields ?S" "sf_flows ?S = [(reply_tuple udp_out_info, ())]" "sf_local ?S = (\<lambda>ip. ip \<in> {own_ip})"
    using udp_in_facts(2) udp_parse(1)
    by (auto simp: shielded_ops_def info_of_def spec_new_def spec_outbound_def lru_add_def reply_tuple_def)
  have loc: "pi_dst udp_in_info = own_ip" "is_ipv4 own_ip" "pi_version udp_in_info = 4"
    by (simp_all add: udp_in_info_def own_ip_def)
  have "spec_verdict ?S udp_in_info = Accept"
    using udp_in_facts S(2,3) loc by (intro reply_verdict[of udp_out_info 0]) (simp_all add: near_def is_local_def)
  then obtain f'' where "check_in udp_in f' = Some (f'', Accept)" using check_in_verdict[OF f'(2) udp_parse(2)] by metis
  moreover have "local_contains (f_local4 f') own_ip = Some True"
    using rep_local_contains[OF f'(2), of True own_ip] S(3) loc(2) by simp
  ultimately show ?thesis using that f(1) f' S(1) loc(1) by (auto simp: filter_rep_def)
qed

text \<open>C6. With the shields up, an inbound packet is accepted only if it is an empty buffer, a fragment, a
TSMP packet, a TCP packet that is not a SYN, an ICMP echo reply or error, or belongs to a UDP or
SCTP flow that an earlier outbound packet of this filter opened.\<close>

theorem shields_up_admits_only_established:
  fixes f :: "'c pfilter"
  assumes "filter_new env rules local_ips caps = Some (Inr f0)" "filter_run env ops f0 = Some (f, outs)"
    and "f_shields_up f" "check_in buf f = Some (f', Accept)"
  shows "buf = [] \<or> (\<exists>q. parse_packet buf = Some (Some q) \<and>
    (pi_proto q = FRAGMENT \<or> pi_proto q = TSMP \<or> (pi_proto q = TCP \<and> \<not> pi_is_tcp_syn q) \<or>
     (pi_proto q = icmp_of q \<and> (pi_is_icmp_echo_reply q \<or> pi_is_icmp_error q)) \<or>
     (\<exists>b p. Update_Outbound b \<in> set ops \<and> parse_packet b = Some (Some p) \<and> tracked p \<and> reply_of p q)))"
proof (cases "buf = []")
  case False
  let ?S = "fst (spec_run env ops (spec_new env rules local_ips caps))"
  note rep = filter_run_new(1)[OF assms(1,2)]
  obtain q where q: "parse_packet buf = Some (Some q)"
  proof (cases rule: info_of_cases[of buf])
    case 1
    then show ?thesis using assms(4) False by (simp add: check_in_def)
  qed
  have sh: "sf_shields ?S" using rep assms(3) by (simp add: filter_rep_def)
  have "spec_verdict ?S q = Accept" using check_in_verdict[OF rep q] assms(4) by (metis option.inject prod.inject)
  then consider "pre q = Pre_Accept" | "established (sf_flows ?S) q"
    using sh unfolding spec_verdict_def by (metis response.distinct(1))
  then show ?thesis
  proof cases
    case 1
    then have "pi_proto q = FRAGMENT" by (simp add: pre_def split: if_splits)
    then show ?thesis using q by blast
  next
    case 2
    have "\<exists>b p. Update_Outbound b \<in> set ops \<and> parse_packet b = Some (Some p) \<and> tracked p \<and> reply_of p q"
      if "as_tuple (packet_tuple q) \<in> fst ` set (sf_flows ?S)"
    proof -
      have "sf_flows (spec_new env rules local_ips caps :: 'c spec_filter) = []" by (simp add: spec_new_def)
      with flows_origin[OF that] obtain b p where "Update_Outbound b \<in> set ops" "info_of b = Some p" "tracked p"
        "as_tuple (packet_tuple q) = reply_tuple p" by auto
      then show ?thesis by (auto simp: info_of_def bind_eq_Some_conv reply_tuple_iff)
    qed
    with 2 q show ?thesis unfolding established_def by blast
  qed
qed simp

theorem shields_up_admits_only_established_witness:
  "\<exists>f0 f f' :: nat pfilter. \<exists>outs. filter_new trivial_env [] [own_ip] [] = Some (Inr f0) \<and>
     filter_run trivial_env shielded_ops f0 = Some (f, outs) \<and> f_shields_up f \<and> check_in udp_in f = Some (f', Accept) \<and>
     (\<exists>b p. Update_Outbound b \<in> set shielded_ops \<and> parse_packet b = Some (Some p) \<and> tracked p \<and> reply_of p udp_in_info)"
proof -
  obtain f f' f'' :: "nat pfilter" and outs where r: "filter_new trivial_env [] [own_ip] [] = Some (Inr f)"
    "filter_run trivial_env shielded_ops f = Some (f', outs)" "f_shields_up f'" "check_in udp_in f' = Some (f'', Accept)"
    using shielded_run .
  have "udp_in \<noteq> []" "pi_proto udp_in_info = UDP" by (simp_all add: udp_in_def udp_in_info_def UDP_def)
  then have "\<exists>b p. Update_Outbound b \<in> set shielded_ops \<and> parse_packet b = Some (Some p) \<and> tracked p \<and> reply_of p udp_in_info"
    using shields_up_admits_only_established[OF r] udp_parse(2)
    by (auto simp: FRAGMENT_def TSMP_def TCP_def UDP_def icmp_of_def ICMP_V4_def ICMP_V6_def split: if_splits)
  then show ?thesis using r by blast
qed

text \<open>C5. The reply to an outbound UDP or SCTP packet is accepted as long as fewer than 512 operations
follow the outbound packet, whatever the rules, the shields and the inputs have become, when its
destination is a local address of the filter and neither a multicast nor a link-local unicast address
(the filter drops these before it looks at flows).\<close>

theorem return_traffic_is_admitted:
  assumes "filter_new env rules local_ips caps = Some (Inr f0)"
    and "filter_run env (ops @ Update_Outbound out # ops') f0 = Some (f, outs)" "length ops' < 512"
    and "parse_packet out = Some (Some q)" "tracked q" "parse_packet buf = Some (Some p)" "reply_of q p"
    and "\<not> is_multicast (pi_dst p)" "\<not> is_link_local_unicast (pi_dst p)"
    and "local_contains (if pi_version p = 4 then f_local4 f else f_local6 f) (pi_dst p) = Some True"
  shows "\<exists>f'. check_in buf f = Some (f', Accept)"
proof -
  let ?S = "\<lambda>ops. fst (spec_run env ops (spec_new env rules local_ips caps))"
  let ?ops = "ops @ Update_Outbound out # ops'"
  note rep = filter_run_new(1)[OF assms(1,2)]
  have "near (reply_tuple q) 0 (sf_flows (?S (ops @ [Update_Outbound out])))"
    using assms(4,5) add_near[of "reply_tuple q"]
    by (simp add: spec_run_append info_of_def spec_outbound_def reply_tuple_def)
  then have "near (reply_tuple q) (0 + length ops') (sf_flows (fst (spec_run env ops' (?S (ops @ [Update_Outbound out])))))"
    using assms(3) by (intro near_run) simp_all
  moreover have "fst (spec_run env ops' (?S (ops @ [Update_Outbound out]))) = ?S ?ops"
    using spec_run_append[of env "ops @ [Update_Outbound out]" ops'] by simp
  ultimately have near: "near (reply_tuple q) (length ops') (sf_flows (?S ?ops))" by simp
  have "is_local (?S ?ops) p"
    using rep_local_contains[OF rep, of "pi_version p = 4" "pi_dst p"] assms(10) by (simp add: is_local_def)
  moreover have "pre p = Pre_Continue"
    using assms(5,7-9) by (auto simp: pre_def tracked_def reply_of_def UDP_def SCTP_def UNKNOWN_def FRAGMENT_def)
  ultimately have "spec_verdict (?S ?ops) p = Accept" using reply_verdict[OF near assms(5,7)] by blast
  then show ?thesis using check_in_verdict[OF rep assms(6)] by metis
qed

lemma pre_continueD: "pre p = Pre_Continue \<Longrightarrow> \<not> is_multicast (pi_dst p)" "pre p = Pre_Continue \<Longrightarrow> \<not> is_link_local_unicast (pi_dst p)"
  by (simp_all add: pre_def split: if_splits)

theorem return_traffic_is_admitted_witness:
  "\<exists>f0 f f' :: nat pfilter. \<exists>outs. filter_new trivial_env [] [own_ip] [] = Some (Inr f0) \<and>
     filter_run trivial_env shielded_ops f0 = Some (f, outs) \<and> check_in udp_in f = Some (f', Accept)"
proof -
  obtain f f' f'' :: "nat pfilter" and outs where r: "filter_new trivial_env [] [own_ip] [] = Some (Inr f)"
    "filter_run trivial_env shielded_ops f = Some (f', outs)" "local_contains (f_local4 f') (pi_dst udp_in_info) = Some True"
    using shielded_run .
  have "\<exists>f''. check_in udp_in f' = Some (f'', Accept)"
    by (rule return_traffic_is_admitted[OF r(1) r(2)[unfolded shielded_ops_def] _ udp_parse(1) udp_in_facts(2)
        udp_parse(2) udp_in_facts(3) pre_continueD[OF udp_in_facts(1)]]) (use r(3) in \<open>simp_all add: udp_in_info_def\<close>)
  then show ?thesis using r by blast
qed

lemma local_all:
  assumes "list_all prefix_wf ps" "list_all (\<lambda>p. is_ipv4 (a_addr p) = v4) ps"
  shows "\<exists>l. local_new ps = Some l \<and> local_rep v4 l \<and> li_prefixes l = ps"
  using local_new_rep[OF assms] by blast

lemma allow_none_rep:
  obtains f where "allow_none = Some f"
    "filter_rep f \<lparr>sf_rules = [], sf_local = (\<lambda>_. False), sf_flows = [], sf_shields = False, sf_caps = [],
       sf_counter = None, sf_hash = sum_default\<rparr>"
proof -
  obtain l4 where l4: "local_new [] = Some l4" "local_rep True l4" "li_prefixes l4 = []" using local_all[of "[]" True] by auto
  then have "local_rep False l4" by (simp add: local_rep_def)
  with l4 show ?thesis
    by (intro that[of "\<lparr>f_matches4 = [], f_matches6 = [], f_local4 = l4, f_local6 = l4, f_state = flow_state_new,
        f_shields_up = False, f_cap_holders = [], f_cap4 = [], f_cap6 = [], f_connection_counter = None,
        f_input_hash = sum_default\<rparr>"])
      (simp_all add: allow_none_def filter_rep_def flows_rep_new family_rules_def in_prefixes_def)
qed

lemma allow_all_compiles: "list_all rule_compiles filter_allow_all"
  by (simp add: filter_allow_all_def rule_compiles_def parse_ip_set_def)

lemma allow_all_rep:
  obtains f :: "'c pfilter" where "allow_all env = Some f"
    "filter_rep f \<lparr>sf_rules = filter_allow_all, sf_local = (\<lambda>_. True), sf_flows = [], sf_shields = False, sf_caps = [],
       sf_counter = None, sf_hash = sum_default\<rparr>"
proof -
  obtain f :: "'c pfilter" where f: "filter_new env filter_allow_all [unspecified4, unspecified6] [] = Some (Inr f)"
    "filter_rep f (spec_new env filter_allow_all [unspecified4, unspecified6] [])" using filter_new_rep[OF allow_all_compiles] .
  let ?p4 = "Art_Prefix unspecified4 0" and ?p6 = "Art_Prefix unspecified6 0"
  have p: "prefix_new unspecified4 0 = Some ?p4" "prefix_new unspecified6 0 = Some ?p6" "prefix_wf ?p4" "prefix_wf ?p6"
    by (simp_all add: prefix_new_def prefix_wf_def)
  have fam: "is_ipv4 unspecified4" "\<not> is_ipv4 unspecified6" by (simp_all add: unspecified4_def unspecified6_def)
  obtain l4 where l4: "local_new [?p4] = Some l4" "local_rep True l4" "li_prefixes l4 = [?p4]"
    using local_all[of "[?p4]" True] p fam by auto
  obtain l6 where l6: "local_new [?p6] = Some l6" "local_rep False l6" "li_prefixes l6 = [?p6]"
    using local_all[of "[?p6]" False] p fam by auto
  have all: "in_prefixes [?p4] ip \<or> in_prefixes [?p6] ip" for ip
    using p fam by (simp add: in_prefixes_def art_contains_pbits pbits_def)
  let ?f = "f\<lparr>f_local4 := l4, f_local6 := l6, f_input_hash := sum_default\<rparr>"
  have "allow_all env = Some ?f" by (simp add: allow_all_def f(1) p l4 l6)
  moreover have "filter_rep ?f \<lparr>sf_rules = filter_allow_all, sf_local = (\<lambda>_. True), sf_flows = [], sf_shields = False,
      sf_caps = [], sf_counter = None, sf_hash = sum_default\<rparr>"
    using f(2) l4 l6 all unfolding filter_rep_def spec_new_def in_prefixes_append by simp
  ultimately show ?thesis by (rule that)
qed

lemma check_in_accepts:
  assumes "filter_rep f S"
  shows "\<exists>f' r. check_in buf f = Some (f', r) \<and>
    (r = Accept \<longleftrightarrow> buf = [] \<or> (\<exists>q. parse_packet buf = Some (Some q) \<and> spec_verdict S q = Accept))"
proof (cases rule: info_of_cases[of buf])
  case 1
  then show ?thesis by (auto simp: check_in_def)
next
  case (2 q)
  obtain f' where "check_in buf f = Some (f', spec_verdict S q)" using check_in_verdict[OF assms 2(1)] .
  moreover have "buf \<noteq> []" using 2(1) by (auto simp: parse_packet_def)
  ultimately show ?thesis using 2(1) by auto
qed

text \<open>C26. The filter without rules accepts an inbound buffer exactly when it is empty or a fragment whose
destination is neither a multicast nor a link-local address.\<close>

theorem allow_none_admits_fragments:
  "\<exists>f :: 'c pfilter. allow_none = Some f \<and> (\<forall>buf. \<exists>f' r. check_in buf f = Some (f', r) \<and>
     (r = Accept \<longleftrightarrow> buf = [] \<or> (\<exists>q. parse_packet buf = Some (Some q) \<and> pi_proto q = FRAGMENT \<and>
        \<not> is_multicast (pi_dst q) \<and> \<not> is_link_local_unicast (pi_dst q))))"
proof -
  let ?S = "\<lparr>sf_rules = [], sf_local = (\<lambda>_. False), sf_flows = [], sf_shields = False, sf_caps = [],
       sf_counter = None, sf_hash = sum_default\<rparr> :: 'c spec_filter"
  obtain f :: "'c pfilter" where f: "allow_none = Some f" "filter_rep f ?S" by (rule allow_none_rep)
  have "spec_verdict ?S q = Accept \<longleftrightarrow> pi_proto q = FRAGMENT \<and> \<not> is_multicast (pi_dst q) \<and> \<not> is_link_local_unicast (pi_dst q)" for q
    by (auto simp: spec_verdict_def is_local_def pre_def FRAGMENT_def UNKNOWN_def)
  with check_in_accepts[OF f(2)] f(1) show ?thesis by (intro exI[of _ f]) simp
qed

text \<open>C27. The filter that is meant to accept everything accepts an inbound buffer exactly when it is empty
or a TCP, UDP, ICMP, ICMPv6 or TSMP packet or a fragment whose destination is neither a multicast
nor a link-local address; SCTP and every other protocol is dropped.\<close>

theorem allow_all_admits_default_protocols:
  "\<exists>f :: 'c pfilter. allow_all env = Some f \<and> (\<forall>buf. \<exists>f' r. check_in buf f = Some (f', r) \<and>
     (r = Accept \<longleftrightarrow> buf = [] \<or> (\<exists>q. parse_packet buf = Some (Some q) \<and>
        pi_proto q \<in> {TCP, UDP, ICMP_V4, ICMP_V6, TSMP, FRAGMENT} \<and>
        \<not> is_multicast (pi_dst q) \<and> \<not> is_link_local_unicast (pi_dst q))))"
proof -
  let ?S = "\<lparr>sf_rules = filter_allow_all, sf_local = (\<lambda>_. True), sf_flows = [], sf_shields = False, sf_caps = [],
       sf_counter = None, sf_hash = sum_default\<rparr> :: 'c spec_filter"
  obtain f :: "'c pfilter" where f: "allow_all env = Some f" "filter_rep f ?S" by (rule allow_all_rep)
  have star: "src_denotes h ''*'' ip" "denotes ''*'' ip" for h ip by (simp_all add: src_denotes_def denotes_def)
  have port: "p \<le> 65535" for p :: u16 using unat_less_2p[of p] by (simp add: word_le_nat_alt)
  have opens: "may_open [] filter_allow_all q \<longleftrightarrow> pi_proto q \<in> {TCP, UDP, ICMP_V4, ICMP_V6}" for q
    by (auto simp: may_open_def filter_allow_all_def rule_reaches_icmp_def rule_allows_def rule_allows_all_ports_def star
      rule_protos_def DEFAULT_PROTOS_def icmp_of_def tracked_def tc_port_contains_def tc_port_range_all_def port
      TCP_def UDP_def ICMP_V4_def ICMP_V6_def SCTP_def)
  have "spec_verdict ?S q = Accept \<longleftrightarrow> pi_proto q \<in> {TCP, UDP, ICMP_V4, ICMP_V6, TSMP, FRAGMENT} \<and>
      \<not> is_multicast (pi_dst q) \<and> \<not> is_link_local_unicast (pi_dst q)"
    if "is_ipv4 (pi_dst q) = (pi_version q = 4)" for q
    using that opens[of q]
    by (auto simp: spec_verdict_def is_local_def pre_def established_def icmp_of_def tracked_def
      TCP_def UDP_def ICMP_V4_def ICMP_V6_def SCTP_def TSMP_def FRAGMENT_def UNKNOWN_def)
  then have "parse_packet buf = Some (Some q) \<and> spec_verdict ?S q = Accept \<longleftrightarrow> parse_packet buf = Some (Some q) \<and>
      pi_proto q \<in> {TCP, UDP, ICMP_V4, ICMP_V6, TSMP, FRAGMENT} \<and>
      \<not> is_multicast (pi_dst q) \<and> \<not> is_link_local_unicast (pi_dst q)" for buf q
    using parse_packet_family(2)[of buf q] by blast
  with check_in_accepts[OF f(2)] f(1) show ?thesis by (intro exI[of _ f]) simp
qed

text \<open>C17. For a source and a destination, a filter reports exactly the capabilities that a grant of its
rules gives: the named ones, and for each the values of the granting entries.\<close>

theorem caps_with_values_reports_grants:
  assumes "filter_new env rules local_ips caps = Some (Inr f)"
  shows "map_option set (caps_with_values f src dst c) =
    (if \<exists>vs. granted rules src dst c vs then Some {v. \<exists>vs. granted rules src dst c vs \<and> v \<in> set vs} else None)"
proof -
  let ?cms = "cap_entries src dst c (if is_ipv4 src then f_cap4 f else f_cap6 f)"
  have g: "granted rules src dst c vs \<longleftrightarrow> (\<exists>cm \<in> set ?cms. cm_values cm = vs)" for vs
    using cap_entries_granted[OF assms refl] by simp
  have "(\<exists>vs. granted rules src dst c vs) \<longleftrightarrow> ?cms \<noteq> []" unfolding g by (cases ?cms) auto
  moreover have "{v. \<exists>vs. granted rules src dst c vs \<and> v \<in> set vs} = set (concat (map cm_values ?cms))" unfolding g by auto
  moreover have "caps_with_values f src dst c = (if ?cms = [] then None else Some (concat (map cm_values ?cms)))"
    unfolding caps_with_values_def caps_loop_eq by simp
  ultimately show ?thesis by simp
qed

definition ssh_grant :: "filter_rule list" where
  "ssh_grant = [\<lparr>SrcIPs = [''*''], SrcBits = [], DstPorts = [], IPProto = [],
     CapGrant = [\<lparr>Dsts = [''*''], Caps = [''web''], CapMap = [(''ssh'', [''root''])]\<rparr>]\<rparr>]"

theorem caps_with_values_reports_grants_witness:
  "\<exists>f :: nat pfilter. filter_new trivial_env ssh_grant [own_ip] [] = Some (Inr f) \<and>
     map_option set (caps_with_values f own_ip own_ip ''ssh'') = Some {''root''} \<and>
     caps_with_values f own_ip own_ip ''ftp'' = None"
proof -
  have "list_all rule_compiles ssh_grant" by (simp add: ssh_grant_def rule_compiles_def parse_ip_set_def)
  then obtain f :: "nat pfilter" where f: "filter_new trivial_env ssh_grant [own_ip] [] = Some (Inr f)"
    using filter_new_rep by metis
  have "src_denotes h ''*'' ip" for h ip by (simp add: src_denotes_def denotes_def)
  then have "granted ssh_grant own_ip own_ip c vs \<longleftrightarrow> c = ''web'' \<and> vs = [] \<or> c = ''ssh'' \<and> vs = [''root'']" for c vs
    by (auto simp: granted_def ssh_grant_def grants_def)
  with caps_with_values_reports_grants[OF f, of own_ip own_ip "''ssh''"]
    caps_with_values_reports_grants[OF f, of own_ip own_ip "''ftp''"] f show ?thesis by auto
qed

text \<open>C20. Provided the digest has 32 bytes and does not collide on the two streams at hand, the hash of the
inputs of a filter is the same exactly when the views of the inputs are: the rules and the local
addresses as they are, except that a \<open>CapMap\<close> and the map of capability holders count by their length and
the XOR of the digests of their entries.  So two inputs that differ only inside such a map may share a
hash, and where the one has no entries in these maps the hash is the same exactly for equal inputs.\<close>

theorem filter_inputs_hash_detects_changes:
  assumes "\<And>bs. length (he_sha env bs) = 32" "inputs_ok (rules, ips, caps)" "inputs_ok (rules', ips', caps')"
    and "inj_on (he_sha env) {inputs_stream env (rules, ips, caps), inputs_stream env (rules', ips', caps')}"
  shows "(filter_inputs_hash env rules ips caps = filter_inputs_hash env rules' ips' caps' \<longleftrightarrow>
      inputs_view (he_sha env) (rules, ips, caps) = inputs_view (he_sha env) (rules', ips', caps')) \<and>
    (inputs_plain (rules, ips, caps) \<longrightarrow>
      (filter_inputs_hash env rules ips caps = filter_inputs_hash env rules' ips' caps' \<longleftrightarrow>
       (rules, ips, caps) = (rules', ips', caps')))"
proof -
  have "filter_inputs_hash env rules ips caps = filter_inputs_hash env rules' ips' caps' \<longleftrightarrow>
      inputs_stream env (rules, ips, caps) = inputs_stream env (rules', ips', caps')"
    unfolding filter_inputs_hash_eq[OF assms(1)] by (rule inj_on_eq_iff[OF assms(4)]) simp_all
  also have "\<dots> \<longleftrightarrow> enc_filter_inputs (he_sha env) (rules, ips, caps) = enc_filter_inputs (he_sha env) (rules', ips', caps')"
    by (simp add: inputs_stream_def)
  also have "\<dots> \<longleftrightarrow> inputs_view (he_sha env) (rules, ips, caps) = inputs_view (he_sha env) (rules', ips', caps')"
    by (rule decodable_eq[OF decodable_filter_inputs[OF assms(1)] assms(2,3)])
  finally show ?thesis using inputs_view_plain[of "(rules, ips, caps)" "he_sha env" "(rules', ips', caps')"] by blast
qed

theorem filter_inputs_hash_detects_changes_witness:
  "filter_inputs_hash trivial_env [] [V4 1] [] \<noteq> filter_inputs_hash trivial_env [] [V4 2] []"
proof -
  have "inputs_plain ([], [V4 1], [])" by (simp add: inputs_plain_def)
  moreover have "he_sha trivial_env (inputs_stream trivial_env ([], [V4 1], [])) \<noteq>
      he_sha trivial_env (inputs_stream trivial_env ([], [V4 2], []))" by code_simp
  ultimately show ?thesis
    using filter_inputs_hash_detects_changes[of trivial_env "[]" "[V4 1]" "[]" "[]" "[V4 2]" "[]"]
    by (auto simp: inj_on_def inputs_ok_def slice_ok_def trivial_env_def)
qed

end
