(* ===== verification/Key.thy ===== *)
theory Key
  imports Std_Net
begin

text \<open>
  Node, machine, disco and network-lock keys (\<open>crates/key/src\<close>).  The hex, NaCl box and Ed25519
  libraries are parameters: records of functions, with what the code relies on as predicates
  (\<open>hex_ok\<close>, \<open>box_ok\<close>).  Bytes drawn from the operating system's generator are an argument.  A private
  key whose public part is taken while it is zero is a panic, the result \<open>None\<close>.
\<close>

subsection \<open>Libraries\<close>

record hex_lib =
  hx_encode :: "bytes \<Rightarrow> string"
  hx_decode :: "string \<Rightarrow> bytes option"

record 's box_lib =
  bx_derive :: "bytes \<Rightarrow> bytes"
  bx_new :: "bytes \<Rightarrow> bytes \<Rightarrow> 's"
  bx_encrypt :: "'s \<Rightarrow> bytes \<Rightarrow> bytes \<Rightarrow> bytes option"
  bx_decrypt :: "'s \<Rightarrow> bytes \<Rightarrow> bytes \<Rightarrow> bytes option"

record sig_lib =
  sg_verifying_key :: "bytes \<Rightarrow> bytes"
  sg_sign :: "bytes \<Rightarrow> bytes \<Rightarrow> bytes"

definition hex_ok :: "hex_lib \<Rightarrow> bool" where
  "hex_ok hx \<longleftrightarrow> (\<forall>bs. length (hx_encode hx bs) = 2 * length bs \<and> hx_decode hx (hx_encode hx bs) = Some bs)"

text \<open>
  What a box guarantees: the key pair of the sender and that of the receiver give the same cipher, and
  decryption undoes encryption.
\<close>

definition box_ok :: "'s box_lib \<Rightarrow> bool" where
  "box_ok bx \<longleftrightarrow>
     (\<forall>a b nonce m c. bx_encrypt bx (bx_new bx (bx_derive bx b) a) nonce m = Some c \<longrightarrow>
        bx_decrypt bx (bx_new bx (bx_derive bx a) b) nonce c = Some m)"

subsection \<open>Shared helpers\<close>

datatype key_error = Encrypt | InvalidHex | MissingPrefix string | InvalidLength | ZeroKey

definition KEY_LEN :: nat where "KEY_LEN = 32"

definition NONCE_LEN :: nat where "NONCE_LEN = 24"

definition NODE_PUB_PREFIX :: string where "NODE_PUB_PREFIX = ''nodekey:''"

definition MACHINE_PUB_PREFIX :: string where "MACHINE_PUB_PREFIX = ''mkey:''"

definition DISCO_PUB_PREFIX :: string where "DISCO_PUB_PREFIX = ''discokey:''"

definition PRIV_PREFIX :: string where "PRIV_PREFIX = ''privkey:''"

definition NL_PUB_PREFIX :: string where "NL_PUB_PREFIX = ''nlpub:''"

definition NL_PUB_PREFIX_CLI :: string where "NL_PUB_PREFIX_CLI = ''tlpub:''"

definition clamp25519 :: "bytes \<Rightarrow> bytes" where
  "clamp25519 b =
     (let b = b[0 := b ! 0 AND 0xf8]
      in b[31 := (b ! 31 AND 0x7f) OR 0x40])"

definition append_hex_key :: "hex_lib \<Rightarrow> string \<Rightarrow> bytes \<Rightarrow> string" where
  "append_hex_key hx pfx bs = pfx @ hx_encode hx bs"

definition parse_typed_hex :: "hex_lib \<Rightarrow> string \<Rightarrow> string \<Rightarrow> nat \<Rightarrow> key_error + bytes" where
  "parse_typed_hex hx input pfx out_len =
     (case strip_prefix pfx input of
        None \<Rightarrow> Inl (MissingPrefix pfx)
      | Some rest \<Rightarrow>
          if length rest \<noteq> out_len * 2 then Inl InvalidLength
          else case hx_decode hx rest of None \<Rightarrow> Inl InvalidHex | Some k \<Rightarrow> Inr k)"

fun ct_eq_loop :: "bytes \<Rightarrow> bytes \<Rightarrow> u8 \<Rightarrow> u8" where
  "ct_eq_loop (x # xs) (y # ys) diff = ct_eq_loop xs ys (diff OR (x XOR y))"
| "ct_eq_loop _ _ diff = diff"

definition ct_eq :: "bytes \<Rightarrow> bytes \<Rightarrow> bool" where
  "ct_eq a b = (if length a \<noteq> length b then False else ct_eq_loop a b 0 = 0)"

definition redacted :: "string \<Rightarrow> string" where
  "redacted name = name @ ''(<redacted>)''"

definition all_zero :: "bytes \<Rightarrow> bool" where
  "all_zero k = list_all (\<lambda>b. b = 0) k"

subsection \<open>Boxes\<close>

definition box_seal :: "'s box_lib \<Rightarrow> bytes \<Rightarrow> bytes \<Rightarrow> bytes \<Rightarrow> bytes \<Rightarrow> key_error + bytes" where
  "box_seal bx nonce my_sk peer_pk cleartext =
     (let sb = bx_new bx peer_pk my_sk
      in case bx_encrypt bx sb nonce cleartext of
           None \<Rightarrow> Inl Encrypt
         | Some ct \<Rightarrow> Inr (nonce @ ct))"

definition box_open :: "'s box_lib \<Rightarrow> bytes \<Rightarrow> bytes \<Rightarrow> bytes \<Rightarrow> bytes option" where
  "box_open bx my_sk peer_pk ciphertext =
     (if length ciphertext < NONCE_LEN then None
      else let sb = bx_new bx peer_pk my_sk
           in bx_decrypt bx sb (take NONCE_LEN ciphertext) (drop NONCE_LEN ciphertext))"

definition derive_public :: "'s box_lib \<Rightarrow> bytes \<Rightarrow> bytes" where
  "derive_public bx sk = bx_derive bx sk"

subsection \<open>Node keys\<close>

datatype node_private = NodePrivate (node_private_raw32: bytes)

datatype node_public = NodePublic (node_public_raw32: bytes)

definition node_private_generate :: "bytes \<Rightarrow> node_private" where
  "node_private_generate rnd = NodePrivate (clamp25519 rnd)"

definition node_private_is_zero :: "node_private \<Rightarrow> bool" where
  "node_private_is_zero p = all_zero (node_private_raw32 p)"

definition node_public_is_zero :: "node_public \<Rightarrow> bool" where
  "node_public_is_zero p = all_zero (node_public_raw32 p)"

definition node_private_equal :: "node_private \<Rightarrow> node_private \<Rightarrow> bool" where
  "node_private_equal p q = ct_eq (node_private_raw32 p) (node_private_raw32 q)"

definition node_public_of :: "'s box_lib \<Rightarrow> node_private \<Rightarrow> node_public option" where
  "node_public_of bx p =
     (if node_private_is_zero p then None else Some (NodePublic (derive_public bx (node_private_raw32 p))))"

definition node_private_marshal_text :: "hex_lib \<Rightarrow> node_private \<Rightarrow> string" where
  "node_private_marshal_text hx p = append_hex_key hx PRIV_PREFIX (node_private_raw32 p)"

definition node_private_from_str :: "hex_lib \<Rightarrow> string \<Rightarrow> key_error + node_private" where
  "node_private_from_str hx s = map_sum (\<lambda>e. e) NodePrivate (parse_typed_hex hx s PRIV_PREFIX KEY_LEN)"

definition node_public_marshal_text :: "hex_lib \<Rightarrow> node_public \<Rightarrow> string" where
  "node_public_marshal_text hx p = append_hex_key hx NODE_PUB_PREFIX (node_public_raw32 p)"

definition node_public_from_str :: "hex_lib \<Rightarrow> string \<Rightarrow> key_error + node_public" where
  "node_public_from_str hx s = map_sum (\<lambda>e. e) NodePublic (parse_typed_hex hx s NODE_PUB_PREFIX KEY_LEN)"

definition node_private_display :: "node_private \<Rightarrow> string" where
  "node_private_display p = redacted ''NodePrivate''"

definition node_public_default :: node_public where
  "node_public_default = NodePublic (replicate KEY_LEN 0)"

definition node_seal_to :: "'s box_lib \<Rightarrow> bytes \<Rightarrow> node_private \<Rightarrow> node_public \<Rightarrow> bytes \<Rightarrow> key_error + bytes" where
  "node_seal_to bx nonce p peer cleartext =
     (if node_private_is_zero p \<or> node_public_is_zero peer then Inl ZeroKey
      else box_seal bx nonce (node_private_raw32 p) (node_public_raw32 peer) cleartext)"

definition node_open_from :: "'s box_lib \<Rightarrow> node_private \<Rightarrow> node_public \<Rightarrow> bytes \<Rightarrow> bytes option" where
  "node_open_from bx p peer ciphertext =
     (if node_private_is_zero p \<or> node_public_is_zero peer then None
      else box_open bx (node_private_raw32 p) (node_public_raw32 peer) ciphertext)"

subsection \<open>Machine keys\<close>

datatype machine_private = MachinePrivate (machine_private_raw32: bytes)

datatype machine_public = MachinePublic (machine_public_raw32: bytes)

definition machine_private_generate :: "bytes \<Rightarrow> machine_private" where
  "machine_private_generate rnd = MachinePrivate (clamp25519 rnd)"

definition machine_private_is_zero :: "machine_private \<Rightarrow> bool" where
  "machine_private_is_zero p = all_zero (machine_private_raw32 p)"

definition machine_public_is_zero :: "machine_public \<Rightarrow> bool" where
  "machine_public_is_zero p = all_zero (machine_public_raw32 p)"

definition machine_private_equal :: "machine_private \<Rightarrow> machine_private \<Rightarrow> bool" where
  "machine_private_equal p q = ct_eq (machine_private_raw32 p) (machine_private_raw32 q)"

definition machine_public_of :: "'s box_lib \<Rightarrow> machine_private \<Rightarrow> machine_public option" where
  "machine_public_of bx p =
     (if machine_private_is_zero p then None else Some (MachinePublic (derive_public bx (machine_private_raw32 p))))"

definition machine_private_marshal_text :: "hex_lib \<Rightarrow> machine_private \<Rightarrow> string" where
  "machine_private_marshal_text hx p = append_hex_key hx PRIV_PREFIX (machine_private_raw32 p)"

definition machine_private_from_str :: "hex_lib \<Rightarrow> string \<Rightarrow> key_error + machine_private" where
  "machine_private_from_str hx s = map_sum (\<lambda>e. e) MachinePrivate (parse_typed_hex hx s PRIV_PREFIX KEY_LEN)"

definition machine_public_marshal_text :: "hex_lib \<Rightarrow> machine_public \<Rightarrow> string" where
  "machine_public_marshal_text hx p = append_hex_key hx MACHINE_PUB_PREFIX (machine_public_raw32 p)"

definition machine_public_from_str :: "hex_lib \<Rightarrow> string \<Rightarrow> key_error + machine_public" where
  "machine_public_from_str hx s = map_sum (\<lambda>e. e) MachinePublic (parse_typed_hex hx s MACHINE_PUB_PREFIX KEY_LEN)"

definition machine_private_display :: "machine_private \<Rightarrow> string" where
  "machine_private_display p = redacted ''MachinePrivate''"

definition machine_public_default :: machine_public where
  "machine_public_default = MachinePublic (replicate KEY_LEN 0)"

definition machine_seal_to :: "'s box_lib \<Rightarrow> bytes \<Rightarrow> machine_private \<Rightarrow> machine_public \<Rightarrow> bytes \<Rightarrow> key_error + bytes" where
  "machine_seal_to bx nonce p peer cleartext =
     (if machine_private_is_zero p \<or> machine_public_is_zero peer then Inl ZeroKey
      else box_seal bx nonce (machine_private_raw32 p) (machine_public_raw32 peer) cleartext)"

definition machine_open_from :: "'s box_lib \<Rightarrow> machine_private \<Rightarrow> machine_public \<Rightarrow> bytes \<Rightarrow> bytes option" where
  "machine_open_from bx p peer ciphertext =
     (if machine_private_is_zero p \<or> machine_public_is_zero peer then None
      else box_open bx (machine_private_raw32 p) (machine_public_raw32 peer) ciphertext)"

text \<open>A precomputed key is the cipher, or \<open>None\<close> for the zero key.\<close>

record 's machine_shared =
  ms_salsa :: "'s option"

definition machine_shared_zero :: "'s machine_shared" where
  "machine_shared_zero = \<lparr>ms_salsa = None\<rparr>"

definition machine_shared_is_zero :: "'s machine_shared \<Rightarrow> bool" where
  "machine_shared_is_zero s \<longleftrightarrow> ms_salsa s = None"

definition machine_shared_key :: "'s box_lib \<Rightarrow> machine_private \<Rightarrow> machine_public \<Rightarrow> 's machine_shared" where
  "machine_shared_key bx p peer =
     (if machine_private_is_zero p \<or> machine_public_is_zero peer then machine_shared_zero
      else \<lparr>ms_salsa = Some (bx_new bx (machine_public_raw32 peer) (machine_private_raw32 p))\<rparr>)"

definition machine_shared_seal :: "'s box_lib \<Rightarrow> bytes \<Rightarrow> 's machine_shared \<Rightarrow> bytes \<Rightarrow> key_error + bytes" where
  "machine_shared_seal bx nonce s cleartext =
     (case ms_salsa s of
        None \<Rightarrow> Inl ZeroKey
      | Some salsa \<Rightarrow>
          (case bx_encrypt bx salsa nonce cleartext of None \<Rightarrow> Inl Encrypt | Some ct \<Rightarrow> Inr (nonce @ ct)))"

definition machine_shared_open :: "'s box_lib \<Rightarrow> 's machine_shared \<Rightarrow> bytes \<Rightarrow> bytes option" where
  "machine_shared_open bx s ciphertext =
     (case ms_salsa s of
        None \<Rightarrow> None
      | Some salsa \<Rightarrow>
          if length ciphertext < NONCE_LEN then None
          else bx_decrypt bx salsa (take NONCE_LEN ciphertext) (drop NONCE_LEN ciphertext))"

subsection \<open>Disco keys\<close>

datatype disco_private = DiscoPrivate (disco_private_raw32: bytes)

datatype disco_public = DiscoPublic (disco_public_raw32: bytes)

definition disco_private_generate :: "bytes \<Rightarrow> disco_private" where
  "disco_private_generate rnd = DiscoPrivate (clamp25519 rnd)"

definition disco_private_is_zero :: "disco_private \<Rightarrow> bool" where
  "disco_private_is_zero p = all_zero (disco_private_raw32 p)"

definition disco_public_is_zero :: "disco_public \<Rightarrow> bool" where
  "disco_public_is_zero p = all_zero (disco_public_raw32 p)"

definition disco_private_equal :: "disco_private \<Rightarrow> disco_private \<Rightarrow> bool" where
  "disco_private_equal p q = ct_eq (disco_private_raw32 p) (disco_private_raw32 q)"

definition disco_public_of :: "'s box_lib \<Rightarrow> disco_private \<Rightarrow> disco_public option" where
  "disco_public_of bx p =
     (if disco_private_is_zero p then None else Some (DiscoPublic (derive_public bx (disco_private_raw32 p))))"

definition disco_private_marshal_text :: "hex_lib \<Rightarrow> disco_private \<Rightarrow> string" where
  "disco_private_marshal_text hx p = append_hex_key hx PRIV_PREFIX (disco_private_raw32 p)"

definition disco_private_from_str :: "hex_lib \<Rightarrow> string \<Rightarrow> key_error + disco_private" where
  "disco_private_from_str hx s = map_sum (\<lambda>e. e) DiscoPrivate (parse_typed_hex hx s PRIV_PREFIX KEY_LEN)"

definition disco_public_marshal_text :: "hex_lib \<Rightarrow> disco_public \<Rightarrow> string" where
  "disco_public_marshal_text hx p = append_hex_key hx DISCO_PUB_PREFIX (disco_public_raw32 p)"

definition disco_public_from_str :: "hex_lib \<Rightarrow> string \<Rightarrow> key_error + disco_public" where
  "disco_public_from_str hx s = map_sum (\<lambda>e. e) DiscoPublic (parse_typed_hex hx s DISCO_PUB_PREFIX KEY_LEN)"

definition disco_short_string :: "hex_lib \<Rightarrow> disco_public \<Rightarrow> string" where
  "disco_short_string hx p = (if disco_public_is_zero p then [] else ''d:'' @ hx_encode hx (take 8 (disco_public_raw32 p)))"

definition disco_private_display :: "disco_private \<Rightarrow> string" where
  "disco_private_display p = redacted ''DiscoPrivate''"

definition disco_public_default :: disco_public where
  "disco_public_default = DiscoPublic (replicate KEY_LEN 0)"

record 's disco_shared =
  ds_salsa :: "'s option"

definition disco_shared_zero :: "'s disco_shared" where
  "disco_shared_zero = \<lparr>ds_salsa = None\<rparr>"

definition disco_shared_is_zero :: "'s disco_shared \<Rightarrow> bool" where
  "disco_shared_is_zero s \<longleftrightarrow> ds_salsa s = None"

definition disco_shared_equal :: "'s disco_shared \<Rightarrow> 's disco_shared \<Rightarrow> bool" where
  "disco_shared_equal s t \<longleftrightarrow> (ds_salsa s = None) = (ds_salsa t = None)"

definition disco_shared_key :: "'s box_lib \<Rightarrow> disco_private \<Rightarrow> disco_public \<Rightarrow> 's disco_shared" where
  "disco_shared_key bx p peer =
     (if disco_private_is_zero p \<or> disco_public_is_zero peer then disco_shared_zero
      else \<lparr>ds_salsa = Some (bx_new bx (disco_public_raw32 peer) (disco_private_raw32 p))\<rparr>)"

definition disco_shared_seal :: "'s box_lib \<Rightarrow> bytes \<Rightarrow> 's disco_shared \<Rightarrow> bytes \<Rightarrow> key_error + bytes" where
  "disco_shared_seal bx nonce s cleartext =
     (case ds_salsa s of
        None \<Rightarrow> Inl ZeroKey
      | Some salsa \<Rightarrow>
          (case bx_encrypt bx salsa nonce cleartext of None \<Rightarrow> Inl Encrypt | Some ct \<Rightarrow> Inr (nonce @ ct)))"

definition disco_shared_open :: "'s box_lib \<Rightarrow> 's disco_shared \<Rightarrow> bytes \<Rightarrow> bytes option" where
  "disco_shared_open bx s ciphertext =
     (case ds_salsa s of
        None \<Rightarrow> None
      | Some salsa \<Rightarrow>
          if length ciphertext < NONCE_LEN then None
          else bx_decrypt bx salsa (take NONCE_LEN ciphertext) (drop NONCE_LEN ciphertext))"

subsection \<open>Network-lock keys\<close>

datatype nl_private = NLPrivate (nl_private_raw32: bytes)

datatype nl_public = NLPublic (nl_public_raw32: bytes)

definition nl_private_generate :: "bytes \<Rightarrow> nl_private" where
  "nl_private_generate rnd = NLPrivate rnd"

definition nl_private_is_zero :: "nl_private \<Rightarrow> bool" where
  "nl_private_is_zero p = all_zero (nl_private_raw32 p)"

definition nl_public_is_zero :: "nl_public \<Rightarrow> bool" where
  "nl_public_is_zero p = all_zero (nl_public_raw32 p)"

definition nl_public_of :: "sig_lib \<Rightarrow> nl_private \<Rightarrow> nl_public option" where
  "nl_public_of sg p =
     (if nl_private_is_zero p then None else Some (NLPublic (sg_verifying_key sg (nl_private_raw32 p))))"

definition nl_sign :: "sig_lib \<Rightarrow> nl_private \<Rightarrow> bytes \<Rightarrow> key_error + bytes" where
  "nl_sign sg p digest = (if nl_private_is_zero p then Inl ZeroKey else Inr (sg_sign sg (nl_private_raw32 p) digest))"

definition nl_private_marshal_text :: "hex_lib \<Rightarrow> nl_private \<Rightarrow> string" where
  "nl_private_marshal_text hx p = append_hex_key hx PRIV_PREFIX (nl_private_raw32 p)"

definition nl_private_from_str :: "hex_lib \<Rightarrow> string \<Rightarrow> key_error + nl_private" where
  "nl_private_from_str hx s = map_sum (\<lambda>e. e) NLPrivate (parse_typed_hex hx s PRIV_PREFIX KEY_LEN)"

definition nl_private_default :: nl_private where
  "nl_private_default = NLPrivate (replicate KEY_LEN 0)"

definition nl_public_equal :: "nl_public \<Rightarrow> nl_public \<Rightarrow> bool" where
  "nl_public_equal p q = ct_eq (nl_public_raw32 p) (nl_public_raw32 q)"

definition nl_public_marshal_text :: "hex_lib \<Rightarrow> nl_public \<Rightarrow> string" where
  "nl_public_marshal_text hx p = append_hex_key hx NL_PUB_PREFIX (nl_public_raw32 p)"

definition nl_public_cli_string :: "hex_lib \<Rightarrow> nl_public \<Rightarrow> string" where
  "nl_public_cli_string hx p = append_hex_key hx NL_PUB_PREFIX_CLI (nl_public_raw32 p)"

definition nl_public_default :: nl_public where
  "nl_public_default = NLPublic (replicate KEY_LEN 0)"

definition nl_public_from_str :: "hex_lib \<Rightarrow> string \<Rightarrow> key_error + nl_public" where
  "nl_public_from_str hx s =
     (case strip_prefix NL_PUB_PREFIX s of
        Some rest \<Rightarrow>
          if length rest \<noteq> KEY_LEN * 2 then Inl InvalidLength
          else (case hx_decode hx rest of None \<Rightarrow> Inl InvalidHex | Some k \<Rightarrow> Inr (NLPublic k))
      | None \<Rightarrow>
          (case strip_prefix NL_PUB_PREFIX_CLI s of
             Some rest \<Rightarrow>
               if length rest \<noteq> KEY_LEN * 2 then Inl InvalidLength
               else (case hx_decode hx rest of None \<Rightarrow> Inl InvalidHex | Some k \<Rightarrow> Inr (NLPublic k))
           | None \<Rightarrow> Inl (MissingPrefix ''nlpub:'')))"

subsection \<open>Lemmas\<close>

lemma strip_prefix_append [simp]: "strip_prefix p (p @ s) = Some s"
  by (simp add: strip_prefix_def)

lemma or_xor_zero_iff: "(d :: u8) OR (x XOR y) = 0 \<longleftrightarrow> d = 0 \<and> x = y"
proof -
  have "a OR b = 0 \<longleftrightarrow> a = 0 \<and> b = 0" for a b :: u8 by (auto simp: bit_eq_iff bit_simps)
  moreover have "x XOR y = 0 \<longleftrightarrow> x = y" by (auto simp: bit_eq_iff bit_simps)
  ultimately show ?thesis by simp
qed

lemma ct_eq_loop_zero: "length a = length b \<Longrightarrow> ct_eq_loop a b d = 0 \<longleftrightarrow> d = 0 \<and> a = b"
  by (induction a b d rule: ct_eq_loop.induct) (auto simp: or_xor_zero_iff)

lemma ct_eq_iff [simp]: "ct_eq a b \<longleftrightarrow> a = b"
  by (auto simp: ct_eq_def ct_eq_loop_zero)

lemma parse_append:
  "hex_ok hx \<Longrightarrow> length k = n \<Longrightarrow> parse_typed_hex hx (append_hex_key hx pfx k) pfx n = Inr k"
  by (simp add: parse_typed_hex_def append_hex_key_def hex_ok_def)

lemma parse_other_prefix:
  "take (length pfx) (pfx' @ s) \<noteq> pfx \<Longrightarrow> parse_typed_hex hx (pfx' @ s) pfx n = Inl (MissingPrefix pfx)"
  by (simp add: parse_typed_hex_def strip_prefix_def)

lemma box_roundtrip:
  assumes "box_ok bx" "length nonce = NONCE_LEN" "box_seal bx nonce a (derive_public bx b) m = Inr c"
  shows "box_open bx b (derive_public bx a) c = Some m"
  using assms by (auto simp: box_seal_def box_open_def box_ok_def derive_public_def split: option.splits)

lemma derive_not_zero: "node_public_of bx p = Some q \<Longrightarrow> \<not> all_zero (node_private_raw32 p) \<and> node_public_raw32 q = derive_public bx (node_private_raw32 p)"
  by (auto simp: node_public_of_def node_private_is_zero_def split: if_splits)

text \<open>The texts of private keys: one prefix serves all four types.\<close>

definition private_texts :: "hex_lib \<Rightarrow> bytes \<Rightarrow> string set" where
  "private_texts hx k = {node_private_marshal_text hx (NodePrivate k), machine_private_marshal_text hx (MachinePrivate k),
     disco_private_marshal_text hx (DiscoPrivate k), nl_private_marshal_text hx (NLPrivate k)}"

lemmas key_text_defs = node_private_from_str_def node_private_marshal_text_def node_public_from_str_def
  node_public_marshal_text_def machine_private_from_str_def machine_private_marshal_text_def
  machine_public_from_str_def machine_public_marshal_text_def disco_private_from_str_def
  disco_private_marshal_text_def disco_public_from_str_def disco_public_marshal_text_def
  nl_private_from_str_def nl_private_marshal_text_def nl_public_marshal_text_def nl_public_cli_string_def

lemmas prefix_defs = NODE_PUB_PREFIX_def MACHINE_PUB_PREFIX_def DISCO_PUB_PREFIX_def PRIV_PREFIX_def
  NL_PUB_PREFIX_def NL_PUB_PREFIX_CLI_def

subsection \<open>Properties\<close>

text \<open>C23. Given a hex library that decodes what it encodes, every key type reads back the text it writes,
network-lock public keys in both spellings.  Every parser of public keys refuses the texts of the other
public key types and of private keys, and every parser of private keys refuses the texts of all public
key types, with the error that names the prefix it expects.\<close>

theorem key_text_roundtrip:
  assumes "hex_ok hx" "length k = KEY_LEN"
  shows "node_private_from_str hx (node_private_marshal_text hx (NodePrivate k)) = Inr (NodePrivate k) \<and>
    node_public_from_str hx (node_public_marshal_text hx (NodePublic k)) = Inr (NodePublic k) \<and>
    machine_private_from_str hx (machine_private_marshal_text hx (MachinePrivate k)) = Inr (MachinePrivate k) \<and>
    machine_public_from_str hx (machine_public_marshal_text hx (MachinePublic k)) = Inr (MachinePublic k) \<and>
    disco_private_from_str hx (disco_private_marshal_text hx (DiscoPrivate k)) = Inr (DiscoPrivate k) \<and>
    disco_public_from_str hx (disco_public_marshal_text hx (DiscoPublic k)) = Inr (DiscoPublic k) \<and>
    nl_private_from_str hx (nl_private_marshal_text hx (NLPrivate k)) = Inr (NLPrivate k) \<and>
    nl_public_from_str hx (nl_public_marshal_text hx (NLPublic k)) = Inr (NLPublic k) \<and>
    nl_public_from_str hx (nl_public_cli_string hx (NLPublic k)) = Inr (NLPublic k) \<and>
    (\<forall>t \<in> {machine_public_marshal_text hx (MachinePublic k), disco_public_marshal_text hx (DiscoPublic k),
         nl_public_marshal_text hx (NLPublic k), nl_public_cli_string hx (NLPublic k)} \<union> private_texts hx k.
       node_public_from_str hx t = Inl (MissingPrefix ''nodekey:'')) \<and>
    (\<forall>t \<in> {node_public_marshal_text hx (NodePublic k), disco_public_marshal_text hx (DiscoPublic k),
         nl_public_marshal_text hx (NLPublic k), nl_public_cli_string hx (NLPublic k)} \<union> private_texts hx k.
       machine_public_from_str hx t = Inl (MissingPrefix ''mkey:'')) \<and>
    (\<forall>t \<in> {node_public_marshal_text hx (NodePublic k), machine_public_marshal_text hx (MachinePublic k),
         nl_public_marshal_text hx (NLPublic k), nl_public_cli_string hx (NLPublic k)} \<union> private_texts hx k.
       disco_public_from_str hx t = Inl (MissingPrefix ''discokey:'')) \<and>
    (\<forall>t \<in> {node_public_marshal_text hx (NodePublic k), machine_public_marshal_text hx (MachinePublic k),
         disco_public_marshal_text hx (DiscoPublic k)} \<union> private_texts hx k.
       nl_public_from_str hx t = Inl (MissingPrefix ''nlpub:'')) \<and>
    (\<forall>t \<in> {node_public_marshal_text hx (NodePublic k), machine_public_marshal_text hx (MachinePublic k),
         disco_public_marshal_text hx (DiscoPublic k), nl_public_marshal_text hx (NLPublic k), nl_public_cli_string hx (NLPublic k)}.
       node_private_from_str hx t = Inl (MissingPrefix ''privkey:'') \<and>
       machine_private_from_str hx t = Inl (MissingPrefix ''privkey:'') \<and>
       disco_private_from_str hx t = Inl (MissingPrefix ''privkey:'') \<and>
       nl_private_from_str hx t = Inl (MissingPrefix ''privkey:''))"
proof -
  have "length (hx_encode hx k) = KEY_LEN * 2" "hx_decode hx (hx_encode hx k) = Some k"
    using assms by (auto simp: hex_ok_def)
  moreover have "strip_prefix NL_PUB_PREFIX (NL_PUB_PREFIX_CLI @ s) = None" for s
    by (simp add: strip_prefix_def prefix_defs)
  ultimately have nl: "nl_public_from_str hx (nl_public_marshal_text hx (NLPublic k)) = Inr (NLPublic k)"
    "nl_public_from_str hx (nl_public_cli_string hx (NLPublic k)) = Inr (NLPublic k)"
    by (simp_all add: nl_public_from_str_def nl_public_marshal_text_def nl_public_cli_string_def append_hex_key_def)
  show ?thesis
    by (intro conjI nl)
      (simp_all add: key_text_defs private_texts_def parse_append[OF assms],
       simp_all add: append_hex_key_def parse_typed_hex_def nl_public_from_str_def strip_prefix_def prefix_defs)
qed

text \<open>A hex library for the witness: two characters per byte.\<close>

definition hex_digit :: "nat \<Rightarrow> char" where
  "hex_digit n = ''0123456789abcdef'' ! n"

definition hex_value :: "char \<Rightarrow> nat option" where
  "hex_value c = find (\<lambda>n. hex_digit n = c) [0..<16]"

fun hex_read :: "string \<Rightarrow> bytes option" where
  "hex_read [] = Some []"
| "hex_read [_] = None"
| "hex_read (a # b # s) =
     (case (hex_value a, hex_value b, hex_read s) of
        (Some x, Some y, Some bs) \<Rightarrow> Some (of_nat (16 * x + y) # bs)
      | _ \<Rightarrow> None)"

definition plain_hex :: hex_lib where
  "plain_hex = \<lparr>hx_encode = (\<lambda>bs. concat (map (\<lambda>b. [hex_digit (unat b div 16), hex_digit (unat b mod 16)]) bs)),
     hx_decode = hex_read\<rparr>"

lemma hex_value_digit: "n < 16 \<Longrightarrow> hex_value (hex_digit n) = Some n"
proof -
  have "\<forall>n \<in> set [0..<16]. hex_value (hex_digit n) = Some n" by code_simp
  then show "n < 16 \<Longrightarrow> hex_value (hex_digit n) = Some n" by simp
qed

lemma plain_hex_ok: "hex_ok plain_hex"
proof -
  have "hex_read (concat (map (\<lambda>b. [hex_digit (unat b div 16), hex_digit (unat b mod 16)]) bs)) = Some bs" for bs :: bytes
  proof (induction bs)
    case (Cons b bs)
    have "unat b < 256" using unat_less_2p[of b] by simp
    then have "unat b div 16 < 16" by simp
    with Cons show ?case by (simp add: hex_value_digit)
  qed simp
  moreover have "length (concat (map (\<lambda>b. [hex_digit (unat b div 16), hex_digit (unat b mod 16)]) bs)) = 2 * length bs" for bs :: bytes
    by (induction bs) simp_all
  ultimately show ?thesis by (simp add: hex_ok_def plain_hex_def)
qed

theorem key_text_roundtrip_witness:
  "hex_ok plain_hex \<and> length (replicate 32 (7 :: u8)) = KEY_LEN \<and>
   node_public_from_str plain_hex (node_public_marshal_text plain_hex (NodePublic (replicate 32 7))) = Inr (NodePublic (replicate 32 7))"
  using key_text_roundtrip[OF plain_hex_ok, of "replicate 32 7"] plain_hex_ok by (simp add: KEY_LEN_def)

text \<open>C22. Given a box whose two sides share a cipher, what a node or machine seals to a peer's public key
the peer opens with the sender's public key, whatever the message; sealing succeeds exactly when the
library encrypts, and a precomputed machine key is interchangeable with the key pair it was computed
from.\<close>

theorem sealed_boxes_open:
  assumes "box_ok bx" "length nonce = NONCE_LEN"
    and "\<not> all_zero a" "\<not> all_zero b" "\<not> all_zero (derive_public bx a)" "\<not> all_zero (derive_public bx b)"
  shows "(case node_seal_to bx nonce (NodePrivate a) (NodePublic (derive_public bx b)) m of
      Inr c \<Rightarrow> node_open_from bx (NodePrivate b) (NodePublic (derive_public bx a)) c = Some m \<and> take NONCE_LEN c = nonce
    | Inl e \<Rightarrow> e = Encrypt \<and> bx_encrypt bx (bx_new bx (derive_public bx b) a) nonce m = None) \<and>
    (case machine_seal_to bx nonce (MachinePrivate a) (MachinePublic (derive_public bx b)) m of
      Inr c \<Rightarrow> machine_open_from bx (MachinePrivate b) (MachinePublic (derive_public bx a)) c = Some m \<and>
        machine_shared_open bx (machine_shared_key bx (MachinePrivate b) (MachinePublic (derive_public bx a))) c = Some m \<and>
        machine_shared_seal bx nonce (machine_shared_key bx (MachinePrivate a) (MachinePublic (derive_public bx b))) m = Inr c
    | Inl e \<Rightarrow> e = Encrypt)"
proof -
  have op: "box_open bx b (derive_public bx a) c = Some m" if "box_seal bx nonce a (derive_public bx b) m = Inr c" for c
    by (rule box_roundtrip[OF assms(1,2) that])
  have len: "take NONCE_LEN (nonce @ c) = nonce" "\<not> length (nonce @ c) < NONCE_LEN" for c using assms(2) by simp_all
  have zero: "\<not> node_private_is_zero (NodePrivate a)" "\<not> node_public_is_zero (NodePublic (derive_public bx b))"
    "\<not> node_private_is_zero (NodePrivate b)" "\<not> node_public_is_zero (NodePublic (derive_public bx a))"
    "\<not> machine_private_is_zero (MachinePrivate a)" "\<not> machine_public_is_zero (MachinePublic (derive_public bx b))"
    "\<not> machine_private_is_zero (MachinePrivate b)" "\<not> machine_public_is_zero (MachinePublic (derive_public bx a))"
    using assms(3-) by (simp_all add: node_private_is_zero_def node_public_is_zero_def machine_private_is_zero_def machine_public_is_zero_def)
  show ?thesis
  proof (cases "bx_encrypt bx (bx_new bx (derive_public bx b) a) nonce m")
    case None
    then show ?thesis using zero by (simp add: node_seal_to_def machine_seal_to_def box_seal_def)
  next
    case (Some c)
    then have "box_seal bx nonce a (derive_public bx b) m = Inr (nonce @ c)" by (simp add: box_seal_def)
    with op[OF this] Some len zero show ?thesis
      by (simp add: node_seal_to_def node_open_from_def machine_seal_to_def machine_open_from_def machine_shared_key_def
        machine_shared_open_def machine_shared_seal_def box_open_def)
  qed
qed

text \<open>A toy box for the witness: the cipher is the sum of the two keys, appended to the message.\<close>

definition add_box :: "bytes box_lib" where
  "add_box = \<lparr>bx_derive = (\<lambda>k. k), bx_new = (\<lambda>pk sk. map2 (+) pk sk),
     bx_encrypt = (\<lambda>s nonce m. Some (m @ s)), bx_decrypt = (\<lambda>s nonce c. Some (take (length c - length s) c))\<rparr>"

lemma add_box_ok: "box_ok add_box"
  by (auto simp: box_ok_def add_box_def min.commute)

theorem sealed_boxes_open_witness:
  "box_ok add_box \<and>
   (\<exists>c. node_seal_to add_box (replicate 24 0) (NodePrivate [1]) (NodePublic (derive_public add_box [2])) [5, 6] = Inr c \<and>
      node_open_from add_box (NodePrivate [2]) (NodePublic (derive_public add_box [1])) c = Some [5, 6])"
proof -
  have h: "length (replicate 24 0 :: bytes) = NONCE_LEN" "\<not> all_zero [1]" "\<not> all_zero [2]"
    "\<not> all_zero (derive_public add_box [1])" "\<not> all_zero (derive_public add_box [2])"
    by (simp_all add: NONCE_LEN_def all_zero_def derive_public_def add_box_def)
  have "bx_encrypt add_box s n m = Some (m @ s)" for s n m by (simp add: add_box_def)
  then show ?thesis using sealed_boxes_open[OF add_box_ok h, of "[5, 6]"] add_box_ok
    by (auto split: sum.splits)
qed

text \<open>C28. Clamping is idempotent.  A generated node, machine or disco key is clamped and so never the zero
key: taking its public part does not panic, for every string of random bytes.  A generated network-lock
key is not clamped, and taking its public part panics exactly when the random bytes are all zero.\<close>

theorem generated_keys_have_public:
  assumes "length rnd = KEY_LEN"
  shows "clamp25519 (clamp25519 rnd) = clamp25519 rnd \<and>
    node_public_of bx (node_private_generate rnd) = Some (NodePublic (derive_public bx (clamp25519 rnd))) \<and>
    machine_public_of bx (machine_private_generate rnd) = Some (MachinePublic (derive_public bx (clamp25519 rnd))) \<and>
    disco_public_of bx (disco_private_generate rnd) = Some (DiscoPublic (derive_public bx (clamp25519 rnd))) \<and>
    nl_public_of sg (nl_private_generate rnd) =
      (if rnd = replicate KEY_LEN 0 then None else Some (NLPublic (sg_verifying_key sg rnd)))"
proof -
  have len: "31 < length rnd" and len0: "0 < length rnd" using assms by (simp_all add: KEY_LEN_def)
  have "((w AND 0x7f) OR 0x40) \<noteq> 0" for w :: u8
  proof
    assume "(w AND 0x7f) OR 0x40 = 0"
    then have "bit ((w AND 0x7f) OR 0x40) 6 = bit (0 :: u8) 6" by simp
    then show False by (simp add: bit_simps)
  qed
  then have "clamp25519 rnd ! 31 \<noteq> 0" using len by (simp add: clamp25519_def Let_def)
  then have nz: "\<not> all_zero (clamp25519 rnd)"
    using len by (auto simp: all_zero_def list_all_length clamp25519_def Let_def intro!: exI[of _ 31])
  have "((w AND 0x7f OR 0x40) AND 0x7f) OR 0x40 = (w AND 0x7f) OR 0x40" "(w AND 0xf8) AND 0xf8 = w AND 0xf8" for w :: u8
    by (auto simp: bit_eq_iff bit_simps)
  then have "clamp25519 (clamp25519 rnd) = clamp25519 rnd"
    using len len0 by (intro nth_equalityI) (simp_all add: clamp25519_def Let_def nth_list_update)
  moreover have "all_zero rnd \<longleftrightarrow> rnd = replicate KEY_LEN 0"
    using assms by (auto simp: all_zero_def list_all_iff intro: replicate_eqI)
  ultimately show ?thesis
    using nz by (simp add: node_public_of_def node_private_generate_def nl_public_of_def nl_private_generate_def nl_private_is_zero_def node_private_is_zero_def machine_public_of_def
      machine_private_generate_def machine_private_is_zero_def disco_public_of_def disco_private_generate_def
      disco_private_is_zero_def)
qed

theorem generated_keys_have_public_witness:
  "node_public_of add_box (node_private_generate (replicate 32 0)) = Some (NodePublic (clamp25519 (replicate 32 0)))"
  using generated_keys_have_public[of "replicate 32 0" add_box] by (simp add: KEY_LEN_def derive_public_def add_box_def)

end
