(* ===== verification/Disco.thy ===== *)
theory Disco
  imports Key Flowtrack
begin

text \<open>
  Disco messages (\<open>crates/disco/src/message.rs\<close>, \<open>wire.rs\<close>, \<open>lib.rs\<close>).  Marshalling writes into a
  buffer of zeros through slices; an access out of range, or a copy between slices of different
  length, is a panic, the outer result \<open>None\<close>.  A \<open>Duration\<close> is its number of nanoseconds.
\<close>

subsection \<open>Writing into a buffer\<close>

text \<open>\<open>out[i] = b\<close>, \<open>out[i..j].copy_from_slice(src)\<close>, and a call that writes through \<open>&mut out[i..j]\<close>.\<close>

definition set_byte :: "nat \<Rightarrow> u8 \<Rightarrow> bytes \<Rightarrow> bytes option" where
  "set_byte i b out = (if i < length out then Some (out[i := b]) else None)"

definition copy_into :: "nat \<Rightarrow> nat \<Rightarrow> bytes \<Rightarrow> bytes \<Rightarrow> bytes option" where
  "copy_into i j src out =
     (if i \<le> j \<and> j \<le> length out \<and> length src = j - i then Some (take i out @ src @ drop j out) else None)"

definition slice_mut :: "nat \<Rightarrow> nat \<Rightarrow> (bytes \<Rightarrow> bytes option) \<Rightarrow> bytes \<Rightarrow> bytes option" where
  "slice_mut i j f out =
     (if i \<le> j \<and> j \<le> length out
      then map_option (\<lambda>s. take i out @ s @ drop j out) (f (take (j - i) (drop i out))) else None)"

subsection \<open>Endpoints\<close>

definition EP_LENGTH :: nat where "EP_LENGTH = 16 + 2"

record addr_port =
  ap_ip :: ipaddr
  ap_port :: u16

fun as16 :: "ipaddr \<Rightarrow> bytes" where
  "as16 (V4 v4) = octets (V6 (to_ipv6_mapped v4))"
| "as16 (V6 v6) = octets (V6 v6)"

definition map_from_16 :: "bytes \<Rightarrow> ipaddr" where
  "map_from_16 bs =
     (case to_ipv4_mapped (from_be_bytes bs) of Some v4 \<Rightarrow> V4 v4 | None \<Rightarrow> V6 (from_be_bytes bs))"

definition from16 :: "bytes \<Rightarrow> u16 \<Rightarrow> addr_port" where
  "from16 bs port = (let ip = map_from_16 bs in \<lparr>ap_ip = ip, ap_port = port\<rparr>)"

definition ap_encode_to :: "addr_port \<Rightarrow> bytes \<Rightarrow> bytes option" where
  "ap_encode_to ap buf = do {
     buf \<leftarrow> copy_into 0 16 (as16 (ap_ip ap)) buf;
     copy_into 16 (length buf) (to_be_bytes (ap_port ap)) buf
   }"

definition ap_decode_from :: "bytes \<Rightarrow> addr_port option" where
  "ap_decode_from buf = do {
     ip16 \<leftarrow> slice buf 0 16;
     p \<leftarrow> slice buf 16 18;
     Some (from16 ip16 (from_be_bytes p))
   }"

fun encode_eps :: "addr_port list \<Rightarrow> nat \<Rightarrow> bytes \<Rightarrow> bytes option" where
  "encode_eps [] off out = Some out"
| "encode_eps (ep # eps) off out = do {
     out \<leftarrow> slice_mut off (off + EP_LENGTH) (ap_encode_to ep) out;
     encode_eps eps (off + EP_LENGTH) out
   }"

function decode_eps :: "bytes \<Rightarrow> nat \<Rightarrow> addr_port list option" where
  "decode_eps body off =
     (if off < length body then do {
        s \<leftarrow> slice body off (off + EP_LENGTH);
        ap \<leftarrow> ap_decode_from s;
        rest \<leftarrow> decode_eps body (off + EP_LENGTH);
        Some (ap # rest)
      } else Some [])"
  by pat_completeness auto
termination
  by (relation "measure (\<lambda>(body, off). length body - off)") (auto simp: EP_LENGTH_def)

declare decode_eps.simps [simp del]

subsection \<open>Messages\<close>

definition V0 :: u8 where "V0 = 0"

definition TYPE_PING :: u8 where "TYPE_PING = 0x01"
definition TYPE_PONG :: u8 where "TYPE_PONG = 0x02"
definition TYPE_CALL_ME_MAYBE :: u8 where "TYPE_CALL_ME_MAYBE = 0x03"
definition TYPE_BIND_UDP_RELAY_ENDPOINT :: u8 where "TYPE_BIND_UDP_RELAY_ENDPOINT = 0x04"
definition TYPE_BIND_UDP_RELAY_ENDPOINT_CHALLENGE :: u8 where "TYPE_BIND_UDP_RELAY_ENDPOINT_CHALLENGE = 0x05"
definition TYPE_BIND_UDP_RELAY_ENDPOINT_ANSWER :: u8 where "TYPE_BIND_UDP_RELAY_ENDPOINT_ANSWER = 0x06"
definition TYPE_CALL_ME_MAYBE_VIA :: u8 where "TYPE_CALL_ME_MAYBE_VIA = 0x07"
definition TYPE_ALLOCATE_UDP_RELAY_ENDPOINT_REQUEST :: u8 where "TYPE_ALLOCATE_UDP_RELAY_ENDPOINT_REQUEST = 0x08"
definition TYPE_ALLOCATE_UDP_RELAY_ENDPOINT_RESPONSE :: u8 where "TYPE_ALLOCATE_UDP_RELAY_ENDPOINT_RESPONSE = 0x09"

definition MESSAGE_HEADER_LEN :: nat where "MESSAGE_HEADER_LEN = 2"
definition PONG_LEN :: nat where "PONG_LEN = 12 + 16 + 2"
definition BIND_UDP_RELAY_ENDPOINT_COMMON_LEN :: nat where "BIND_UDP_RELAY_ENDPOINT_COMMON_LEN = 72"
definition BIND_UDP_RELAY_CHALLENGE_LEN :: nat where "BIND_UDP_RELAY_CHALLENGE_LEN = 32"
definition ALLOCATE_UDP_RELAY_ENDPOINT_REQUEST_LEN :: nat where
  "ALLOCATE_UDP_RELAY_ENDPOINT_REQUEST_LEN = KEY_LEN * 2 + 4"
definition UDP_RELAY_ENDPOINT_LEN_MINUS_ADDRPORTS :: nat where
  "UDP_RELAY_ENDPOINT_LEN_MINUS_ADDRPORTS = KEY_LEN + KEY_LEN * 2 + 8 + 4 + 8 + 8"

record ping =
  ping_tx_id :: bytes
  node_key :: node_public
  padding :: nat

record pong =
  pong_tx_id :: bytes
  pong_src :: addr_port

record call_me_maybe =
  my_number :: "addr_port list"

record bind_common =
  bc_vni :: u32
  bc_generation :: u32
  remote_key :: disco_public
  challenge :: bytes

record udp_relay_endpoint =
  server_disco :: disco_public
  client_disco :: "disco_public \<times> disco_public"
  lamport_id :: u64
  ep_vni :: u32
  bind_lifetime :: nat
  steady_state_lifetime :: nat
  addr_ports :: "addr_port list"

record alloc_request =
  req_client_disco :: "disco_public \<times> disco_public"
  req_generation :: u32

record alloc_response =
  resp_generation :: u32
  resp_endpoint :: udp_relay_endpoint

datatype message =
  Ping ping
| Pong pong
| CallMeMaybe call_me_maybe
| BindUdpRelayEndpoint bind_common
| BindUdpRelayEndpointChallenge bind_common
| BindUdpRelayEndpointAnswer bind_common
| CallMeMaybeVia udp_relay_endpoint
| AllocateUdpRelayEndpointRequest alloc_request
| AllocateUdpRelayEndpointResponse alloc_response

datatype disco_error = Short | UnknownType u8

text \<open>The vector of zeros \<open>vec![0u8; n]\<close>: a size above \<open>isize::MAX\<close> is a panic (capacity overflow).  A size
that overflows \<open>usize\<close> before is one too: the addition panics where overflow is checked, and where it
wraps, the buffer that is left is too short for the fixed fields copied into it.\<close>

definition ISIZE_MAX :: nat where "ISIZE_MAX = 2 ^ 63 - 1"

definition vec_zeros :: "nat \<Rightarrow> bytes option" where
  "vec_zeros n = (if n \<le> ISIZE_MAX then Some (replicate n 0) else None)"

text \<open>The buffer that every \<open>marshal\<close> starts from, with the type and the version set.\<close>

definition message_buf :: "u8 \<Rightarrow> nat \<Rightarrow> bytes option" where
  "message_buf typ data_len = do {
     out \<leftarrow> vec_zeros (MESSAGE_HEADER_LEN + data_len);
     out \<leftarrow> set_byte 0 typ out;
     set_byte 1 V0 out
   }"

definition zero_disco_pair :: "disco_public \<times> disco_public" where
  "zero_disco_pair = (DiscoPublic (replicate KEY_LEN 0), DiscoPublic (replicate KEY_LEN 0))"

definition ping_marshal :: "ping \<Rightarrow> bytes option" where
  "ping_marshal m = do {
     let has_key = (\<not> node_public_is_zero (node_key m));
     let data_len = 12 + (if has_key then KEY_LEN else 0) + padding m;
     out \<leftarrow> message_buf TYPE_PING data_len;
     let off = MESSAGE_HEADER_LEN;
     out \<leftarrow> copy_into off (off + 12) (ping_tx_id m) out;
     if has_key then copy_into (off + 12) (off + 12 + KEY_LEN) (node_public_raw32 (node_key m)) out
     else Some out
   }"

definition parse_ping :: "u8 \<Rightarrow> bytes \<Rightarrow> (disco_error + message) option" where
  "parse_ping ver body =
     (if length body < 12 then Some (Inl Short)
      else do {
        tx_id \<leftarrow> slice body 0 12;
        rest \<leftarrow> slice_from body 12;
        let padding = length rest;
        (if KEY_LEN \<le> length rest then do {
           k \<leftarrow> slice rest 0 KEY_LEN;
           Some (Inr (Ping \<lparr>ping_tx_id = tx_id, node_key = NodePublic k, padding = padding - KEY_LEN\<rparr>))
         }
         else Some (Inr (Ping \<lparr>ping_tx_id = tx_id, node_key = NodePublic (replicate KEY_LEN 0), padding = padding\<rparr>)))
      })"

definition pong_marshal :: "pong \<Rightarrow> bytes option" where
  "pong_marshal m = do {
     out \<leftarrow> message_buf TYPE_PONG PONG_LEN;
     let off = MESSAGE_HEADER_LEN;
     out \<leftarrow> copy_into off (off + 12) (pong_tx_id m) out;
     slice_mut (off + 12) (off + 12 + EP_LENGTH) (ap_encode_to (pong_src m)) out
   }"

definition parse_pong :: "u8 \<Rightarrow> bytes \<Rightarrow> (disco_error + message) option" where
  "parse_pong ver body =
     (if length body < PONG_LEN then Some (Inl Short)
      else do {
        tx_id \<leftarrow> slice body 0 12;
        s \<leftarrow> slice body 12 (12 + EP_LENGTH);
        src \<leftarrow> ap_decode_from s;
        Some (Inr (Pong \<lparr>pong_tx_id = tx_id, pong_src = src\<rparr>))
      })"

definition call_me_maybe_marshal :: "call_me_maybe \<Rightarrow> bytes option" where
  "call_me_maybe_marshal m = do {
     let data_len = EP_LENGTH * length (my_number m);
     out \<leftarrow> message_buf TYPE_CALL_ME_MAYBE data_len;
     encode_eps (my_number m) MESSAGE_HEADER_LEN out
   }"

definition parse_call_me_maybe :: "u8 \<Rightarrow> bytes \<Rightarrow> (disco_error + message) option" where
  "parse_call_me_maybe ver body =
     (if length body mod EP_LENGTH \<noteq> 0 \<or> ver \<noteq> 0 \<or> body = [] then Some (Inr (CallMeMaybe \<lparr>my_number = []\<rparr>))
      else do {
        eps \<leftarrow> decode_eps body 0;
        Some (Inr (CallMeMaybe \<lparr>my_number = eps\<rparr>))
      })"

definition bc_encode_to :: "bind_common \<Rightarrow> bytes \<Rightarrow> bytes option" where
  "bc_encode_to c buf = do {
     buf \<leftarrow> copy_into 0 4 (to_be_bytes (bc_vni c)) buf;
     buf \<leftarrow> copy_into 4 8 (to_be_bytes (bc_generation c)) buf;
     buf \<leftarrow> copy_into 8 (8 + KEY_LEN) (disco_public_raw32 (remote_key c)) buf;
     copy_into (8 + KEY_LEN) (length buf) (challenge c) buf
   }"

definition bc_decode_from :: "bytes \<Rightarrow> (disco_error + bind_common) option" where
  "bc_decode_from body =
     (if length body < BIND_UDP_RELAY_ENDPOINT_COMMON_LEN then Some (Inl Short)
      else do {
        v \<leftarrow> slice body 0 4;
        g \<leftarrow> slice body 4 8;
        rk \<leftarrow> slice body 8 (8 + KEY_LEN);
        c \<leftarrow> slice body (8 + KEY_LEN) (8 + KEY_LEN + BIND_UDP_RELAY_CHALLENGE_LEN);
        Some (Inr \<lparr>bc_vni = from_be_bytes v, bc_generation = from_be_bytes g, remote_key = DiscoPublic rk, challenge = c\<rparr>)
      })"

text \<open>The macro \<open>bind_relay_msg\<close>, with the type byte and the constructor it is instantiated with.\<close>

definition bind_marshal :: "u8 \<Rightarrow> bind_common \<Rightarrow> bytes option" where
  "bind_marshal type_byte c = do {
     out \<leftarrow> message_buf type_byte BIND_UDP_RELAY_ENDPOINT_COMMON_LEN;
     slice_mut MESSAGE_HEADER_LEN (length out) (bc_encode_to c) out
   }"

definition parse_bind :: "(bind_common \<Rightarrow> message) \<Rightarrow> u8 \<Rightarrow> bytes \<Rightarrow> (disco_error + message) option" where
  "parse_bind name ver body = do {
     r \<leftarrow> bc_decode_from body;
     Some (map_sum (\<lambda>e. e) name r)
   }"

text \<open>\<open>Duration::as_nanos() as u64\<close> keeps the low 64 bits.\<close>

definition ep_encode_to :: "udp_relay_endpoint \<Rightarrow> bytes \<Rightarrow> bytes option" where
  "ep_encode_to e buf = do {
     let off = 0;
     buf \<leftarrow> copy_into off (off + KEY_LEN) (disco_public_raw32 (server_disco e)) buf;
     let off = off + KEY_LEN;
     buf \<leftarrow> copy_into off (off + KEY_LEN) (disco_public_raw32 (fst (client_disco e))) buf;
     let off = off + KEY_LEN;
     buf \<leftarrow> copy_into off (off + KEY_LEN) (disco_public_raw32 (snd (client_disco e))) buf;
     let off = off + KEY_LEN;
     buf \<leftarrow> copy_into off (off + 8) (to_be_bytes (lamport_id e)) buf;
     let off = off + 8;
     buf \<leftarrow> copy_into off (off + 4) (to_be_bytes (ep_vni e)) buf;
     let off = off + 4;
     buf \<leftarrow> copy_into off (off + 8) (to_be_bytes (of_nat (bind_lifetime e) :: u64)) buf;
     let off = off + 8;
     buf \<leftarrow> copy_into off (off + 8) (to_be_bytes (of_nat (steady_state_lifetime e) :: u64)) buf;
     let off = off + 8;
     encode_eps (addr_ports e) off buf
   }"

definition total_len :: "udp_relay_endpoint \<Rightarrow> nat" where
  "total_len e = UDP_RELAY_ENDPOINT_LEN_MINUS_ADDRPORTS + EP_LENGTH * length (addr_ports e)"

definition ep_decode_from :: "bytes \<Rightarrow> (disco_error + udp_relay_endpoint) option" where
  "ep_decode_from body =
     (if length body < UDP_RELAY_ENDPOINT_LEN_MINUS_ADDRPORTS + EP_LENGTH \<or>
         (length body - UDP_RELAY_ENDPOINT_LEN_MINUS_ADDRPORTS) mod EP_LENGTH \<noteq> 0
      then Some (Inl Short)
      else do {
        let off = 0;
        sd \<leftarrow> slice body off (off + KEY_LEN);
        let off = off + KEY_LEN;
        k1 \<leftarrow> slice body off (off + KEY_LEN);
        let off = off + KEY_LEN;
        k2 \<leftarrow> slice body off (off + KEY_LEN);
        let off = off + KEY_LEN;
        l \<leftarrow> slice body off (off + 8);
        let off = off + 8;
        v \<leftarrow> slice body off (off + 4);
        let off = off + 4;
        bind_ns \<leftarrow> slice body off (off + 8);
        let off = off + 8;
        steady_ns \<leftarrow> slice body off (off + 8);
        let off = off + 8;
        remaining \<leftarrow> slice_from body off;
        eps \<leftarrow> decode_eps remaining 0;
        Some (Inr \<lparr>server_disco = DiscoPublic sd, client_disco = (DiscoPublic k1, DiscoPublic k2),
          lamport_id = from_be_bytes l, ep_vni = from_be_bytes v,
          bind_lifetime = unat (from_be_bytes bind_ns :: u64),
          steady_state_lifetime = unat (from_be_bytes steady_ns :: u64), addr_ports = eps\<rparr>)
      })"

definition empty_endpoint :: udp_relay_endpoint where
  "empty_endpoint = \<lparr>server_disco = DiscoPublic (replicate KEY_LEN 0), client_disco = zero_disco_pair, lamport_id = 0,
     ep_vni = 0, bind_lifetime = 0, steady_state_lifetime = 0, addr_ports = []\<rparr>"

definition call_me_maybe_via_marshal :: "udp_relay_endpoint \<Rightarrow> bytes option" where
  "call_me_maybe_via_marshal e = do {
     let data_len = total_len e;
     out \<leftarrow> message_buf TYPE_CALL_ME_MAYBE_VIA data_len;
     slice_mut MESSAGE_HEADER_LEN (length out) (ep_encode_to e) out
   }"

definition parse_call_me_maybe_via :: "u8 \<Rightarrow> bytes \<Rightarrow> (disco_error + message) option" where
  "parse_call_me_maybe_via ver body =
     (if ver \<noteq> 0 then Some (Inr (CallMeMaybeVia empty_endpoint))
      else do {
        r \<leftarrow> ep_decode_from body;
        Some (map_sum (\<lambda>e. e) CallMeMaybeVia r)
      })"

definition alloc_request_marshal :: "alloc_request \<Rightarrow> bytes option" where
  "alloc_request_marshal m = do {
     out \<leftarrow> message_buf TYPE_ALLOCATE_UDP_RELAY_ENDPOINT_REQUEST ALLOCATE_UDP_RELAY_ENDPOINT_REQUEST_LEN;
     let off = MESSAGE_HEADER_LEN;
     out \<leftarrow> copy_into off (off + KEY_LEN) (disco_public_raw32 (fst (req_client_disco m))) out;
     let off = off + KEY_LEN;
     out \<leftarrow> copy_into off (off + KEY_LEN) (disco_public_raw32 (snd (req_client_disco m))) out;
     let off = off + KEY_LEN;
     copy_into off (off + 4) (to_be_bytes (req_generation m)) out
   }"

definition parse_alloc_request :: "u8 \<Rightarrow> bytes \<Rightarrow> (disco_error + message) option" where
  "parse_alloc_request ver body =
     (if ver \<noteq> 0 then
        Some (Inr (AllocateUdpRelayEndpointRequest \<lparr>req_client_disco = zero_disco_pair, req_generation = 0\<rparr>))
      else if length body < ALLOCATE_UDP_RELAY_ENDPOINT_REQUEST_LEN then Some (Inl Short)
      else do {
        k1 \<leftarrow> slice body 0 KEY_LEN;
        k2 \<leftarrow> slice body KEY_LEN (KEY_LEN + KEY_LEN);
        g \<leftarrow> slice body (KEY_LEN + KEY_LEN) (KEY_LEN + KEY_LEN + 4);
        Some (Inr (AllocateUdpRelayEndpointRequest
          \<lparr>req_client_disco = (DiscoPublic k1, DiscoPublic k2), req_generation = from_be_bytes g\<rparr>))
      })"

definition alloc_response_marshal :: "alloc_response \<Rightarrow> bytes option" where
  "alloc_response_marshal m = do {
     let data_len = 4 + total_len (resp_endpoint m);
     out \<leftarrow> message_buf TYPE_ALLOCATE_UDP_RELAY_ENDPOINT_RESPONSE data_len;
     let off = MESSAGE_HEADER_LEN;
     out \<leftarrow> copy_into off (off + 4) (to_be_bytes (resp_generation m)) out;
     slice_mut (off + 4) (length out) (ep_encode_to (resp_endpoint m)) out
   }"

definition parse_alloc_response :: "u8 \<Rightarrow> bytes \<Rightarrow> (disco_error + message) option" where
  "parse_alloc_response ver body =
     (if ver \<noteq> 0 then
        Some (Inr (AllocateUdpRelayEndpointResponse \<lparr>resp_generation = 0, resp_endpoint = empty_endpoint\<rparr>))
      else if length body < 4 then Some (Inl Short)
      else do {
        g \<leftarrow> slice body 0 4;
        rest \<leftarrow> slice_from body 4;
        r \<leftarrow> ep_decode_from rest;
        Some (map_sum (\<lambda>e. e)
          (\<lambda>e. AllocateUdpRelayEndpointResponse \<lparr>resp_generation = from_be_bytes g, resp_endpoint = e\<rparr>) r)
      })"

definition parse_message :: "bytes \<Rightarrow> (disco_error + message) option" where
  "parse_message payload =
     (if length payload < MESSAGE_HEADER_LEN then Some (Inl Short)
      else do {
        typ \<leftarrow> idx payload 0;
        ver \<leftarrow> idx payload 1;
        body \<leftarrow> slice_from payload 2;
        (if typ = TYPE_PING then parse_ping ver body
         else if typ = TYPE_PONG then parse_pong ver body
         else if typ = TYPE_CALL_ME_MAYBE then parse_call_me_maybe ver body
         else if typ = TYPE_BIND_UDP_RELAY_ENDPOINT then parse_bind BindUdpRelayEndpoint ver body
         else if typ = TYPE_BIND_UDP_RELAY_ENDPOINT_CHALLENGE then parse_bind BindUdpRelayEndpointChallenge ver body
         else if typ = TYPE_BIND_UDP_RELAY_ENDPOINT_ANSWER then parse_bind BindUdpRelayEndpointAnswer ver body
         else if typ = TYPE_CALL_ME_MAYBE_VIA then parse_call_me_maybe_via ver body
         else if typ = TYPE_ALLOCATE_UDP_RELAY_ENDPOINT_REQUEST then parse_alloc_request ver body
         else if typ = TYPE_ALLOCATE_UDP_RELAY_ENDPOINT_RESPONSE then parse_alloc_response ver body
         else Some (Inl (UnknownType typ)))
      })"

fun marshal :: "message \<Rightarrow> bytes option" where
  "marshal (Ping m) = ping_marshal m"
| "marshal (Pong m) = pong_marshal m"
| "marshal (CallMeMaybe m) = call_me_maybe_marshal m"
| "marshal (BindUdpRelayEndpoint m) = bind_marshal TYPE_BIND_UDP_RELAY_ENDPOINT m"
| "marshal (BindUdpRelayEndpointChallenge m) = bind_marshal TYPE_BIND_UDP_RELAY_ENDPOINT_CHALLENGE m"
| "marshal (BindUdpRelayEndpointAnswer m) = bind_marshal TYPE_BIND_UDP_RELAY_ENDPOINT_ANSWER m"
| "marshal (CallMeMaybeVia m) = call_me_maybe_via_marshal m"
| "marshal (AllocateUdpRelayEndpointRequest m) = alloc_request_marshal m"
| "marshal (AllocateUdpRelayEndpointResponse m) = alloc_response_marshal m"

subsection \<open>Packets\<close>

definition MAGIC :: bytes where "MAGIC = [0x54, 0x53, 0xf0, 0x9f, 0x92, 0xac]"

definition looks_like_disco_wrapper :: "bytes \<Rightarrow> bool" where
  "looks_like_disco_wrapper p \<longleftrightarrow> length MAGIC + KEY_LEN + NONCE_LEN \<le> length p \<and> take (length MAGIC) p = MAGIC"

definition packet_source :: "bytes \<Rightarrow> bytes option" where
  "packet_source p =
     (if \<not> looks_like_disco_wrapper p then None else Some (take KEY_LEN (drop (length MAGIC) p)))"

definition seal_packet :: "'s box_lib \<Rightarrow> bytes \<Rightarrow> disco_private \<Rightarrow> disco_public \<Rightarrow> bytes \<Rightarrow> (key_error + bytes) option" where
  "seal_packet bx nonce sender peer payload =
     (if disco_private_is_zero sender \<or> disco_public_is_zero peer then Some (Inl ZeroKey)
      else let shared = disco_shared_key bx sender peer in
        case disco_shared_seal bx nonce shared payload of
          Inl e \<Rightarrow> Some (Inl e)
        | Inr sealed \<Rightarrow> do {
            sender_pub \<leftarrow> disco_public_of bx sender;
            Some (Inr (MAGIC @ disco_public_raw32 sender_pub @ sealed))
          })"

definition open_packet :: "'s box_lib \<Rightarrow> disco_private \<Rightarrow> bytes \<Rightarrow> (disco_public \<times> bytes) option" where
  "open_packet bx receiver packet =
     (if \<not> looks_like_disco_wrapper packet then None
      else do {
        sender_bytes \<leftarrow> packet_source packet;
        let sender_pub = DiscoPublic sender_bytes;
        let shared = disco_shared_key bx receiver sender_pub;
        plaintext \<leftarrow> disco_shared_open bx shared (drop (length MAGIC + KEY_LEN) packet);
        Some (sender_pub, plaintext)
      })"

end
