(* ===== verification/Disco_Roundtrip.thy ===== *)
theory Disco_Roundtrip
  imports Disco
begin

text \<open>
  Marshalled disco messages as byte strings, and what parsing makes of them: round trips, the error
  behaviour of the parser on arbitrary input, and the sealed packets around the messages.
\<close>

subsection \<open>Filling a buffer from the left\<close>

lemma copy_next:
  assumes "length xs = i" "length src = j - i" "i \<le> j" "j - i \<le> n"
  shows "copy_into i j src (xs @ replicate n 0) = Some ((xs @ src) @ replicate (n - (j - i)) 0)"
  using assms by (simp add: copy_into_def)

lemma slice_mut_next:
  assumes "length xs = i" "i \<le> j" "j - i \<le> n" "f (replicate (j - i) 0) = Some s"
  shows "slice_mut i j f (xs @ replicate n 0) = Some ((xs @ s) @ replicate (n - (j - i)) 0)"
  using assms by (simp add: slice_mut_def min_absorb1)

lemma message_buf_eq:
  "message_buf typ n = (if 2 + n \<le> ISIZE_MAX then Some ([typ, V0] @ replicate n 0) else None)"
proof -
  have "replicate (2 + n) 0 = [0, 0] @ replicate n (0 :: u8)" by (simp add: numeral_2_eq_2)
  then show ?thesis by (simp add: message_buf_def vec_zeros_def set_byte_def MESSAGE_HEADER_LEN_def)
qed

lemma small_fits: "n < 2 ^ 63 \<Longrightarrow> n \<le> ISIZE_MAX"
  by (simp add: ISIZE_MAX_def)

definition enc_ep :: "addr_port \<Rightarrow> bytes" where
  "enc_ep ap = as16 (ap_ip ap) @ to_be_bytes (ap_port ap)"

lemma as16_mapped: "as16 ip = mapped_octets ip"
  by (cases ip) simp_all

lemma length_as16 [simp]: "length (as16 ip) = 16"
  by (cases ip) simp_all

lemma length_enc_ep [simp]: "length (enc_ep ap) = 18"
  by (simp add: enc_ep_def)

lemma length_concat_enc_ep [simp]: "length (concat (map enc_ep eps)) = 18 * length eps"
  by (induction eps) simp_all

lemma ap_encode_to_eq: "ap_encode_to ap (replicate 18 0) = Some (enc_ep ap)"
proof -
  have "copy_into 0 16 (as16 (ap_ip ap)) (replicate 18 0) = Some (as16 (ap_ip ap) @ replicate 2 0)"
    using copy_next[of "[]" 0 "as16 (ap_ip ap)" 16 18] by simp
  then show ?thesis by (simp add: ap_encode_to_def copy_into_def enc_ep_def)
qed

lemma encode_eps_eq:
  "length xs = off \<Longrightarrow> n = 18 * length eps \<Longrightarrow> encode_eps eps off (xs @ replicate n 0) = Some (xs @ concat (map enc_ep eps))"
proof (induction eps arbitrary: xs off n)
  case (Cons ep eps)
  have "slice_mut off (off + EP_LENGTH) (ap_encode_to ep) (xs @ replicate n 0) =
      Some ((xs @ enc_ep ep) @ replicate (18 * length eps) 0)"
    using slice_mut_next[OF Cons.prems(1), of "off + EP_LENGTH" n "ap_encode_to ep"] Cons.prems(2)
    by (simp add: EP_LENGTH_def ap_encode_to_eq)
  with Cons.IH[of "xs @ enc_ep ep" "off + EP_LENGTH" "18 * length eps"] Cons.prems show ?case
    by (simp add: EP_LENGTH_def)
qed simp

subsection \<open>Reading endpoints\<close>

definition canon_ap :: "addr_port \<Rightarrow> addr_port" where
  "canon_ap ap = ap\<lparr>ap_ip := canonical_addr (ap_ip ap)\<rparr>"

lemma map_from_16_as16: "map_from_16 (as16 ip) = canonical_addr ip"
  by (cases ip) (auto simp: map_from_16_def from_to_be_bytes simp del: to_be_bytes_mapped split: option.splits)

lemma ap_decode_enc: "ap_decode_from (enc_ep ap) = Some (canon_ap ap)"
  by (simp add: ap_decode_from_def enc_ep_def from16_def map_from_16_as16 canon_ap_def)

lemma canonical_map_from_16: "canonical_addr (map_from_16 bs) = map_from_16 bs"
  by (auto simp: map_from_16_def split: option.splits)

lemma decode_eps_enc:
  "decode_eps (xs @ concat (map enc_ep eps)) (length xs) = Some (map canon_ap eps)"
proof (induction eps arbitrary: xs)
  case Nil
  then show ?case by (simp add: decode_eps.simps)
next
  case (Cons ep eps)
  show ?case
    using Cons.IH[of "xs @ enc_ep ep"]
    by (subst decode_eps.simps) (simp add: EP_LENGTH_def ap_decode_enc)
qed

lemma decode_eps_total:
  "(length body - off) mod EP_LENGTH = 0 \<Longrightarrow>
     \<exists>eps. decode_eps body off = Some eps \<and> list_all (\<lambda>ap. canon_ap ap = ap) eps \<and> EP_LENGTH * length eps = length body - off"
proof (induction body off rule: decode_eps.induct)
  case (1 body off)
  show ?case
  proof (cases "off < length body")
    case True
    obtain k where k: "length body - off = EP_LENGTH * k" using "1.prems" by auto
    then obtain k' where "k = Suc k'" using True by (cases k) (auto simp: EP_LENGTH_def)
    then have le: "off + EP_LENGTH \<le> length body" and "length body - (off + EP_LENGTH) = EP_LENGTH * k'"
      using k True by (auto simp: EP_LENGTH_def)
    then have "(length body - (off + EP_LENGTH)) mod EP_LENGTH = 0" by simp
    let ?s = "take EP_LENGTH (drop off body)"
    have s: "slice body off (off + EP_LENGTH) = Some ?s" using le by simp
    obtain ap where ap: "ap_decode_from ?s = Some ap" "canon_ap ap = ap"
      using le by (simp add: ap_decode_from_def EP_LENGTH_def from16_def canon_ap_def canonical_map_from_16)
    obtain eps where "decode_eps body (off + EP_LENGTH) = Some eps" "list_all (\<lambda>ap. canon_ap ap = ap) eps"
      "EP_LENGTH * length eps = length body - (off + EP_LENGTH)"
      using "1.IH"[OF True s ap(1)] \<open>(length body - (off + EP_LENGTH)) mod EP_LENGTH = 0\<close> by blast
    then show ?thesis using True s ap le by (subst decode_eps.simps) (simp add: EP_LENGTH_def)
  next
    case False
    then show ?thesis by (simp add: decode_eps.simps)
  qed
qed

subsection \<open>Encodings\<close>

text \<open>Consecutive fields written one after the other.\<close>

fun writes :: "nat \<Rightarrow> bytes list \<Rightarrow> bytes \<Rightarrow> bytes option" where
  "writes off [] out = Some out"
| "writes off (s # ss) out = Option.bind (copy_into off (off + length s) s out) (writes (off + length s) ss)"

lemma writes_fun:
  "writes off [] = Some"
  "writes off (s # ss) = (\<lambda>out. Option.bind (copy_into off (off + length s) s out) (writes (off + length s) ss))"
  by (auto simp: fun_eq_iff)

lemma writes_eq:
  "length xs = off \<Longrightarrow> length (concat ss) \<le> n \<Longrightarrow>
     writes off ss (xs @ replicate n 0) = Some (xs @ concat ss @ replicate (n - length (concat ss)) 0)"
proof (induction ss arbitrary: xs off n)
  case (Cons s ss)
  have "copy_into off (off + length s) s (xs @ replicate n 0) = Some ((xs @ s) @ replicate (n - length s) 0)"
    using copy_next[OF Cons.prems(1), of s "off + length s" n] Cons.prems(2) by simp
  with Cons.IH[of "xs @ s" "off + length s" "n - length s"] Cons.prems show ?case by simp
qed simp

definition endpoint_fields :: "udp_relay_endpoint \<Rightarrow> bytes list" where
  "endpoint_fields e = [disco_public_raw32 (server_disco e), disco_public_raw32 (fst (client_disco e)),
     disco_public_raw32 (snd (client_disco e)), to_be_bytes (lamport_id e), to_be_bytes (ep_vni e),
     to_be_bytes (of_nat (bind_lifetime e) :: u64), to_be_bytes (of_nat (steady_state_lifetime e) :: u64)]"

definition enc_endpoint :: "udp_relay_endpoint \<Rightarrow> bytes" where
  "enc_endpoint e = concat (endpoint_fields e) @ concat (map enc_ep (addr_ports e))"

definition disco_key_ok :: "disco_public \<Rightarrow> bool" where
  "disco_key_ok k \<longleftrightarrow> length (disco_public_raw32 k) = KEY_LEN"

definition endpoint_ok :: "udp_relay_endpoint \<Rightarrow> bool" where
  "endpoint_ok e \<longleftrightarrow> disco_key_ok (server_disco e) \<and> disco_key_ok (fst (client_disco e)) \<and> disco_key_ok (snd (client_disco e))"

lemma length_endpoint_fields: "endpoint_ok e \<Longrightarrow> length (concat (endpoint_fields e)) = 124"
  by (simp add: endpoint_ok_def disco_key_ok_def endpoint_fields_def KEY_LEN_def)

lemma ep_encode_writes:
  assumes "endpoint_ok e"
  shows "ep_encode_to e buf = Option.bind (writes 0 (endpoint_fields e) buf) (encode_eps (addr_ports e) 124)"
  using assms by (simp add: ep_encode_to_def endpoint_fields_def endpoint_ok_def disco_key_ok_def KEY_LEN_def)

lemma ep_encode_to_eq:
  assumes "endpoint_ok e"
  shows "ep_encode_to e (replicate (total_len e) 0) = Some (enc_endpoint e)"
proof -
  have n: "total_len e = 124 + 18 * length (addr_ports e)"
    by (simp add: total_len_def UDP_RELAY_ENDPOINT_LEN_MINUS_ADDRPORTS_def EP_LENGTH_def KEY_LEN_def)
  have "writes 0 (endpoint_fields e) (replicate (total_len e) 0) =
      Some (concat (endpoint_fields e) @ replicate (18 * length (addr_ports e)) 0)"
    using writes_eq[of "[]" 0 "endpoint_fields e" "total_len e"] n length_endpoint_fields[OF assms] by simp
  then show ?thesis
    using encode_eps_eq[of "concat (endpoint_fields e)" 124 _ "addr_ports e"] length_endpoint_fields[OF assms]
    by (simp add: ep_encode_writes[OF assms] enc_endpoint_def)
qed

text \<open>What reading makes of an endpoint: addresses are unmapped, lifetimes lose what 64 bits cannot hold.\<close>

definition canon_endpoint :: "udp_relay_endpoint \<Rightarrow> udp_relay_endpoint" where
  "canon_endpoint e = e\<lparr>bind_lifetime := bind_lifetime e mod 2 ^ 64, steady_state_lifetime := steady_state_lifetime e mod 2 ^ 64,
     addr_ports := map canon_ap (addr_ports e)\<rparr>"

text \<open>Slices at consecutive offsets of a concatenation.\<close>

lemma slice_middle: "length xs = i \<Longrightarrow> length s = j - i \<Longrightarrow> i \<le> j \<Longrightarrow> slice (xs @ s @ ys) i j = Some s"
  by (simp add: slice_def)

lemma unat_of_nat_u64: "unat (of_nat n :: u64) = n mod 2 ^ 64"
  by (simp add: unsigned_of_nat take_bit_nat_def)

lemma ep_decode_enc:
  assumes "endpoint_ok e" "addr_ports e \<noteq> []"
  shows "ep_decode_from (enc_endpoint e) = Some (Inr (canon_endpoint e))"
proof -
  let ?eps = "concat (map enc_ep (addr_ports e))"
  obtain sd where sd: "server_disco e = DiscoPublic sd" "length sd = 32"
    using assms(1) by (cases "server_disco e") (simp add: endpoint_ok_def disco_key_ok_def KEY_LEN_def)
  obtain k1 k2 where k: "client_disco e = (DiscoPublic k1, DiscoPublic k2)" "length k1 = 32" "length k2 = 32"
    using assms(1) by (cases "client_disco e"; cases "fst (client_disco e)"; cases "snd (client_disco e)")
      (simp add: endpoint_ok_def disco_key_ok_def KEY_LEN_def)
  let ?l = "to_be_bytes (lamport_id e)" and ?v = "to_be_bytes (ep_vni e)"
    and ?b = "to_be_bytes (of_nat (bind_lifetime e) :: u64)" and ?s = "to_be_bytes (of_nat (steady_state_lifetime e) :: u64)"
  have enc: "enc_endpoint e = sd @ k1 @ k2 @ ?l @ ?v @ ?b @ ?s @ ?eps"
    by (simp add: enc_endpoint_def endpoint_fields_def sd k)
  let ?body = "sd @ k1 @ k2 @ ?l @ ?v @ ?b @ ?s @ ?eps"
  have len: "length ?body = 124 + 18 * length (addr_ports e)" using sd k by simp
  have sl: "slice ?body 0 32 = Some sd" "slice ?body 32 64 = Some k1" "slice ?body 64 96 = Some k2"
    "slice ?body 96 104 = Some ?l" "slice ?body 104 108 = Some ?v" "slice ?body 108 116 = Some ?b"
    "slice ?body 116 124 = Some ?s" "slice_from ?body 124 = Some ?eps"
    using sd k by (simp_all add: slice_def slice_from_def)
  have eps: "decode_eps ?eps 0 = Some (map canon_ap (addr_ports e))" using decode_eps_enc[of "[]"] by simp
  have "length (addr_ports e) \<ge> 1" using assms(2) by (cases "addr_ports e") simp_all
  then show ?thesis
    unfolding enc ep_decode_from_def Let_def
    using sl eps len sd k assms(2)
    by (simp add: KEY_LEN_def UDP_RELAY_ENDPOINT_LEN_MINUS_ADDRPORTS_def EP_LENGTH_def canon_endpoint_def
      from_to_be_bytes unat_of_nat_u64)
qed

lemma ep_decode_total:
  "\<exists>r. ep_decode_from body = Some r \<and> (\<forall>e. r = Inr e \<longrightarrow> endpoint_ok e \<and> canon_endpoint e = e \<and> addr_ports e \<noteq> [])"
proof (cases "length body < UDP_RELAY_ENDPOINT_LEN_MINUS_ADDRPORTS + EP_LENGTH \<or>
    (length body - UDP_RELAY_ENDPOINT_LEN_MINUS_ADDRPORTS) mod EP_LENGTH \<noteq> 0")
  case True
  then show ?thesis by (simp add: ep_decode_from_def)
next
  case False
  then have len: "142 \<le> length body" "(length (drop 124 body) - 0) mod EP_LENGTH = 0"
    by (auto simp: UDP_RELAY_ENDPOINT_LEN_MINUS_ADDRPORTS_def EP_LENGTH_def KEY_LEN_def)
  obtain eps where eps: "decode_eps (drop 124 body) 0 = Some eps" "list_all (\<lambda>ap. canon_ap ap = ap) eps"
    "EP_LENGTH * length eps = length (drop 124 body)" using decode_eps_total[OF len(2)] by auto
  have "map canon_ap eps = eps" using eps(2) by (simp add: list_all_iff map_idI)
  moreover have "eps \<noteq> []" using eps(3) len(1) by auto
  moreover have "unat w mod 18446744073709551616 = unat w" for w :: u64 using unat_less_2p[of w] by simp
  ultimately show ?thesis using False len eps(1)
    by (simp add: ep_decode_from_def KEY_LEN_def Let_def endpoint_ok_def disco_key_ok_def canon_endpoint_def)
qed

subsection \<open>Messages\<close>

text \<open>What the types of the code guarantee of a message, and the form in which it is read back.\<close>

fun message_ok :: "message \<Rightarrow> bool" where
  "message_ok (Ping m) \<longleftrightarrow> length (ping_tx_id m) = 12 \<and> length (node_public_raw32 (node_key m)) = KEY_LEN"
| "message_ok (Pong m) \<longleftrightarrow> length (pong_tx_id m) = 12"
| "message_ok (CallMeMaybe m) \<longleftrightarrow> True"
| "message_ok (BindUdpRelayEndpoint c) \<longleftrightarrow> disco_key_ok (remote_key c) \<and> length (challenge c) = 32"
| "message_ok (BindUdpRelayEndpointChallenge c) \<longleftrightarrow> disco_key_ok (remote_key c) \<and> length (challenge c) = 32"
| "message_ok (BindUdpRelayEndpointAnswer c) \<longleftrightarrow> disco_key_ok (remote_key c) \<and> length (challenge c) = 32"
| "message_ok (CallMeMaybeVia e) \<longleftrightarrow> endpoint_ok e"
| "message_ok (AllocateUdpRelayEndpointRequest m) \<longleftrightarrow>
     disco_key_ok (fst (req_client_disco m)) \<and> disco_key_ok (snd (req_client_disco m))"
| "message_ok (AllocateUdpRelayEndpointResponse m) \<longleftrightarrow> endpoint_ok (resp_endpoint m)"

definition canon_ping :: "ping \<Rightarrow> ping" where
  "canon_ping m =
     (if node_public_is_zero (node_key m) \<and> KEY_LEN \<le> padding m then m\<lparr>padding := padding m - KEY_LEN\<rparr> else m)"

fun canon :: "message \<Rightarrow> message" where
  "canon (Ping m) = Ping (canon_ping m)"
| "canon (Pong m) = Pong (m\<lparr>pong_src := canon_ap (pong_src m)\<rparr>)"
| "canon (CallMeMaybe m) = CallMeMaybe (m\<lparr>my_number := map canon_ap (my_number m)\<rparr>)"
| "canon (CallMeMaybeVia e) = CallMeMaybeVia (canon_endpoint e)"
| "canon (AllocateUdpRelayEndpointResponse m) =
     AllocateUdpRelayEndpointResponse (m\<lparr>resp_endpoint := canon_endpoint (resp_endpoint m)\<rparr>)"
| "canon m = m"

text \<open>The size of a marshalled message.\<close>

fun message_len :: "message \<Rightarrow> nat" where
  "message_len (Ping m) = 14 + (if node_public_is_zero (node_key m) then 0 else KEY_LEN) + padding m"
| "message_len (Pong m) = 32"
| "message_len (CallMeMaybe m) = 2 + 18 * length (my_number m)"
| "message_len (CallMeMaybeVia e) = 2 + total_len e"
| "message_len (AllocateUdpRelayEndpointRequest m) = 70"
| "message_len (AllocateUdpRelayEndpointResponse m) = 6 + total_len (resp_endpoint m)"
| "message_len _ = 74"

fun has_endpoints :: "message \<Rightarrow> bool" where
  "has_endpoints (CallMeMaybeVia e) \<longleftrightarrow> addr_ports e \<noteq> []"
| "has_endpoints (AllocateUdpRelayEndpointResponse m) \<longleftrightarrow> addr_ports (resp_endpoint m) \<noteq> []"
| "has_endpoints _ \<longleftrightarrow> True"

lemma parse_header: "parse_message (t # V0 # body) =
  (if t = TYPE_PING then parse_ping V0 body
   else if t = TYPE_PONG then parse_pong V0 body
   else if t = TYPE_CALL_ME_MAYBE then parse_call_me_maybe V0 body
   else if t = TYPE_BIND_UDP_RELAY_ENDPOINT then parse_bind BindUdpRelayEndpoint V0 body
   else if t = TYPE_BIND_UDP_RELAY_ENDPOINT_CHALLENGE then parse_bind BindUdpRelayEndpointChallenge V0 body
   else if t = TYPE_BIND_UDP_RELAY_ENDPOINT_ANSWER then parse_bind BindUdpRelayEndpointAnswer V0 body
   else if t = TYPE_CALL_ME_MAYBE_VIA then parse_call_me_maybe_via V0 body
   else if t = TYPE_ALLOCATE_UDP_RELAY_ENDPOINT_REQUEST then parse_alloc_request V0 body
   else if t = TYPE_ALLOCATE_UDP_RELAY_ENDPOINT_RESPONSE then parse_alloc_response V0 body
   else Some (Inl (UnknownType t)))"
  by (simp add: parse_message_def MESSAGE_HEADER_LEN_def slice_from_def)

lemmas type_defs = TYPE_PING_def TYPE_PONG_def TYPE_CALL_ME_MAYBE_def TYPE_BIND_UDP_RELAY_ENDPOINT_def
  TYPE_BIND_UDP_RELAY_ENDPOINT_CHALLENGE_def TYPE_BIND_UDP_RELAY_ENDPOINT_ANSWER_def TYPE_CALL_ME_MAYBE_VIA_def
  TYPE_ALLOCATE_UDP_RELAY_ENDPOINT_REQUEST_def TYPE_ALLOCATE_UDP_RELAY_ENDPOINT_RESPONSE_def

lemmas len_defs = MESSAGE_HEADER_LEN_def KEY_LEN_def EP_LENGTH_def PONG_LEN_def
  BIND_UDP_RELAY_ENDPOINT_COMMON_LEN_def BIND_UDP_RELAY_CHALLENGE_LEN_def ALLOCATE_UDP_RELAY_ENDPOINT_REQUEST_LEN_def

lemma all_zero_replicate: "all_zero k \<Longrightarrow> k = replicate (length k) 0"
  by (induction k) (auto simp: all_zero_def)

lemma ping_roundtrip:
  assumes "message_ok (Ping m)" "message_len (Ping m) \<le> ISIZE_MAX"
  shows "\<exists>body. ping_marshal m = Some (TYPE_PING # V0 # body) \<and> parse_ping V0 body = Some (Inr (Ping (canon_ping m)))"
proof -
  obtain k where k: "node_key m = NodePublic k" "length k = 32"
    using assms by (cases "node_key m") (simp add: KEY_LEN_def)
  have tx: "length (ping_tx_id m) = 12" using assms by simp
  show ?thesis
  proof (cases "all_zero k")
    case True
    have "copy_into 2 14 (ping_tx_id m) ([TYPE_PING, V0] @ replicate (12 + padding m) 0) =
        Some (([TYPE_PING, V0] @ ping_tx_id m) @ replicate (padding m) 0)"
      using copy_next[of "[TYPE_PING, V0]" 2 "ping_tx_id m" 14 "12 + padding m"] tx by simp
    then have "ping_marshal m = Some (TYPE_PING # V0 # ping_tx_id m @ replicate (padding m) 0)"
      using True k tx assms(2) by (simp add: ping_marshal_def node_public_is_zero_def message_buf_eq len_defs)
    moreover have "k = replicate 32 0" using all_zero_replicate[OF True] k(2) by simp
    ultimately show ?thesis using True k tx
      by (cases m) (auto simp: parse_ping_def len_defs canon_ping_def node_public_is_zero_def)
  next
    case False
    have "copy_into 2 14 (ping_tx_id m) ([TYPE_PING, V0] @ replicate (44 + padding m) 0) =
        Some (([TYPE_PING, V0] @ ping_tx_id m) @ replicate (32 + padding m) 0)"
      using copy_next[of "[TYPE_PING, V0]" 2 "ping_tx_id m" 14 "44 + padding m"] tx by simp
    moreover have "copy_into 14 46 k (([TYPE_PING, V0] @ ping_tx_id m) @ replicate (32 + padding m) 0) =
        Some ((([TYPE_PING, V0] @ ping_tx_id m) @ k) @ replicate (padding m) 0)"
      using copy_next[of "[TYPE_PING, V0] @ ping_tx_id m" 14 k 46 "32 + padding m"] tx k by simp
    ultimately have "ping_marshal m = Some (TYPE_PING # V0 # ping_tx_id m @ k @ replicate (padding m) 0)"
      using False k tx assms(2) by (simp add: ping_marshal_def node_public_is_zero_def message_buf_eq len_defs)
    then show ?thesis using False k tx
      by (cases m) (auto simp: parse_ping_def len_defs canon_ping_def node_public_is_zero_def)
  qed
qed

lemma pong_roundtrip:
  assumes "message_ok (Pong m)"
  shows "\<exists>body. pong_marshal m = Some (TYPE_PONG # V0 # body) \<and> parse_pong V0 body = Some (Inr (canon (Pong m)))"
proof -
  have tx: "length (pong_tx_id m) = 12" using assms by simp
  have "copy_into 2 14 (pong_tx_id m) ([TYPE_PONG, V0] @ replicate 30 0) =
      Some (([TYPE_PONG, V0] @ pong_tx_id m) @ replicate 18 0)"
    using copy_next[of "[TYPE_PONG, V0]" 2 "pong_tx_id m" 14 30] tx by simp
  moreover have "slice_mut 14 32 (ap_encode_to (pong_src m)) (([TYPE_PONG, V0] @ pong_tx_id m) @ replicate 18 0) =
      Some ((([TYPE_PONG, V0] @ pong_tx_id m) @ enc_ep (pong_src m)) @ replicate 0 0)"
    using slice_mut_next[of "[TYPE_PONG, V0] @ pong_tx_id m" 14 32 18 "ap_encode_to (pong_src m)"] tx
    by (simp add: ap_encode_to_eq)
  ultimately have "pong_marshal m = Some (TYPE_PONG # V0 # pong_tx_id m @ enc_ep (pong_src m))"
    using tx by (simp add: pong_marshal_def message_buf_eq len_defs small_fits)
  then show ?thesis using tx by (cases m) (simp add: parse_pong_def len_defs ap_decode_enc)
qed

lemma call_me_maybe_roundtrip:
  assumes "message_len (CallMeMaybe m) \<le> ISIZE_MAX"
  shows "\<exists>body. call_me_maybe_marshal m = Some (TYPE_CALL_ME_MAYBE # V0 # body) \<and>
     parse_call_me_maybe V0 body = Some (Inr (canon (CallMeMaybe m)))"
proof -
  have "call_me_maybe_marshal m = Some (TYPE_CALL_ME_MAYBE # V0 # concat (map enc_ep (my_number m)))"
    using encode_eps_eq[of "[TYPE_CALL_ME_MAYBE, V0]" 2 "18 * length (my_number m)" "my_number m"] assms
    by (simp add: call_me_maybe_marshal_def message_buf_eq len_defs)
  moreover have "concat (map enc_ep (my_number m)) = [] \<longleftrightarrow> my_number m = []"
    using length_concat_enc_ep[of "my_number m"] by (metis length_0_conv mult_eq_0_iff zero_neq_numeral)
  moreover have "decode_eps (concat (map enc_ep (my_number m))) 0 = Some (map canon_ap (my_number m))"
    using decode_eps_enc[of "[]"] by simp
  ultimately show ?thesis by (cases m) (auto simp: parse_call_me_maybe_def len_defs V0_def)
qed

lemma bind_roundtrip:
  assumes "disco_key_ok (remote_key c)" "length (challenge c) = 32"
  shows "\<exists>body. bind_marshal t c = Some (t # V0 # body) \<and> parse_bind name ver body = Some (Inr (name c))"
proof -
  obtain k where k: "remote_key c = DiscoPublic k" "length k = 32"
    using assms(1) by (cases "remote_key c") (simp add: disco_key_ok_def KEY_LEN_def)
  let ?fs = "[to_be_bytes (bc_vni c), to_be_bytes (bc_generation c), k]"
  have "bc_encode_to c (replicate 72 0) = Option.bind (writes 0 ?fs (replicate 72 0)) (\<lambda>buf. copy_into 40 (length buf) (challenge c) buf)"
    using k by (simp add: bc_encode_to_def KEY_LEN_def)
  also have "writes 0 ?fs (replicate 72 0) = Some (concat ?fs @ replicate 32 0)"
    using writes_eq[of "[]" 0 ?fs 72] k by simp
  finally have enc: "bc_encode_to c (replicate 72 0) = Some (concat ?fs @ challenge c)"
    using k assms(2) by (simp add: copy_into_def)
  have "slice_mut 2 74 (bc_encode_to c) ([t, V0] @ replicate 72 0) = Some (([t, V0] @ concat ?fs @ challenge c) @ replicate 0 0)"
    using slice_mut_next[of "[t, V0]" 2 74 72 "bc_encode_to c"] enc by simp
  then have "bind_marshal t c = Some (t # V0 # concat ?fs @ challenge c)"
    by (simp add: bind_marshal_def message_buf_eq len_defs small_fits)
  moreover have "bc_decode_from (concat ?fs @ challenge c) = Some (Inr c)"
    using k assms(2) by (cases c) (simp add: bc_decode_from_def len_defs slice_def from_to_be_bytes)
  ultimately show ?thesis by (simp add: parse_bind_def)
qed

lemma via_roundtrip:
  assumes "endpoint_ok e" "addr_ports e \<noteq> []" "message_len (CallMeMaybeVia e) \<le> ISIZE_MAX"
  shows "\<exists>body. call_me_maybe_via_marshal e = Some (TYPE_CALL_ME_MAYBE_VIA # V0 # body) \<and>
    parse_call_me_maybe_via V0 body = Some (Inr (CallMeMaybeVia (canon_endpoint e)))"
proof -
  have "slice_mut 2 (2 + total_len e) (ep_encode_to e) ([TYPE_CALL_ME_MAYBE_VIA, V0] @ replicate (total_len e) 0) =
      Some (([TYPE_CALL_ME_MAYBE_VIA, V0] @ enc_endpoint e) @ replicate 0 0)"
    using slice_mut_next[of "[TYPE_CALL_ME_MAYBE_VIA, V0]" 2 "2 + total_len e" "total_len e" "ep_encode_to e"]
      ep_encode_to_eq[OF assms(1)] by simp
  then have "call_me_maybe_via_marshal e = Some (TYPE_CALL_ME_MAYBE_VIA # V0 # enc_endpoint e)"
    using assms(3) by (simp add: call_me_maybe_via_marshal_def message_buf_eq len_defs)
  then show ?thesis by (simp add: parse_call_me_maybe_via_def ep_decode_enc[OF assms(1,2)] V0_def)
qed

lemma alloc_request_roundtrip:
  assumes "message_ok (AllocateUdpRelayEndpointRequest m)"
  shows "\<exists>body. alloc_request_marshal m = Some (TYPE_ALLOCATE_UDP_RELAY_ENDPOINT_REQUEST # V0 # body) \<and>
    parse_alloc_request V0 body = Some (Inr (AllocateUdpRelayEndpointRequest m))"
proof -
  let ?t = TYPE_ALLOCATE_UDP_RELAY_ENDPOINT_REQUEST
  obtain k1 k2 where k: "req_client_disco m = (DiscoPublic k1, DiscoPublic k2)" "length k1 = 32" "length k2 = 32"
    using assms by (cases "req_client_disco m"; cases "fst (req_client_disco m)"; cases "snd (req_client_disco m)")
      (simp add: disco_key_ok_def KEY_LEN_def)
  let ?fs = "[k1, k2, to_be_bytes (req_generation m)]"
  have "alloc_request_marshal m = writes 2 ?fs ([?t, V0] @ replicate 68 0)"
    using k by (simp add: alloc_request_marshal_def message_buf_eq len_defs small_fits writes_fun)
  also have "\<dots> = Some ([?t, V0] @ concat ?fs)"
    using writes_eq[of "[?t, V0]" 2 ?fs 68] k by simp
  finally have "alloc_request_marshal m = Some (?t # V0 # concat ?fs)" by simp
  then show ?thesis using k by (cases m) (simp add: parse_alloc_request_def len_defs slice_def from_to_be_bytes V0_def)
qed

lemma alloc_response_roundtrip:
  assumes "endpoint_ok (resp_endpoint m)" "addr_ports (resp_endpoint m) \<noteq> []"
    and "message_len (AllocateUdpRelayEndpointResponse m) \<le> ISIZE_MAX"
  shows "\<exists>body. alloc_response_marshal m = Some (TYPE_ALLOCATE_UDP_RELAY_ENDPOINT_RESPONSE # V0 # body) \<and>
    parse_alloc_response V0 body = Some (Inr (canon (AllocateUdpRelayEndpointResponse m)))"
proof -
  let ?t = TYPE_ALLOCATE_UDP_RELAY_ENDPOINT_RESPONSE and ?g = "to_be_bytes (resp_generation m)"
  let ?n = "total_len (resp_endpoint m)"
  have "copy_into 2 6 ?g ([?t, V0] @ replicate (4 + ?n) 0) = Some (([?t, V0] @ ?g) @ replicate ?n 0)"
    using copy_next[of "[?t, V0]" 2 ?g 6 "4 + ?n"] by simp
  moreover have "slice_mut 6 (6 + ?n) (ep_encode_to (resp_endpoint m)) (([?t, V0] @ ?g) @ replicate ?n 0) =
      Some ((([?t, V0] @ ?g) @ enc_endpoint (resp_endpoint m)) @ replicate 0 0)"
    using slice_mut_next[of "[?t, V0] @ ?g" 6 "6 + ?n" ?n "ep_encode_to (resp_endpoint m)"] ep_encode_to_eq[OF assms(1)] by simp
  ultimately have "alloc_response_marshal m = Some (?t # V0 # ?g @ enc_endpoint (resp_endpoint m))"
    using assms(3) by (simp add: alloc_response_marshal_def message_buf_eq len_defs)
  then show ?thesis using ep_decode_enc[OF assms(1,2)]
    by (cases m) (simp add: parse_alloc_response_def V0_def from_to_be_bytes)
qed

lemma marshal_too_long:
  assumes "\<not> message_len m \<le> ISIZE_MAX"
  shows "marshal m = None"
  using assms
  by (cases m) (simp_all add: ping_marshal_def call_me_maybe_marshal_def call_me_maybe_via_marshal_def
    alloc_response_marshal_def message_buf_eq len_defs small_fits split: if_splits)

lemma marshal_fits:
  assumes "message_ok m" "has_endpoints m" "message_len m \<le> ISIZE_MAX"
  shows "\<exists>bs. marshal m = Some bs \<and> parse_message bs = Some (Inr (canon m))"
proof (cases m)
  case (Ping p)
  then show ?thesis using ping_roundtrip[of p] assms by (auto simp: parse_header)
next
  case (Pong p)
  then show ?thesis using pong_roundtrip[of p] assms by (auto simp: parse_header type_defs)
next
  case (CallMeMaybe p)
  then show ?thesis using call_me_maybe_roundtrip[of p] assms by (auto simp: parse_header type_defs)
next
  case (BindUdpRelayEndpoint c)
  then show ?thesis using bind_roundtrip[of c TYPE_BIND_UDP_RELAY_ENDPOINT BindUdpRelayEndpoint V0] assms
    by (auto simp: parse_header type_defs)
next
  case (BindUdpRelayEndpointChallenge c)
  then show ?thesis using bind_roundtrip[of c TYPE_BIND_UDP_RELAY_ENDPOINT_CHALLENGE BindUdpRelayEndpointChallenge V0] assms
    by (auto simp: parse_header type_defs)
next
  case (BindUdpRelayEndpointAnswer c)
  then show ?thesis using bind_roundtrip[of c TYPE_BIND_UDP_RELAY_ENDPOINT_ANSWER BindUdpRelayEndpointAnswer V0] assms
    by (auto simp: parse_header type_defs)
next
  case (CallMeMaybeVia e)
  then show ?thesis using via_roundtrip[of e] assms by (auto simp: parse_header type_defs)
next
  case (AllocateUdpRelayEndpointRequest r)
  then show ?thesis using alloc_request_roundtrip[of r] assms by (auto simp: parse_header type_defs)
next
  case (AllocateUdpRelayEndpointResponse r)
  then show ?thesis using alloc_response_roundtrip[of r] assms by (auto simp: parse_header type_defs)
qed

text \<open>A result of the parser: no panic, a well-typed message in canonical form, or \<open>Short\<close>.\<close>

definition parsed_well :: "(disco_error + message) option \<Rightarrow> bool" where
  "parsed_well r \<longleftrightarrow> r = Some (Inl Short) \<or>
     (\<exists>m. r = Some (Inr m) \<and> message_ok m \<and> (canon m = m \<or> (\<exists>p. m = Ping p)))"

lemma parse_ping_well: "parsed_well (parse_ping v body)"
  by (auto simp: parsed_well_def parse_ping_def len_defs Let_def)

lemma ap_decode_canon: "length s = 18 \<Longrightarrow> \<exists>ap. ap_decode_from s = Some ap \<and> canon_ap ap = ap"
  by (simp add: ap_decode_from_def from16_def canon_ap_def canonical_map_from_16)

lemma parse_pong_well: "parsed_well (parse_pong v body)"
proof (cases "length body < PONG_LEN")
  case False
  then have "length (take 18 (drop 12 body)) = 18" by (simp add: len_defs)
  then obtain ap where "ap_decode_from (take 18 (drop 12 body)) = Some ap" "canon_ap ap = ap"
    using ap_decode_canon by blast
  then show ?thesis using False by (simp add: parsed_well_def parse_pong_def len_defs)
qed (simp add: parsed_well_def parse_pong_def)

lemma parse_call_me_maybe_well: "parsed_well (parse_call_me_maybe v body)"
proof (cases "length body mod EP_LENGTH \<noteq> 0 \<or> v \<noteq> 0 \<or> body = []")
  case False
  then obtain eps where "decode_eps body 0 = Some eps" "list_all (\<lambda>ap. canon_ap ap = ap) eps"
    using decode_eps_total[of body 0] by auto
  moreover from this have "map canon_ap eps = eps" by (simp add: list_all_iff map_idI)
  ultimately show ?thesis using False by (simp add: parsed_well_def parse_call_me_maybe_def)
qed (simp add: parsed_well_def parse_call_me_maybe_def)

lemma parse_bind_well:
  "name \<in> {BindUdpRelayEndpoint, BindUdpRelayEndpointChallenge, BindUdpRelayEndpointAnswer} \<Longrightarrow> parsed_well (parse_bind name v body)"
  by (auto simp: parsed_well_def parse_bind_def bc_decode_from_def len_defs disco_key_ok_def)

lemma empty_endpoint_ok: "endpoint_ok empty_endpoint" "canon_endpoint empty_endpoint = empty_endpoint"
  by (simp_all add: empty_endpoint_def endpoint_ok_def disco_key_ok_def canon_endpoint_def zero_disco_pair_def KEY_LEN_def)

lemma ep_decode_error: "ep_decode_from body = Some (Inl e) \<Longrightarrow> e = Short"
  by (auto simp: ep_decode_from_def Let_def bind_eq_Some_conv split: if_splits)

lemma ep_decode_cases:
  obtains "ep_decode_from body = Some (Inl Short)"
  | e where "ep_decode_from body = Some (Inr e)" "endpoint_ok e" "canon_endpoint e = e"
proof -
  obtain r where r: "ep_decode_from body = Some r" "\<forall>e. r = Inr e \<longrightarrow> endpoint_ok e \<and> canon_endpoint e = e \<and> addr_ports e \<noteq> []"
    using ep_decode_total by blast
  then show ?thesis using that ep_decode_error[of body] by (cases r) auto
qed

lemma parse_via_well: "parsed_well (parse_call_me_maybe_via v body)"
  by (rule ep_decode_cases[of body])
    (auto simp: parsed_well_def parse_call_me_maybe_via_def empty_endpoint_ok)

lemma parse_alloc_request_well: "parsed_well (parse_alloc_request v body)"
  by (auto simp: parsed_well_def parse_alloc_request_def len_defs disco_key_ok_def zero_disco_pair_def)

lemma parse_alloc_response_well: "parsed_well (parse_alloc_response v body)"
  by (rule ep_decode_cases[of "drop 4 body"])
    (auto simp: parsed_well_def parse_alloc_response_def empty_endpoint_ok slice_from_def)

lemmas parse_well = parse_ping_well parse_pong_well parse_call_me_maybe_well parse_bind_well parse_via_well
  parse_alloc_request_well parse_alloc_response_well

subsection \<open>Properties\<close>

text \<open>C7. Marshalling a message and parsing what it wrote gives the message back up to its canonical form:
an IPv4-mapped address is read as IPv4, a lifetime is reduced to 64 bits of nanoseconds, and a ping with
the zero node key and at least 32 bytes of padding is read with 32 bytes less, its first 32 bytes of
padding being taken for the key.  The identifiers, keys and challenges have the lengths of their array
types, and a message that carries a relay endpoint needs at least one address in it.  Marshalling panics
exactly when the message would be larger than \<open>isize::MAX\<close> bytes, as a ping with enough padding is.\<close>

theorem disco_message_roundtrip:
  assumes "message_ok m" "has_endpoints m"
  shows "if message_len m \<le> ISIZE_MAX
    then \<exists>bs. marshal m = Some bs \<and> parse_message bs = Some (Inr (canon m))
    else marshal m = None"
  using marshal_fits[OF assms] marshal_too_long[of m] by simp

definition sample_pong :: message where
  "sample_pong = Pong \<lparr>pong_tx_id = replicate 12 7, pong_src = \<lparr>ap_ip = V6 (to_ipv6_mapped 0x01020304), ap_port = 41641\<rparr>\<rparr>"

theorem disco_message_roundtrip_witness:
  "\<exists>bs. marshal sample_pong = Some bs \<and>
     parse_message bs = Some (Inr (Pong \<lparr>pong_tx_id = replicate 12 7, pong_src = \<lparr>ap_ip = V4 0x01020304, ap_port = 41641\<rparr>\<rparr>))"
  using disco_message_roundtrip[of sample_pong] by (simp add: sample_pong_def canon_ap_def small_fits)

definition known_types :: "u8 set" where
  "known_types = {TYPE_PING, TYPE_PONG, TYPE_CALL_ME_MAYBE, TYPE_BIND_UDP_RELAY_ENDPOINT,
     TYPE_BIND_UDP_RELAY_ENDPOINT_CHALLENGE, TYPE_BIND_UDP_RELAY_ENDPOINT_ANSWER, TYPE_CALL_ME_MAYBE_VIA,
     TYPE_ALLOCATE_UDP_RELAY_ENDPOINT_REQUEST, TYPE_ALLOCATE_UDP_RELAY_ENDPOINT_RESPONSE}"

text \<open>C13. Parsing never panics.  The result is a message whose identifiers, keys and challenges have the
lengths of their types and whose addresses and lifetimes are in canonical form (a ping has none), or
the error \<open>Short\<close>, or \<open>UnknownType\<close> with the first byte exactly when that byte is not a known type.\<close>

theorem disco_parse_well_typed:
  "\<exists>r. parse_message payload = Some r \<and>
     (case r of
        Inr m \<Rightarrow> message_ok m \<and> (canon m = m \<or> (\<exists>p. m = Ping p))
      | Inl Short \<Rightarrow> length payload < 2 \<or> payload ! 0 \<in> known_types
      | Inl (UnknownType t) \<Rightarrow> 2 \<le> length payload \<and> payload ! 0 = t \<and> t \<notin> known_types)"
proof (cases "length payload < 2")
  case True
  then show ?thesis by (simp add: parse_message_def MESSAGE_HEADER_LEN_def)
next
  case False
  then obtain t v body where p: "payload = t # v # body" by (cases payload; cases "tl payload") auto
  show ?thesis
  proof (cases "t \<in> known_types")
    case True
    then have "parsed_well (parse_message payload)"
      unfolding known_types_def p by (auto simp: parse_message_def MESSAGE_HEADER_LEN_def slice_from_def type_defs parse_well)
    then show ?thesis using True p by (auto simp: parsed_well_def)
  next
    case no: False
    then have "parse_message payload = Some (Inl (UnknownType t))"
      unfolding known_types_def p by (simp add: parse_message_def MESSAGE_HEADER_LEN_def slice_from_def type_defs)
    then show ?thesis using no p by simp
  qed
qed

text \<open>C14. Given a box whose two sides share a cipher, a packet that one party seals to another's public key
is recognised as a disco packet, names its sender, and opens to the payload.  Neither private key and neither public key is the zero key.\<close>

theorem disco_packet_roundtrip:
  assumes "box_ok bx" "\<And>k. length (bx_derive bx k) = KEY_LEN" "length nonce = NONCE_LEN"
    and "\<not> all_zero a" "\<not> all_zero b" "\<not> all_zero (derive_public bx a)" "\<not> all_zero (derive_public bx b)"
    and "seal_packet bx nonce (DiscoPrivate a) (DiscoPublic (derive_public bx b)) payload = Some (Inr packet)"
  shows "looks_like_disco_wrapper packet \<and> packet_source packet = Some (derive_public bx a) \<and>
    open_packet bx (DiscoPrivate b) packet = Some (DiscoPublic (derive_public bx a), payload)"
proof -
  let ?s = "bx_new bx (derive_public bx b) a"
  have zero: "\<not> disco_private_is_zero (DiscoPrivate a)" "\<not> disco_public_is_zero (DiscoPublic (derive_public bx b))"
    "\<not> disco_private_is_zero (DiscoPrivate b)" "\<not> disco_public_is_zero (DiscoPublic (derive_public bx a))"
    using assms(4-7) by (simp_all add: disco_private_is_zero_def disco_public_is_zero_def)
  obtain c where c: "bx_encrypt bx ?s nonce payload = Some c" "packet = MAGIC @ derive_public bx a @ nonce @ c"
    using assms(8) zero
    by (auto simp: seal_packet_def disco_shared_key_def disco_shared_seal_def disco_public_of_def Let_def
      split: option.splits sum.splits)
  have len: "length (derive_public bx a) = KEY_LEN" using assms(2) by (simp add: derive_public_def)
  have wrapper: "looks_like_disco_wrapper packet"
    using c(2) len assms(3) by (simp add: looks_like_disco_wrapper_def)
  have src: "packet_source packet = Some (derive_public bx a)"
    using wrapper c(2) len by (simp add: packet_source_def)
  have "bx_decrypt bx (bx_new bx (derive_public bx a) b) nonce c = Some payload"
    using assms(1) c(1) by (auto simp: box_ok_def derive_public_def)
  then have "disco_shared_open bx (disco_shared_key bx (DiscoPrivate b) (DiscoPublic (derive_public bx a))) (nonce @ c) = Some payload"
    using zero assms(3) by (simp add: disco_shared_open_def disco_shared_key_def)
  then have "open_packet bx (DiscoPrivate b) packet = Some (DiscoPublic (derive_public bx a), payload)"
    using wrapper src c(2) len by (simp add: open_packet_def)
  with wrapper src show ?thesis by blast
qed

definition fixed_box :: "bytes box_lib" where
  "fixed_box = add_box\<lparr>bx_derive := (\<lambda>k. take 32 (k @ replicate 32 1)), bx_new := (\<lambda>pk sk. [])\<rparr>"

theorem disco_packet_roundtrip_witness:
  "\<exists>packet. seal_packet fixed_box (replicate 24 0) (DiscoPrivate [1]) (DiscoPublic (derive_public fixed_box [2])) [1, 0] =
      Some (Inr packet) \<and>
    open_packet fixed_box (DiscoPrivate [2]) packet = Some (DiscoPublic (derive_public fixed_box [1]), [1, 0])"
proof -
  have box: "box_ok fixed_box" "length (bx_derive fixed_box k) = KEY_LEN" for k
    by (auto simp: box_ok_def fixed_box_def add_box_def KEY_LEN_def)
  have h: "length (replicate 24 (0 :: u8)) = NONCE_LEN" "\<not> all_zero [1]" "\<not> all_zero [2]"
    "\<not> all_zero (derive_public fixed_box [1])" "\<not> all_zero (derive_public fixed_box [2])"
    by (simp_all add: NONCE_LEN_def all_zero_def derive_public_def fixed_box_def add_box_def)
  obtain packet where p: "seal_packet fixed_box (replicate 24 0) (DiscoPrivate [1]) (DiscoPublic (derive_public fixed_box [2])) [1, 0] =
      Some (Inr packet)"
    using h(2-) by (auto simp: seal_packet_def disco_private_is_zero_def disco_public_is_zero_def disco_shared_key_def
      disco_shared_seal_def disco_public_of_def fixed_box_def add_box_def)
  with disco_packet_roundtrip[OF box h p] show ?thesis by blast
qed

end
