(* ===== verification/Std_Result.thy ===== *)
theory Std_Result
  imports Std_Net "HOL-Library.List_Lexorder" "HOL-Library.Char_ord" "HOL-Library.Multiset"
begin

text \<open>
  The parts of the Rust standard library that fallible and ordered code uses.  A \<open>Result<T, E>\<close> is a
  sum whose left part is the error; \<open>and_then\<close> is the operator \<open>?\<close> followed by the rest of the
  function, and \<open>try_fold\<close> a \<open>for\<close> loop whose body may return early with an error.  \<open>Ordering\<close> has
  the source's three values; \<open>sort_by\<close> is the stable sort of slices.  A \<open>BTreeMap\<close> is the list of its
  entries in iteration order.  Strings and byte vectors compare lexicographically by byte, which is
  the order that the theories \<open>List_Lexorder\<close> and \<open>Char_ord\<close> give.
\<close>

named_theorems result_simps \<open>when fallible computations return a value\<close>

subsection \<open>Results\<close>

definition and_then :: "'e + 'a \<Rightarrow> ('a \<Rightarrow> 'e + 'b) \<Rightarrow> 'e + 'b" where
  "and_then r f = (case r of Inl e \<Rightarrow> Inl e | Inr x \<Rightarrow> f x)"

definition map_err :: "('e \<Rightarrow> 'f) \<Rightarrow> 'e + 'a \<Rightarrow> 'f + 'a" where
  "map_err f r = (case r of Inl e \<Rightarrow> Inl (f e) | Inr x \<Rightarrow> Inr x)"

definition ok_or :: "'a option \<Rightarrow> 'e \<Rightarrow> 'e + 'a" where
  "ok_or r e = (case r of None \<Rightarrow> Inl e | Some x \<Rightarrow> Inr x)"

definition is_ok_and :: "('a \<Rightarrow> bool) \<Rightarrow> 'e + 'a \<Rightarrow> bool" where
  "is_ok_and P r = (case r of Inl e \<Rightarrow> False | Inr x \<Rightarrow> P x)"

definition result_ok :: "'e + 'a \<Rightarrow> 'a option" where
  "result_ok r = (case r of Inl e \<Rightarrow> None | Inr x \<Rightarrow> Some x)"

definition ensure :: "bool \<Rightarrow> 'e \<Rightarrow> 'e + unit" where
  "ensure b e = (if b then Inr () else Inl e)"

fun try_fold :: "('a \<Rightarrow> 's \<Rightarrow> 'e + 's) \<Rightarrow> 'a list \<Rightarrow> 's \<Rightarrow> 'e + 's" where
  "try_fold f [] s = Inr s"
| "try_fold f (x # xs) s = and_then (f x s) (try_fold f xs)"

fun try_map :: "('a \<Rightarrow> 'e + 'b) \<Rightarrow> 'a list \<Rightarrow> 'e + 'b list" where
  "try_map f [] = Inr []"
| "try_map f (x # xs) = and_then (f x) (\<lambda>y. and_then (try_map f xs) (\<lambda>ys. Inr (y # ys)))"

lemma and_then_simps [simp]: "and_then (Inl e) f = Inl e" "and_then (Inr x) f = f x"
  by (simp_all add: and_then_def)

lemma and_then_cong [fundef_cong]:
  "r = r' \<Longrightarrow> (\<And>x. r' = Inr x \<Longrightarrow> f x = g x) \<Longrightarrow> and_then r f = and_then r' g"
  by (cases r') simp_all

lemma and_then_Inr_iff [result_simps]: "and_then r f = Inr y \<longleftrightarrow> (\<exists>x. r = Inr x \<and> f x = Inr y)"
  by (cases r) simp_all

lemma map_err_simps [simp]: "map_err f (Inl e) = Inl (f e)" "map_err f (Inr x) = Inr x"
  by (simp_all add: map_err_def)

lemma map_err_Inr_iff [result_simps]: "map_err f r = Inr y \<longleftrightarrow> r = Inr y"
  by (cases r) simp_all

lemma ok_or_simps [simp]: "ok_or None e = Inl e" "ok_or (Some x) e = Inr x"
  by (simp_all add: ok_or_def)

lemma ok_or_Inr_iff [result_simps]: "ok_or r e = Inr y \<longleftrightarrow> r = Some y"
  by (cases r) simp_all

lemma is_ok_and_simps [simp]: "is_ok_and P (Inl e) = False" "is_ok_and P (Inr x) = P x"
  by (simp_all add: is_ok_and_def)

lemma result_ok_simps [simp]: "result_ok (Inl e) = None" "result_ok (Inr x) = Some x"
  by (simp_all add: result_ok_def)

lemma ensure_simps [simp]: "ensure True e = Inr ()" "ensure False e = Inl e"
  by (simp_all add: ensure_def)

lemma ensure_Inr_iff [result_simps]: "ensure b e = Inr u \<longleftrightarrow> b"
  by (simp add: ensure_def)

lemma try_fold_cong [fundef_cong]:
  "xs = ys \<Longrightarrow> s = t \<Longrightarrow> (\<And>x u. x \<in> set ys \<Longrightarrow> f x u = g x u) \<Longrightarrow> try_fold f xs s = try_fold g ys t"
proof (induction ys arbitrary: xs s t)
  case (Cons y ys)
  have "try_fold f ys u = try_fold g ys u" for u using Cons.IH Cons.prems(3) by simp
  then have "try_fold f ys = try_fold g ys" by blast
  with Cons.prems show ?case by simp
qed simp

lemma try_map_cong [fundef_cong]:
  "xs = ys \<Longrightarrow> (\<And>x. x \<in> set ys \<Longrightarrow> f x = g x) \<Longrightarrow> try_map f xs = try_map g ys"
  by (induction ys arbitrary: xs) simp_all

lemma try_fold_append:
  "try_fold f (xs @ ys) s = and_then (try_fold f xs s) (try_fold f ys)"
  by (induction xs arbitrary: s) (auto simp: and_then_def split: sum.splits)

lemma try_fold_invariant:
  assumes "try_fold f xs s = Inr t" and "I s"
    and "\<And>x u v. x \<in> set xs \<Longrightarrow> I u \<Longrightarrow> f x u = Inr v \<Longrightarrow> I v"
  shows "I t"
  using assms by (induction xs arbitrary: s) (auto simp: result_simps)

lemma try_fold_ensure [result_simps]:
  "try_fold (\<lambda>x u. ensure (P x) (e x)) xs () = Inr v \<longleftrightarrow> (\<forall>x \<in> set xs. P x)"
  by (induction xs) (auto simp: ensure_def)

lemma try_map_Inr_iff: "try_map f xs = Inr ys \<longleftrightarrow> list_all2 (\<lambda>x y. f x = Inr y) xs ys"
  by (induction xs arbitrary: ys) (auto simp: result_simps list_all2_Cons1)

lemma try_map_image:
  assumes "\<And>x. x \<in> set xs \<Longrightarrow> f (g x) = Inr (h x)"
  shows "try_map f (map g xs) = Inr (map h xs)"
  using assms by (induction xs) simp_all

lemma try_map_map:
  assumes "\<And>x. x \<in> set xs \<Longrightarrow> f (g x) = Inr x"
  shows "try_map f (map g xs) = Inr xs"
  using try_map_image[of xs f g "\<lambda>x. x"] assms by simp

subsection \<open>Ordering and sorting\<close>

datatype ordering = Less | Equal | Greater

definition cmp :: "'a::linorder \<Rightarrow> 'a \<Rightarrow> ordering" where
  "cmp x y = (if x < y then Less else if x = y then Equal else Greater)"

definition then_with :: "ordering \<Rightarrow> ordering \<Rightarrow> ordering" where
  "then_with a b = (case a of Equal \<Rightarrow> b | _ \<Rightarrow> a)"

fun insert_by :: "('a \<Rightarrow> 'a \<Rightarrow> ordering) \<Rightarrow> 'a \<Rightarrow> 'a list \<Rightarrow> 'a list" where
  "insert_by c x [] = [x]"
| "insert_by c x (y # ys) = (if c x y = Greater then y # insert_by c x ys else x # y # ys)"

definition sort_by :: "('a \<Rightarrow> 'a \<Rightarrow> ordering) \<Rightarrow> 'a list \<Rightarrow> 'a list" where
  "sort_by c xs = foldr (insert_by c) xs []"

lemma cmp_simps [simp]:
  "cmp x y = Less \<longleftrightarrow> x < y" "cmp x y = Equal \<longleftrightarrow> x = y" "cmp x y = Greater \<longleftrightarrow> y < x"
  by (auto simp: cmp_def)

lemma then_with_simps [simp]:
  "then_with a b = Less \<longleftrightarrow> a = Less \<or> a = Equal \<and> b = Less"
  "then_with a b = Equal \<longleftrightarrow> a = Equal \<and> b = Equal"
  "then_with a b = Greater \<longleftrightarrow> a = Greater \<or> a = Equal \<and> b = Greater"
  by (cases a; simp add: then_with_def)+

lemma mset_insert_by: "mset (insert_by c x xs) = add_mset x (mset xs)"
  by (induction xs) auto

lemma mset_sort_by [simp]: "mset (sort_by c xs) = mset xs"
  by (induction xs) (simp_all add: sort_by_def mset_insert_by)

lemma set_sort_by [simp]: "set (sort_by c xs) = set xs"
  by (metis mset_sort_by set_mset_mset)

lemma length_sort_by [simp]: "length (sort_by c xs) = length xs"
  by (metis mset_sort_by size_mset)

lemma sort_by_sorted:
  "sorted_wrt (\<lambda>x y. c x y \<noteq> Greater) xs \<Longrightarrow> sort_by c xs = xs"
proof (induction xs)
  case (Cons x xs)
  then have "sort_by c (x # xs) = insert_by c x xs" by (simp add: sort_by_def)
  also have "\<dots> = x # xs" using Cons.prems by (cases xs) simp_all
  finally show ?case .
qed (simp add: sort_by_def)

text \<open>A total preorder on the elements, as \<open>sort_by\<close> requires of its comparator.\<close>

definition comparator_on :: "'a set \<Rightarrow> ('a \<Rightarrow> 'a \<Rightarrow> ordering) \<Rightarrow> bool" where
  "comparator_on A c \<longleftrightarrow>
     (\<forall>x \<in> A. \<forall>y \<in> A. (c x y = Greater \<longleftrightarrow> c y x = Less)) \<and>
     (\<forall>x \<in> A. \<forall>y \<in> A. \<forall>z \<in> A. c x y \<noteq> Greater \<longrightarrow> c y z \<noteq> Greater \<longrightarrow> c x z \<noteq> Greater)"

lemma set_insert_by [simp]: "set (insert_by c x xs) = insert x (set xs)"
  by (metis mset_insert_by set_mset_add_mset_insert set_mset_mset)

lemma sorted_insert_by:
  assumes "comparator_on A c" and "insert x (set xs) \<subseteq> A"
    and "sorted_wrt (\<lambda>x y. c x y \<noteq> Greater) xs"
  shows "sorted_wrt (\<lambda>x y. c x y \<noteq> Greater) (insert_by c x xs)"
  using assms(2,3)
proof (induction xs)
  case (Cons y ys)
  have x: "x \<in> A" and y: "y \<in> A" and ys: "set ys \<subseteq> A" using Cons.prems(1) by auto
  show ?case
  proof (cases "c x y = Greater")
    case True
    then have "c y x \<noteq> Greater" using assms(1) x y unfolding comparator_on_def by (metis ordering.distinct(3))
    with True Cons show ?thesis by auto
  next
    case False
    have "c x z \<noteq> Greater" if z: "z \<in> set ys" for z
    proof -
      have "c y z \<noteq> Greater" using Cons.prems(2) z by simp
      with False show ?thesis using assms(1) x y z ys unfolding comparator_on_def by blast
    qed
    with False Cons.prems(2) show ?thesis by auto
  qed
qed simp

lemma sorted_sort_by:
  assumes "comparator_on (set xs) c"
  shows "sorted_wrt (\<lambda>x y. c x y \<noteq> Greater) (sort_by c xs)"
proof -
  have "sorted_wrt (\<lambda>x y. c x y \<noteq> Greater) (sort_by c ys)" if "set ys \<subseteq> set xs" for ys
    using that
  proof (induction ys)
    case (Cons y ys)
    have "insert y (set (sort_by c ys)) \<subseteq> set xs" using Cons.prems by simp
    then have "sorted_wrt (\<lambda>x y. c x y \<noteq> Greater) (insert_by c y (sort_by c ys))"
      using sorted_insert_by[OF assms] Cons by auto
    then show ?case by (simp add: sort_by_def)
  qed (simp add: sort_by_def)
  then show ?thesis by blast
qed

subsection \<open>Ordered maps\<close>

fun btree_insert :: "'k::linorder \<Rightarrow> 'v \<Rightarrow> ('k \<times> 'v) list \<Rightarrow> ('k \<times> 'v) list" where
  "btree_insert k v [] = [(k, v)]"
| "btree_insert k v ((k', v') # m) =
     (if k < k' then (k, v) # (k', v') # m
      else if k = k' then (k, v) # m
      else (k', v') # btree_insert k v m)"

definition btree_ok :: "('k::linorder \<times> 'v) list \<Rightarrow> bool" where
  "btree_ok m = sorted_wrt (<) (map fst m)"

lemma set_btree_insert:
  "btree_ok m \<Longrightarrow> set (btree_insert k v m) = insert (k, v) {e \<in> set m. fst e \<noteq> k}"
proof (induction m)
  case (Cons e m)
  then have "\<forall>x \<in> set m. fst e < fst x" and "btree_ok m" by (auto simp: btree_ok_def)
  with Cons.IH show ?case by (cases e) auto
qed simp

lemma btree_insert_ok: "btree_ok m \<Longrightarrow> btree_ok (btree_insert k v m)"
proof (induction m)
  case (Cons e m)
  then have ok: "btree_ok m" and lt: "\<forall>x \<in> set m. fst e < fst x" by (auto simp: btree_ok_def)
  have "fst e < fst x" if "fst e < k" "x \<in> set (btree_insert k v m)" for x
    using that lt set_btree_insert[OF ok] by auto
  with Cons.IH[OF ok] lt ok show ?case
    by (cases e) (auto simp: btree_ok_def not_less dest!: le_neq_trans)
qed (simp add: btree_ok_def)

lemma btree_eqI:
  "btree_ok m \<Longrightarrow> btree_ok m' \<Longrightarrow> set m = set m' \<Longrightarrow> m = m'"
proof (induction m arbitrary: m')
  case (Cons e m)
  then obtain f n where m': "m' = f # n" by (cases m') auto
  have le: "\<forall>x \<in> set m. fst e < fst x" and lf: "\<forall>x \<in> set n. fst f < fst x"
    using Cons.prems m' by (auto simp: btree_ok_def)
  have ef: "e = f"
  proof (rule ccontr)
    assume "e \<noteq> f"
    with Cons.prems(3) m' have "e \<in> set n" and "f \<in> set m" by auto
    with le lf show False by fastforce
  qed
  have "e \<notin> set m" and "f \<notin> set n" using le lf by auto
  with Cons.prems(3) m' ef have "set m = set n" by auto
  moreover have "btree_ok m" and "btree_ok n" using Cons.prems m' by (auto simp: btree_ok_def)
  ultimately show ?case using Cons.IH ef m' by blast
qed simp

subsection \<open>UTF-8\<close>

text \<open>
  A \<open>String\<close> holds well-formed UTF-8; \<open>utf8_valid\<close> is the table of well-formed byte sequences that
  \<open>core::str::from_utf8\<close> accepts.
\<close>

definition utf8_cont :: "nat \<Rightarrow> bool" where
  "utf8_cont b \<longleftrightarrow> 0x80 \<le> b \<and> b \<le> 0xBF"

fun utf8_valid :: "nat list \<Rightarrow> bool" where
  "utf8_valid [] = True"
| "utf8_valid (b # bs) =
     (if b < 0x80 then utf8_valid bs
      else case bs of
        [] \<Rightarrow> False
      | c # cs \<Rightarrow>
          if 0xC2 \<le> b \<and> b \<le> 0xDF then utf8_cont c \<and> utf8_valid cs
          else case cs of
            [] \<Rightarrow> False
          | d # ds \<Rightarrow>
              if b = 0xE0 then 0xA0 \<le> c \<and> c \<le> 0xBF \<and> utf8_cont d \<and> utf8_valid ds
              else if b = 0xED then 0x80 \<le> c \<and> c \<le> 0x9F \<and> utf8_cont d \<and> utf8_valid ds
              else if 0xE1 \<le> b \<and> b \<le> 0xEF then utf8_cont c \<and> utf8_cont d \<and> utf8_valid ds
              else case ds of
                [] \<Rightarrow> False
              | e # es \<Rightarrow>
                  if b = 0xF0 then 0x90 \<le> c \<and> c \<le> 0xBF \<and> utf8_cont d \<and> utf8_cont e \<and> utf8_valid es
                  else if b = 0xF4 then 0x80 \<le> c \<and> c \<le> 0x8F \<and> utf8_cont d \<and> utf8_cont e \<and> utf8_valid es
                  else 0xF1 \<le> b \<and> b \<le> 0xF3 \<and> utf8_cont c \<and> utf8_cont d \<and> utf8_cont e \<and> utf8_valid es)"

definition is_utf8 :: "string \<Rightarrow> bool" where
  "is_utf8 s = utf8_valid (map of_char s)"

end
