(* ===== verification/Tka_Cbor.thy ===== *)
theory Tka_Cbor
  imports Std_Result
begin

text \<open>
  The CBOR layer of the tailnet key authority (\<open>crates/tka/src/aum.rs\<close>): the limits, the scanner
  that bounds an input before it reaches the allocating decoder, the nesting check, and the accessors
  that the message types read their fields with.  The \<open>ciborium\<close> crate is a parameter: its \<open>Value\<close> as
  data, its reader, its writer and its comparison of integers as functions; so are the other libraries
  of the crate.  A \<open>usize\<close> has 64 bits, so
  the conversions of a length from \<open>u64\<close> never fail.
\<close>

datatype cbor_value =
    CInteger int
  | CBytes bytes
  | CFloat u64
  | CText string
  | CBool bool
  | CNull
  | CTag u64 cbor_value
  | CArray "cbor_value list"
  | CMap "(cbor_value \<times> cbor_value) list"

text \<open>
  The third-party functions that the crate calls: the \<open>ciborium\<close> writer and reader and its order of
  integers, BLAKE2s, base32, and of Ed25519 whether bytes are a public key and strict verification of a
  signature by a key over a digest.
\<close>

record tka_lib =
  cb_into_writer :: "cbor_value \<Rightarrow> bytes"
  cb_from_reader :: "bytes \<Rightarrow> string + cbor_value"
  cb_canonical_cmp :: "int \<Rightarrow> int \<Rightarrow> ordering"
  blake2s_256 :: "bytes \<Rightarrow> bytes"
  base32_encode :: "bytes \<Rightarrow> string"
  base32_decode :: "string \<Rightarrow> string + bytes"
  ed_from_bytes :: "bytes \<Rightarrow> bool"
  ed_verify_strict :: "bytes \<Rightarrow> bytes \<Rightarrow> bytes \<Rightarrow> bool"

definition MAX_NESTING :: nat where "MAX_NESTING = 16"

definition MAX_CBOR_BYTES :: nat where "MAX_CBOR_BYTES = 1024 * 1024"

definition MAX_ARRAY_ELEMENTS :: nat where "MAX_ARRAY_ELEMENTS = 4096"

definition MAX_MAP_PAIRS :: nat where "MAX_MAP_PAIRS = 1024"

datatype decode_error =
    CborFailed string
  | InputTooLarge nat
  | TooManyArrayElements nat
  | TooManyMapPairs nat
  | NotAMap
  | NotAnArray
  | NotBytes
  | NotText
  | NotUint
  | DuplicateKey
  | MissingField nat
  | NestingTooDeep nat
  | InvalidAumKind u64
  | InvalidSigKind u64
  | InvalidKeyKind u64
  | TypeMismatch nat

subsection \<open>Scanning an input\<close>

definition read_fixed :: "nat \<Rightarrow> bytes \<Rightarrow> nat \<Rightarrow> decode_error + bytes" where
  "read_fixed n data start =
     (if 2 ^ 64 \<le> start + n then Inl (CborFailed ''length overflow'')
      else if length data < start + n then Inl (CborFailed ''truncated argument'')
      else Inr (take n (drop start data)))"

definition scan_argument :: "bytes \<Rightarrow> nat \<Rightarrow> u8 \<Rightarrow> decode_error + nat \<times> nat" where
  "scan_argument data start additional =
     (if unat additional \<le> 23 then Inr (unat additional, start + 1)
      else if additional = 24 then
        and_then (read_fixed 1 data (start + 1)) (\<lambda>b. Inr (unat (b ! 0), start + 2))
      else if additional = 25 then
        and_then (read_fixed 2 data (start + 1)) (\<lambda>b. Inr (unat (from_be_bytes b :: u16), start + 3))
      else if additional = 26 then
        and_then (read_fixed 4 data (start + 1)) (\<lambda>b. Inr (unat (from_be_bytes b :: u32), start + 5))
      else if additional = 27 then
        and_then (read_fixed 8 data (start + 1)) (\<lambda>b. Inr (unat (from_be_bytes b :: u64), start + 9))
      else if additional = 31 then Inl (CborFailed ''indefinite-length CBOR is forbidden'')
      else Inl (CborFailed ''invalid additional information''))"

text \<open>\<open>scan_cbor_items\<close> is the loop over the elements of an array, or over the keys and values of a map.\<close>

function scan_cbor_item :: "bytes \<Rightarrow> nat \<Rightarrow> nat \<Rightarrow> decode_error + nat"
  and scan_cbor_items :: "bytes \<Rightarrow> nat \<Rightarrow> nat \<Rightarrow> nat \<Rightarrow> decode_error + nat" where
  "scan_cbor_item data start depth =
     (if MAX_NESTING < depth then Inl (NestingTooDeep MAX_NESTING)
      else if length data \<le> start then Inl (CborFailed ''truncated item'')
      else let initial = data ! start;
               major = drop_bit 5 initial;
               additional = initial AND 0x1f
           in and_then (scan_argument data start additional) (\<lambda>(argument, cursor).
        if major = 0 \<or> major = 1 \<or> major = 7 then Inr cursor
        else if major = 2 \<or> major = 3 then
          if cursor + argument < 2 ^ 64 \<and> cursor + argument \<le> length data then Inr (cursor + argument)
          else Inl (CborFailed ''declared string exceeds input'')
        else if major = 4 then
          if MAX_ARRAY_ELEMENTS < argument then Inl (TooManyArrayElements MAX_ARRAY_ELEMENTS)
          else scan_cbor_items data argument cursor (depth + 1)
        else if major = 5 then
          if MAX_MAP_PAIRS < argument then Inl (TooManyMapPairs MAX_MAP_PAIRS)
          else scan_cbor_items data (2 * argument) cursor (depth + 1)
        else if major = 6 then Inl (CborFailed ''CBOR tags are forbidden'')
        else Inl (CborFailed ''invalid CBOR major type'')))"
| "scan_cbor_items data n cursor depth =
     (if n = 0 then Inr cursor
      else and_then (scan_cbor_item data cursor depth) (\<lambda>c. scan_cbor_items data (n - 1) c depth))"
  by pat_completeness auto
termination
  by (relation "measures [\<lambda>x. case x of Inl (_, _, d) \<Rightarrow> 2 * (17 - d) | Inr (_, _, _, d) \<Rightarrow> 2 * (17 - d) + 1,
        \<lambda>x. case x of Inl _ \<Rightarrow> 0 | Inr (_, n, _, _) \<Rightarrow> n]")
     (auto simp: MAX_NESTING_def)

declare scan_cbor_item.simps [simp del] scan_cbor_items.simps [simp del]

subsection \<open>Values\<close>

function check_nesting :: "cbor_value \<Rightarrow> nat \<Rightarrow> decode_error + unit" where
  "check_nesting v depth =
     (if MAX_NESTING < depth then Inl (NestingTooDeep MAX_NESTING)
      else case v of
        CMap m \<Rightarrow>
          try_fold (\<lambda>e _. and_then (check_nesting (fst e) (depth + 1)) (\<lambda>_. check_nesting (snd e) (depth + 1))) m ()
      | CArray a \<Rightarrow> try_fold (\<lambda>item _. check_nesting item (depth + 1)) a ()
      | _ \<Rightarrow> Inr ())"
  by pat_completeness auto
termination
  by (relation "measure (\<lambda>(v, d). 17 - d)") (auto simp: MAX_NESTING_def)

declare check_nesting.simps [simp del]

definition encode_value :: "tka_lib \<Rightarrow> cbor_value \<Rightarrow> bytes" where
  "encode_value lib v = cb_into_writer lib v"

definition decode_value :: "tka_lib \<Rightarrow> bytes \<Rightarrow> decode_error + cbor_value" where
  "decode_value lib data =
     (if MAX_CBOR_BYTES < length data then Inl (InputTooLarge (length data))
      else and_then (scan_cbor_item data 0 0) (\<lambda>consumed.
        if consumed \<noteq> length data then Inl (CborFailed ''trailing data'')
        else and_then (map_err CborFailed (cb_from_reader lib data)) (\<lambda>val.
          and_then (check_nesting val 0) (\<lambda>_. Inr val))))"

fun expect_map :: "cbor_value \<Rightarrow> decode_error + (cbor_value \<times> cbor_value) list" where
  "expect_map (CMap m) = Inr m"
| "expect_map _ = Inl NotAMap"

fun expect_array :: "cbor_value \<Rightarrow> decode_error + cbor_value list" where
  "expect_array (CArray a) = Inr a"
| "expect_array _ = Inl NotAnArray"

fun expect_bytes :: "cbor_value \<Rightarrow> decode_error + bytes" where
  "expect_bytes (CBytes b) = Inr b"
| "expect_bytes _ = Inl NotBytes"

fun expect_text :: "cbor_value \<Rightarrow> decode_error + string" where
  "expect_text (CText s) = Inr s"
| "expect_text _ = Inl NotText"

text \<open>\<open>u64::try_from\<close> of the integer, read as an \<open>i128\<close>.\<close>

fun expect_uint :: "cbor_value \<Rightarrow> decode_error + u64" where
  "expect_uint (CInteger i) = (if 0 \<le> i \<and> i < 2 ^ 64 then Inr (word_of_int i) else Inl NotUint)"
| "expect_uint _ = Inl NotUint"

fun expect_key :: "cbor_value \<Rightarrow> decode_error + u64" where
  "expect_key (CInteger i) = (if 0 \<le> i \<and> i < 2 ^ 64 then Inr (word_of_int i) else Inl NotUint)"
| "expect_key _ = Inl NotUint"

definition set_unique :: "'a option \<Rightarrow> 'a \<Rightarrow> decode_error + 'a option" where
  "set_unique slot val = (case slot of Some _ \<Rightarrow> Inl DuplicateKey | None \<Rightarrow> Inr (Some val))"

definition canonical_key_cmp :: "tka_lib \<Rightarrow> cbor_value \<Rightarrow> cbor_value \<Rightarrow> ordering" where
  "canonical_key_cmp lib a b =
     (case a of
        CInteger x \<Rightarrow> (case b of CInteger y \<Rightarrow> cb_canonical_cmp lib x y | _ \<Rightarrow> Less)
      | CBytes x \<Rightarrow>
          (case b of
             CInteger _ \<Rightarrow> Greater
           | CBytes y \<Rightarrow> then_with (cmp (length x) (length y)) (cmp x y)
           | _ \<Rightarrow> Less)
      | CText x \<Rightarrow>
          (case b of
             CInteger _ \<Rightarrow> Greater
           | CBytes _ \<Rightarrow> Greater
           | CText y \<Rightarrow> then_with (cmp (length x) (length y)) (cmp x y)
           | _ \<Rightarrow> Less)
      | _ \<Rightarrow> (case b of CInteger _ \<Rightarrow> Greater | CBytes _ \<Rightarrow> Greater | CText _ \<Rightarrow> Greater | _ \<Rightarrow> Equal))"

text \<open>Sorting the entries of a map by their keys, as the macro \<open>canonical_map!\<close> and the encoders do.\<close>

definition canonical_sort :: "tka_lib \<Rightarrow> (cbor_value \<times> cbor_value) list \<Rightarrow> (cbor_value \<times> cbor_value) list" where
  "canonical_sort lib m = sort_by (\<lambda>a b. canonical_key_cmp lib (fst a) (fst b)) m"

end
