(* ===== verification/Tka_Types.thy ===== *)
theory Tka_Types
  imports Tka_Cbor
begin

text \<open>
  The messages of the tailnet key authority: trusted keys (\<open>crates/tka/src/key.rs\<close>), the authority state
  (\<open>state.rs\<close>) and the authority update messages, AUMs (\<open>aum.rs\<close>), with their validation, their CBOR
  values and their hashes.  Error messages are constructors of \<open>reason\<close>, one for each text of the source
  with the numbers it prints.
\<close>

datatype reason =
    InvalidKeyKindText
  | UnrecognizedKeyKind
  | PublicKeyLength nat
  | VotesOutOfRange u64
  | MetadataTooLarge nat
  | LastAumHashGiven
  | DisablementCount
  | DisablementLength nat nat
  | DisablementDuplicated nat
  | KeyCount
  | KeyAt nat reason
  | KeyDuplicated nat
  | ParentHashLength nat
  | MalformedSignature nat
  | AddKeyNeedsKey
  | AddKeyOnlyKey
  | RemoveKeyNeedsId
  | RemoveKeyOnlyId
  | UpdateKeyNeedsId
  | UpdateKeyEmptyMeta
  | UpdateKeyNoChange
  | UpdateKeyOnlyIdVotesMeta
  | CheckpointNeedsState
  | CheckpointOnlyState
  | InvalidAumKindText
  | ParentMismatch
  | MissingCheckpointState
  | WrongStateIds
  | MissingKey
  | KeyAlreadyExists
  | MissingKeyId
  | KeyNotFound
  | UpdatedKeyInvalid reason

subsection \<open>Keys\<close>

datatype key_kind = KeyKindInvalid | Key25519

definition key_kind_to_u8 :: "key_kind \<Rightarrow> u8" where
  "key_kind_to_u8 k = (case k of KeyKindInvalid \<Rightarrow> 0 | Key25519 \<Rightarrow> 1)"

definition key_kind_from_u64 :: "u64 \<Rightarrow> key_kind option" where
  "key_kind_from_u64 v = (if v = 0 then Some KeyKindInvalid else if v = 1 then Some Key25519 else None)"

type_synonym meta = "(string \<times> string) list"

record tka_key =
  k_kind :: key_kind
  k_votes :: u64
  k_public :: bytes
  k_meta :: "meta option"

definition tka_key_id :: "tka_key \<Rightarrow> reason + bytes" where
  "tka_key_id k = (case k_kind k of Key25519 \<Rightarrow> Inr (k_public k) | KeyKindInvalid \<Rightarrow> Inl InvalidKeyKindText)"

definition meta_len :: "meta \<Rightarrow> nat" where
  "meta_len m = sum_list (map (\<lambda>(k, v). length k + length v) m)"

definition tka_key_validate :: "tka_key \<Rightarrow> reason + unit" where
  "tka_key_validate k =
     (if k_kind k \<noteq> Key25519 then Inl UnrecognizedKeyKind
      else if length (k_public k) \<noteq> 32 then Inl (PublicKeyLength (length (k_public k)))
      else if k_votes k = 0 \<or> 4096 < k_votes k then Inl (VotesOutOfRange (k_votes k))
      else let meta_bytes = (case k_meta k of None \<Rightarrow> 0 | Some m \<Rightarrow> meta_len m)
           in if 512 < meta_bytes then Inl (MetadataTooLarge meta_bytes) else Inr ())"

text \<open>Metadata maps are written sorted by canonical key order and read back into an ordered map.\<close>

definition meta_to_value :: "tka_lib \<Rightarrow> meta \<Rightarrow> cbor_value" where
  "meta_to_value lib m = CMap (canonical_sort lib (map (\<lambda>(k, v). (CText k, CText v)) m))"

definition meta_entry :: "cbor_value \<times> cbor_value \<Rightarrow> meta \<Rightarrow> decode_error + meta" where
  "meta_entry e m =
     and_then (expect_text (fst e)) (\<lambda>mk.
     and_then (expect_text (snd e)) (\<lambda>mv.
       if map_of m mk \<noteq> None then Inl DuplicateKey else Inr (btree_insert mk mv m)))"

definition meta_from_value :: "cbor_value \<Rightarrow> decode_error + meta" where
  "meta_from_value v = and_then (expect_map v) (\<lambda>entries. try_fold meta_entry entries [])"

definition key_to_value :: "tka_lib \<Rightarrow> tka_key \<Rightarrow> cbor_value" where
  "key_to_value lib k =
     (let entries =
        [(CInteger 1, CInteger (uint (key_kind_to_u8 (k_kind k)))),
         (CInteger 2, CInteger (uint (k_votes k))),
         (CInteger 3, CBytes (k_public k))] @
        (case k_meta k of
           None \<Rightarrow> []
         | Some m \<Rightarrow> if m = [] then [] else [(CInteger 12, meta_to_value lib m)])
      in CMap (canonical_sort lib entries))"

record key_slots =
  ks_kind :: "key_kind option"
  ks_votes :: "u64 option"
  ks_public :: "bytes option"
  ks_meta :: "meta option"

definition key_field :: "cbor_value \<times> cbor_value \<Rightarrow> key_slots \<Rightarrow> decode_error + key_slots" where
  "key_field e s =
     and_then (expect_key (fst e)) (\<lambda>field.
       let v = snd e in
       if field = 1 then
         and_then (expect_uint v) (\<lambda>n.
         and_then (ok_or (key_kind_from_u64 n) (InvalidKeyKind n)) (\<lambda>kind.
         and_then (set_unique (ks_kind s) kind) (\<lambda>x. Inr (s\<lparr>ks_kind := x\<rparr>))))
       else if field = 2 then
         and_then (expect_uint v) (\<lambda>n. and_then (set_unique (ks_votes s) n) (\<lambda>x. Inr (s\<lparr>ks_votes := x\<rparr>)))
       else if field = 3 then
         and_then (expect_bytes v) (\<lambda>b. and_then (set_unique (ks_public s) b) (\<lambda>x. Inr (s\<lparr>ks_public := x\<rparr>)))
       else if field = 12 then
         and_then (meta_from_value v) (\<lambda>m. and_then (set_unique (ks_meta s) m) (\<lambda>x. Inr (s\<lparr>ks_meta := x\<rparr>)))
       else Inr s)"

definition key_from_value :: "cbor_value \<Rightarrow> decode_error + tka_key" where
  "key_from_value v =
     and_then (expect_map v) (\<lambda>m.
     and_then (try_fold key_field m \<lparr>ks_kind = None, ks_votes = None, ks_public = None, ks_meta = None\<rparr>) (\<lambda>s.
     and_then (ok_or (ks_kind s) (MissingField 1)) (\<lambda>kind.
     and_then (ok_or (ks_votes s) (MissingField 2)) (\<lambda>votes.
     and_then (ok_or (ks_public s) (MissingField 3)) (\<lambda>public.
       Inr \<lparr>k_kind = kind, k_votes = votes, k_public = public, k_meta = ks_meta s\<rparr>)))))"

definition key_encode :: "tka_lib \<Rightarrow> tka_key \<Rightarrow> bytes" where
  "key_encode lib k = encode_value lib (key_to_value lib k)"

definition key_decode :: "tka_lib \<Rightarrow> bytes \<Rightarrow> decode_error + tka_key" where
  "key_decode lib data = and_then (decode_value lib data) key_from_value"

subsection \<open>The authority state\<close>

record tka_state =
  st_last_aum_hash :: "bytes option"
  st_disablement_values :: "bytes list"
  st_keys :: "tka_key list"
  st_state_id1 :: u64
  st_state_id2 :: u64

definition has_id :: "bytes \<Rightarrow> tka_key \<Rightarrow> bool" where
  "has_id key_id k = is_ok_and (\<lambda>id. id = key_id) (tka_key_id k)"

definition state_key :: "tka_state \<Rightarrow> bytes \<Rightarrow> tka_key option" where
  "state_key s key_id = find (has_id key_id) (st_keys s)"

definition validate_checkpoint :: "tka_state \<Rightarrow> reason + unit" where
  "validate_checkpoint s =
     (if st_last_aum_hash s \<noteq> None then Inl LastAumHashGiven
      else if st_disablement_values s = [] \<or> 32 < length (st_disablement_values s) then Inl DisablementCount
      else
        and_then (try_fold (\<lambda>(index, value) _.
            if length value \<noteq> 32 then Inl (DisablementLength index (length value))
            else if value \<in> set (take index (st_disablement_values s)) then Inl (DisablementDuplicated index)
            else Inr ()) (enumerate 0 (st_disablement_values s)) ()) (\<lambda>_.
        if st_keys s = [] \<or> 512 < length (st_keys s) then Inl KeyCount
        else
          try_fold (\<lambda>(index, key) _.
            and_then (map_err (KeyAt index) (tka_key_validate key)) (\<lambda>_.
            and_then (tka_key_id key) (\<lambda>id.
              if list_ex (has_id id) (take index (st_keys s))
              then Inl (KeyDuplicated index)
              else Inr ()))) (enumerate 0 (st_keys s)) ()))"

definition state_to_value :: "tka_lib \<Rightarrow> tka_state \<Rightarrow> cbor_value" where
  "state_to_value lib s =
     (let entries =
        [(CInteger 1, case st_last_aum_hash s of Some h \<Rightarrow> CBytes h | None \<Rightarrow> CNull),
         (CInteger 2, CArray (map CBytes (st_disablement_values s))),
         (CInteger 3, CArray (map (key_to_value lib) (st_keys s)))] @
        (if st_state_id1 s \<noteq> 0 then [(CInteger 4, CInteger (uint (st_state_id1 s)))] else []) @
        (if st_state_id2 s \<noteq> 0 then [(CInteger 5, CInteger (uint (st_state_id2 s)))] else [])
      in CMap (canonical_sort lib entries))"

record state_slots =
  ss_last_aum_hash :: "bytes option option"
  ss_disablement_values :: "bytes list option"
  ss_keys :: "tka_key list option"
  ss_state_id1 :: "u64 option"
  ss_state_id2 :: "u64 option"

definition nullable_bytes :: "nat \<Rightarrow> cbor_value \<Rightarrow> decode_error + bytes option" where
  "nullable_bytes field v =
     (case v of CNull \<Rightarrow> Inr None | CBytes b \<Rightarrow> Inr (Some b) | _ \<Rightarrow> Inl (TypeMismatch field))"

definition state_field :: "cbor_value \<times> cbor_value \<Rightarrow> state_slots \<Rightarrow> decode_error + state_slots" where
  "state_field e s =
     and_then (expect_key (fst e)) (\<lambda>field.
       let v = snd e in
       if field = 1 then
         and_then (nullable_bytes 1 v) (\<lambda>h.
         and_then (set_unique (ss_last_aum_hash s) h) (\<lambda>x. Inr (s\<lparr>ss_last_aum_hash := x\<rparr>)))
       else if field = 2 then
         and_then (expect_array v) (\<lambda>arr.
         and_then (try_map expect_bytes arr) (\<lambda>out.
         and_then (set_unique (ss_disablement_values s) out) (\<lambda>x. Inr (s\<lparr>ss_disablement_values := x\<rparr>))))
       else if field = 3 then
         and_then (expect_array v) (\<lambda>arr.
         and_then (try_map key_from_value arr) (\<lambda>out.
         and_then (set_unique (ss_keys s) out) (\<lambda>x. Inr (s\<lparr>ss_keys := x\<rparr>))))
       else if field = 4 then
         and_then (expect_uint v) (\<lambda>n. and_then (set_unique (ss_state_id1 s) n) (\<lambda>x. Inr (s\<lparr>ss_state_id1 := x\<rparr>)))
       else if field = 5 then
         and_then (expect_uint v) (\<lambda>n. and_then (set_unique (ss_state_id2 s) n) (\<lambda>x. Inr (s\<lparr>ss_state_id2 := x\<rparr>)))
       else Inr s)"

definition state_from_value :: "cbor_value \<Rightarrow> decode_error + tka_state" where
  "state_from_value v =
     and_then (expect_map v) (\<lambda>m.
     and_then (try_fold state_field m
       \<lparr>ss_last_aum_hash = None, ss_disablement_values = None, ss_keys = None,
        ss_state_id1 = None, ss_state_id2 = None\<rparr>) (\<lambda>s.
     and_then (ok_or (ss_disablement_values s) (MissingField 2)) (\<lambda>dv.
     and_then (ok_or (ss_keys s) (MissingField 3)) (\<lambda>keys.
       Inr \<lparr>st_last_aum_hash = (case ss_last_aum_hash s of None \<Rightarrow> None | Some h \<Rightarrow> h),
            st_disablement_values = dv, st_keys = keys,
            st_state_id1 = (case ss_state_id1 s of None \<Rightarrow> 0 | Some n \<Rightarrow> n),
            st_state_id2 = (case ss_state_id2 s of None \<Rightarrow> 0 | Some n \<Rightarrow> n)\<rparr>))))"

definition state_encode :: "tka_lib \<Rightarrow> tka_state \<Rightarrow> bytes" where
  "state_encode lib s = encode_value lib (state_to_value lib s)"

definition state_decode :: "tka_lib \<Rightarrow> bytes \<Rightarrow> decode_error + tka_state" where
  "state_decode lib data = and_then (decode_value lib data) state_from_value"

subsection \<open>Authority update messages\<close>

type_synonym aum_hash = bytes

definition hash_from_slice :: "bytes \<Rightarrow> aum_hash option" where
  "hash_from_slice bs = (if length bs = 32 then Some bs else None)"

datatype aum_kind = AumInvalid | AddKey | RemoveKey | NoOp | UpdateKey | Checkpoint

definition aum_kind_to_u8 :: "aum_kind \<Rightarrow> u8" where
  "aum_kind_to_u8 k =
     (case k of AumInvalid \<Rightarrow> 0 | AddKey \<Rightarrow> 1 | RemoveKey \<Rightarrow> 2 | NoOp \<Rightarrow> 3 | UpdateKey \<Rightarrow> 4 | Checkpoint \<Rightarrow> 5)"

definition aum_kind_from_u64 :: "u64 \<Rightarrow> aum_kind option" where
  "aum_kind_from_u64 v =
     (if v = 0 then Some AumInvalid else if v = 1 then Some AddKey else if v = 2 then Some RemoveKey
      else if v = 3 then Some NoOp else if v = 4 then Some UpdateKey else if v = 5 then Some Checkpoint
      else None)"

record tka_signature =
  sg_key_id :: bytes
  sg_signature :: bytes

definition signature_to_value :: "tka_lib \<Rightarrow> tka_signature \<Rightarrow> cbor_value" where
  "signature_to_value lib s =
     CMap (canonical_sort lib [(CInteger 1, CBytes (sg_key_id s)), (CInteger 2, CBytes (sg_signature s))])"

definition signature_field ::
  "cbor_value \<times> cbor_value \<Rightarrow> bytes option \<times> bytes option \<Rightarrow> decode_error + bytes option \<times> bytes option" where
  "signature_field e s =
     and_then (expect_key (fst e)) (\<lambda>field.
       if field = 1 then
         and_then (expect_bytes (snd e)) (\<lambda>b. and_then (set_unique (fst s) b) (\<lambda>x. Inr (x, snd s)))
       else if field = 2 then
         and_then (expect_bytes (snd e)) (\<lambda>b. and_then (set_unique (snd s) b) (\<lambda>x. Inr (fst s, x)))
       else Inr s)"

definition signature_from_value :: "cbor_value \<Rightarrow> decode_error + tka_signature" where
  "signature_from_value v =
     and_then (expect_map v) (\<lambda>m.
     and_then (try_fold signature_field m (None, None)) (\<lambda>s.
     and_then (ok_or (fst s) (MissingField 1)) (\<lambda>key_id.
     and_then (ok_or (snd s) (MissingField 2)) (\<lambda>signature.
       Inr \<lparr>sg_key_id = key_id, sg_signature = signature\<rparr>))))"

definition signature_encode :: "tka_lib \<Rightarrow> tka_signature \<Rightarrow> bytes" where
  "signature_encode lib s =
     encode_value lib
       (CMap (canonical_sort lib [(CInteger 1, CBytes (sg_key_id s)), (CInteger 2, CBytes (sg_signature s))]))"

definition signature_decode :: "tka_lib \<Rightarrow> bytes \<Rightarrow> decode_error + tka_signature" where
  "signature_decode lib data =
     and_then (decode_value lib data) (\<lambda>val.
     and_then (expect_map val) (\<lambda>m.
     and_then (try_fold signature_field m (None, None)) (\<lambda>s.
     and_then (ok_or (fst s) (MissingField 1)) (\<lambda>key_id.
     and_then (ok_or (snd s) (MissingField 2)) (\<lambda>signature.
       Inr \<lparr>sg_key_id = key_id, sg_signature = signature\<rparr>)))))"

record aum =
  au_kind :: aum_kind
  au_prev_aum_hash :: "bytes option"
  au_key :: "tka_key option"
  au_key_id :: "bytes option"
  au_state :: "tka_state option"
  au_votes :: "u64 option"
  au_meta :: "meta option"
  au_signatures :: "tka_signature list"

definition aum_value :: "tka_lib \<Rightarrow> aum \<Rightarrow> cbor_value" where
  "aum_value lib a =
     (let entries =
        [(CInteger 1, CInteger (uint (aum_kind_to_u8 (au_kind a)))),
         (CInteger 2, case au_prev_aum_hash a of Some h \<Rightarrow> CBytes h | None \<Rightarrow> CNull)] @
        (case au_key a of None \<Rightarrow> [] | Some k \<Rightarrow> [(CInteger 3, key_to_value lib k)]) @
        (case au_key_id a of None \<Rightarrow> [] | Some kid \<Rightarrow> [(CInteger 4, CBytes kid)]) @
        (case au_state a of None \<Rightarrow> [] | Some s \<Rightarrow> [(CInteger 5, state_to_value lib s)]) @
        (case au_votes a of None \<Rightarrow> [] | Some v \<Rightarrow> [(CInteger 6, CInteger (uint v))]) @
        (case au_meta a of None \<Rightarrow> [] | Some m \<Rightarrow> if m = [] then [] else [(CInteger 7, meta_to_value lib m)]) @
        (if au_signatures a = [] then []
         else [(CInteger 23, CArray (map (signature_to_value lib) (au_signatures a)))])
      in CMap (canonical_sort lib entries))"

definition aum_encode :: "tka_lib \<Rightarrow> aum \<Rightarrow> bytes" where
  "aum_encode lib a = encode_value lib (aum_value lib a)"

record aum_slots =
  as_kind :: "aum_kind option"
  as_prev_aum_hash :: "bytes option option"
  as_key :: "tka_key option"
  as_key_id :: "bytes option"
  as_state :: "tka_state option"
  as_votes :: "u64 option"
  as_meta :: "meta option"
  as_signatures :: "tka_signature list option"

definition aum_field :: "cbor_value \<times> cbor_value \<Rightarrow> aum_slots \<Rightarrow> decode_error + aum_slots" where
  "aum_field e s =
     and_then (expect_key (fst e)) (\<lambda>field.
       let v = snd e in
       if field = 1 then
         and_then (expect_uint v) (\<lambda>n.
         and_then (ok_or (aum_kind_from_u64 n) (InvalidAumKind n)) (\<lambda>kind.
         and_then (set_unique (as_kind s) kind) (\<lambda>x. Inr (s\<lparr>as_kind := x\<rparr>))))
       else if field = 2 then
         and_then (nullable_bytes 2 v) (\<lambda>h.
         and_then (set_unique (as_prev_aum_hash s) h) (\<lambda>x. Inr (s\<lparr>as_prev_aum_hash := x\<rparr>)))
       else if field = 3 then
         and_then (key_from_value v) (\<lambda>k. and_then (set_unique (as_key s) k) (\<lambda>x. Inr (s\<lparr>as_key := x\<rparr>)))
       else if field = 4 then
         and_then (expect_bytes v) (\<lambda>b. and_then (set_unique (as_key_id s) b) (\<lambda>x. Inr (s\<lparr>as_key_id := x\<rparr>)))
       else if field = 5 then
         and_then (state_from_value v) (\<lambda>st. and_then (set_unique (as_state s) st) (\<lambda>x. Inr (s\<lparr>as_state := x\<rparr>)))
       else if field = 6 then
         and_then (expect_uint v) (\<lambda>n. and_then (set_unique (as_votes s) n) (\<lambda>x. Inr (s\<lparr>as_votes := x\<rparr>)))
       else if field = 7 then
         and_then (meta_from_value v) (\<lambda>m. and_then (set_unique (as_meta s) m) (\<lambda>x. Inr (s\<lparr>as_meta := x\<rparr>)))
       else if field = 23 then
         and_then (expect_array v) (\<lambda>arr.
         and_then (try_map signature_from_value arr) (\<lambda>sigs.
         and_then (set_unique (as_signatures s) sigs) (\<lambda>x. Inr (s\<lparr>as_signatures := x\<rparr>))))
       else Inr s)"

definition aum_from_value :: "cbor_value \<Rightarrow> decode_error + aum" where
  "aum_from_value val =
     and_then (expect_map val) (\<lambda>m.
     and_then (try_fold aum_field m
       \<lparr>as_kind = None, as_prev_aum_hash = None, as_key = None, as_key_id = None, as_state = None,
        as_votes = None, as_meta = None, as_signatures = None\<rparr>) (\<lambda>s.
     and_then (ok_or (as_kind s) (MissingField 1)) (\<lambda>kind.
       Inr \<lparr>au_kind = kind,
            au_prev_aum_hash = (case as_prev_aum_hash s of None \<Rightarrow> None | Some h \<Rightarrow> h),
            au_key = as_key s, au_key_id = as_key_id s, au_state = as_state s, au_votes = as_votes s,
            au_meta = as_meta s,
            au_signatures = (case as_signatures s of None \<Rightarrow> [] | Some sigs \<Rightarrow> sigs)\<rparr>)))"

definition aum_decode :: "tka_lib \<Rightarrow> bytes \<Rightarrow> decode_error + aum" where
  "aum_decode lib data = and_then (decode_value lib data) aum_from_value"

definition aum_parent :: "aum \<Rightarrow> aum_hash option" where
  "aum_parent a = Option.bind (au_prev_aum_hash a) hash_from_slice"

definition aum_validate :: "aum \<Rightarrow> reason + unit" where
  "aum_validate a =
     and_then (case au_prev_aum_hash a of
         None \<Rightarrow> Inr ()
       | Some parent \<Rightarrow> if length parent \<noteq> 32 then Inl (ParentHashLength (length parent)) else Inr ()) (\<lambda>_.
     and_then (try_fold (\<lambda>(index, signature) _.
         if length (sg_key_id signature) \<noteq> 32 \<or> length (sg_signature signature) \<noteq> 64
         then Inl (MalformedSignature index) else Inr ()) (enumerate 0 (au_signatures a)) ()) (\<lambda>_.
     and_then (case au_key a of None \<Rightarrow> Inr () | Some k \<Rightarrow> tka_key_validate k) (\<lambda>_.
     and_then (case au_state a of None \<Rightarrow> Inr () | Some s \<Rightarrow> validate_checkpoint s) (\<lambda>_.
       case au_kind a of
         AddKey \<Rightarrow>
           if au_key a = None then Inl AddKeyNeedsKey
           else if au_key_id a \<noteq> None \<or> au_state a \<noteq> None \<or> au_votes a \<noteq> None \<or> au_meta a \<noteq> None
           then Inl AddKeyOnlyKey else Inr ()
       | RemoveKey \<Rightarrow>
           if au_key_id a = None \<or> au_key_id a = Some [] then Inl RemoveKeyNeedsId
           else if au_key a \<noteq> None \<or> au_state a \<noteq> None \<or> au_votes a \<noteq> None \<or> au_meta a \<noteq> None
           then Inl RemoveKeyOnlyId else Inr ()
       | UpdateKey \<Rightarrow>
           if au_key_id a = None \<or> au_key_id a = Some [] then Inl UpdateKeyNeedsId
           else if au_meta a = Some [] then Inl UpdateKeyEmptyMeta
           else if au_votes a = None \<and> au_meta a = None then Inl UpdateKeyNoChange
           else if au_key a \<noteq> None \<or> au_state a \<noteq> None then Inl UpdateKeyOnlyIdVotesMeta else Inr ()
       | Checkpoint \<Rightarrow>
           if au_state a = None then Inl CheckpointNeedsState
           else if au_key a \<noteq> None \<or> au_key_id a \<noteq> None \<or> au_votes a \<noteq> None \<or> au_meta a \<noteq> None
           then Inl CheckpointOnlyState else Inr ()
       | NoOp \<Rightarrow> Inr ()
       | AumInvalid \<Rightarrow> Inl InvalidAumKindText))))"

definition aum_hash :: "tka_lib \<Rightarrow> aum \<Rightarrow> aum_hash" where
  "aum_hash lib a = blake2s_256 lib (aum_encode lib a)"

definition aum_sig_hash :: "tka_lib \<Rightarrow> aum \<Rightarrow> bytes" where
  "aum_sig_hash lib a = blake2s_256 lib (aum_encode lib (a\<lparr>au_signatures := []\<rparr>))"

text \<open>The text form of hashes: 52 base32 characters, read in either case.\<close>

datatype hash_text_error = HashTextLength nat | HashTextInvalid string | HashTextBytes nat

definition to_ascii_uppercase :: "string \<Rightarrow> string" where
  "to_ascii_uppercase s =
     map (\<lambda>c. let n = of_char c in if 97 \<le> n \<and> n \<le> (122 :: nat) then char_of (n - 32) else c) s"

definition aum_hash_display :: "tka_lib \<Rightarrow> aum_hash \<Rightarrow> string" where
  "aum_hash_display lib h = base32_encode lib h"

definition aum_hash_from_str :: "tka_lib \<Rightarrow> string \<Rightarrow> hash_text_error + aum_hash" where
  "aum_hash_from_str lib s =
     (if length s \<noteq> 52 then Inl (HashTextLength (length s))
      else and_then (map_err HashTextInvalid (base32_decode lib (to_ascii_uppercase s))) (\<lambda>bs.
        if length bs \<noteq> 32 then Inl (HashTextBytes (length bs)) else Inr bs))"

end
