(* ===== verification/Tka_Scan.thy ===== *)
theory Tka_Scan
  imports Tka_Cbor
begin

text \<open>
  What the CBOR scanner of \<open>crates/tka/src/aum.rs\<close> accepts, against a grammar of bounded definite-length
  items, and that every value within the limits is accepted in the encoding of RFC 8949.
\<close>

subsection \<open>What the scanner accepts\<close>

text \<open>
  The reference: definite-length CBOR items without tags, nested at most \<open>MAX_NESTING\<close> levels below
  the outermost one and with containers of bounded size.  \<open>cbor_head m n h\<close> says that \<open>h\<close> is an initial
  byte of major type \<open>m\<close> followed by the bytes of its argument \<open>n\<close>, in any of the widths of RFC 8949.
\<close>

definition cbor_head :: "nat \<Rightarrow> nat \<Rightarrow> bytes \<Rightarrow> bool" where
  "cbor_head m n h \<longleftrightarrow> m < 8 \<and>
     (n < 24 \<and> h = [of_nat (32 * m + n)]
      \<or> (\<exists>w :: u8. n = unat w \<and> h = of_nat (32 * m + 24) # to_be_bytes w)
      \<or> (\<exists>w :: u16. n = unat w \<and> h = of_nat (32 * m + 25) # to_be_bytes w)
      \<or> (\<exists>w :: u32. n = unat w \<and> h = of_nat (32 * m + 26) # to_be_bytes w)
      \<or> (\<exists>w :: u64. n = unat w \<and> h = of_nat (32 * m + 27) # to_be_bytes w))"

inductive cbor_item :: "nat \<Rightarrow> bytes \<Rightarrow> bool" and cbor_items :: "nat \<Rightarrow> nat \<Rightarrow> bytes \<Rightarrow> bool" where
  item_atom: "d \<le> MAX_NESTING \<Longrightarrow> cbor_head m n h \<Longrightarrow> m = 0 \<or> m = 1 \<or> m = 7 \<Longrightarrow> cbor_item d h"
| item_string: "d \<le> MAX_NESTING \<Longrightarrow> cbor_head m n h \<Longrightarrow> m = 2 \<or> m = 3 \<Longrightarrow> length s = n \<Longrightarrow> cbor_item d (h @ s)"
| item_array: "d \<le> MAX_NESTING \<Longrightarrow> cbor_head 4 n h \<Longrightarrow> n \<le> MAX_ARRAY_ELEMENTS \<Longrightarrow>
    cbor_items (d + 1) n body \<Longrightarrow> cbor_item d (h @ body)"
| item_map: "d \<le> MAX_NESTING \<Longrightarrow> cbor_head 5 n h \<Longrightarrow> n \<le> MAX_MAP_PAIRS \<Longrightarrow>
    cbor_items (d + 1) (2 * n) body \<Longrightarrow> cbor_item d (h @ body)"
| items_none: "cbor_items d 0 []"
| items_more: "cbor_item d x \<Longrightarrow> cbor_items d n xs \<Longrightarrow> cbor_items d (Suc n) (x @ xs)"

lemma cbor_headI:
  "m < 8 \<Longrightarrow> n < 24 \<Longrightarrow> cbor_head m n [of_nat (32 * m + n)]"
  "m < 8 \<Longrightarrow> cbor_head m (unat (w8 :: u8)) (of_nat (32 * m + 24) # to_be_bytes w8)"
  "m < 8 \<Longrightarrow> cbor_head m (unat (w16 :: u16)) (of_nat (32 * m + 25) # to_be_bytes w16)"
  "m < 8 \<Longrightarrow> cbor_head m (unat (w32 :: u32)) (of_nat (32 * m + 26) # to_be_bytes w32)"
  "m < 8 \<Longrightarrow> cbor_head m (unat (w64 :: u64)) (of_nat (32 * m + 27) # to_be_bytes w64)"
  unfolding cbor_head_def by blast+

lemma initial_byte:
  fixes b :: u8
  shows "unat (drop_bit 5 b) = unat b div 32" and "unat (b AND 0x1f) = unat b mod 32"
    and "b = of_nat (32 * unat (drop_bit 5 b) + unat (b AND 0x1f))"
proof -
  show 1: "unat (drop_bit 5 b) = unat b div 32" by (simp add: drop_bit_eq_div unat_div_distrib)
  have "(0x1f :: u8) = mask 5" by (simp add: mask_eq_exp_minus_1)
  then have 0: "b AND 0x1f = take_bit 5 b" by (simp add: take_bit_eq_mask)
  have 3: "unat (take_bit 5 b) = take_bit 5 (unat b)" by (simp add: unsigned_take_bit_eq)
  have 4: "take_bit 5 (unat b) = unat b mod 32" by (simp add: take_bit_nat_def)
  show 2: "unat (b AND 0x1f) = unat b mod 32" unfolding 0 3 4 ..
  show "b = of_nat (32 * unat (drop_bit 5 b) + unat (b AND 0x1f))" unfolding 1 2 by simp
qed

lemma compose_initial_byte:
  assumes "m < 8" and "a < 32"
  shows "drop_bit 5 (of_nat (32 * m + a) :: u8) = of_nat m" and "(of_nat (32 * m + a) :: u8) AND 0x1f = of_nat a"
proof -
  have small: "unat (of_nat k :: u8) = k" if "k < 256" for k
    using that by (simp add: unsigned_of_nat take_bit_nat_eq_self)
  have u: "unat (of_nat (32 * m + a) :: u8) = 32 * m + a" using assms by (intro small) simp
  have "unat (drop_bit 5 (of_nat (32 * m + a) :: u8)) = unat (of_nat m :: u8)"
    unfolding initial_byte(1) u using assms by (simp add: small)
  then show "drop_bit 5 (of_nat (32 * m + a) :: u8) = of_nat m" by (simp only: word_unat_eq_iff)
  have "unat ((of_nat (32 * m + a) :: u8) AND 0x1f) = unat (of_nat a :: u8)"
    unfolding initial_byte(2) u using assms by (simp add: small)
  then show "(of_nat (32 * m + a) :: u8) AND 0x1f = of_nat a" by (simp only: word_unat_eq_iff)
qed

lemma read_fixed_Inr [result_simps]:
  "read_fixed n data start = Inr b \<longleftrightarrow>
     start + n < 2 ^ 64 \<and> start + n \<le> length data \<and> b = take n (drop start data)"
  by (auto simp: read_fixed_def)

lemma to_be_bytes_u8: "to_be_bytes (w :: u8) = [w]"
  by (simp add: to_be_bytes_def)

lemma scan_argument_Inr:
  assumes "scan_argument data s a = Inr (n, c)"
  obtains "unat a < 24" "n = unat a" "c = s + 1"
  | w :: u8 where "a = 24" "n = unat w" "c = s + 2" "c \<le> length data" "take 1 (drop (s + 1) data) = to_be_bytes w"
  | w :: u16 where "a = 25" "n = unat w" "c = s + 3" "c \<le> length data" "take 2 (drop (s + 1) data) = to_be_bytes w"
  | w :: u32 where "a = 26" "n = unat w" "c = s + 5" "c \<le> length data" "take 4 (drop (s + 1) data) = to_be_bytes w"
  | w :: u64 where "a = 27" "n = unat w" "c = s + 9" "c \<le> length data" "take 8 (drop (s + 1) data) = to_be_bytes w"
proof -
  consider "unat a \<le> 23" | "\<not> unat a \<le> 23" "a = 24" | "\<not> unat a \<le> 23" "a = 25" | "\<not> unat a \<le> 23" "a = 26"
    | "\<not> unat a \<le> 23" "a = 27" | "\<not> unat a \<le> 23" "a \<noteq> 24" "a \<noteq> 25" "a \<noteq> 26" "a \<noteq> 27"
    by blast
  then show thesis
  proof cases
    case 1
    with assms show thesis by (intro that(1)) (simp_all add: scan_argument_def)
  next
    case 2
    with assms have c: "c = s + 2" "c \<le> length data" "n = unat (take 1 (drop (s + 1) data) ! 0)"
      by (auto simp: scan_argument_def result_simps)
    have "take 1 (drop (s + 1) data) = [take 1 (drop (s + 1) data) ! 0]"
      using c by (cases "drop (s + 1) data") auto
    then show thesis using c 2 by (intro that(2)[of "take 1 (drop (s + 1) data) ! 0"]) (simp_all only: to_be_bytes_u8)
  next
    case 3
    with assms show thesis
      by (intro that(3)[of "from_be_bytes (take 2 (drop (s + 1) data))"]) (auto simp: scan_argument_def result_simps)
  next
    case 4
    with assms show thesis
      by (intro that(4)[of "from_be_bytes (take 4 (drop (s + 1) data))"]) (auto simp: scan_argument_def result_simps)
  next
    case 5
    with assms show thesis
      by (intro that(5)[of "from_be_bytes (take 8 (drop (s + 1) data))"]) (auto simp: scan_argument_def result_simps)
  next
    case 6
    with assms show thesis by (simp add: scan_argument_def split: if_splits)
  qed
qed

lemma scan_argument_head:
  assumes arg: "scan_argument data s (data ! s AND 0x1f) = Inr (n, c)" and s: "s < length data"
  shows "s < c" and "c \<le> length data"
    and "cbor_head (unat (drop_bit 5 (data ! s))) n (take (c - s) (drop s data))"
proof -
  let ?b = "data ! s"
  let ?m = "unat (drop_bit 5 ?b)"
  have m: "?m < 8" using unat_less_2p[of ?b] by (simp add: initial_byte(1) less_mult_imp_div_less)
  have b: "?b = of_nat (32 * ?m + unat (?b AND 0x1f))" by (rule initial_byte(3))
  have drop: "drop s data = ?b # drop (s + 1) data" using s by (simp add: Cons_nth_drop_Suc)
  have head: "take (Suc k) (drop s data) = of_nat (32 * ?m + unat (?b AND 0x1f)) # take k (drop (s + 1) data)" for k
    by (subst drop) (simp only: take_Suc_Cons b[symmetric])
  have "s < c \<and> c \<le> length data" using arg by (cases rule: scan_argument_Inr) (use s in simp_all)
  then show "s < c" "c \<le> length data" by blast+
  show "cbor_head ?m n (take (c - s) (drop s data))"
    using arg
  proof (cases rule: scan_argument_Inr)
    case 1
    have k: "c - s = Suc 0" using 1(3) by simp
    have T: "take (c - s) (drop s data) = [of_nat (32 * ?m + unat (?b AND 0x1f))]" unfolding k head by (simp only: take_0)
    show ?thesis unfolding T 1(2) by (rule cbor_headI(1)[OF m 1(1)])
  next
    case (2 w)
    have k: "c - s = Suc 1" using 2(3) by simp
    have u: "unat (?b AND 0x1f) = 24" using 2(1) by simp
    have T: "take (c - s) (drop s data) = of_nat (32 * ?m + 24) # to_be_bytes w" unfolding k head u 2(5) ..
    show ?thesis unfolding T 2(2) by (rule cbor_headI(2)[OF m])
  next
    case (3 w)
    have k: "c - s = Suc 2" using 3(3) by simp
    have u: "unat (?b AND 0x1f) = 25" using 3(1) by simp
    have T: "take (c - s) (drop s data) = of_nat (32 * ?m + 25) # to_be_bytes w" unfolding k head u 3(5) ..
    show ?thesis unfolding T 3(2) by (rule cbor_headI(3)[OF m])
  next
    case (4 w)
    have k: "c - s = Suc 4" using 4(3) by simp
    have u: "unat (?b AND 0x1f) = 26" using 4(1) by simp
    have T: "take (c - s) (drop s data) = of_nat (32 * ?m + 26) # to_be_bytes w" unfolding k head u 4(5) ..
    show ?thesis unfolding T 4(2) by (rule cbor_headI(4)[OF m])
  next
    case (5 w)
    have k: "c - s = Suc 8" using 5(3) by simp
    have u: "unat (?b AND 0x1f) = 27" using 5(1) by simp
    have T: "take (c - s) (drop s data) = of_nat (32 * ?m + 27) # to_be_bytes w" unfolding k head u 5(5) ..
    show ?thesis unfolding T 5(2) by (rule cbor_headI(5)[OF m])
  qed
qed

lemma head_scan_argument:
  assumes h: "cbor_head m n h" and data: "data = pre @ h @ post" and len: "length data < 2 ^ 64"
  shows "m < 8" and "length pre < length data" and "drop_bit 5 (data ! length pre) = of_nat m"
    and "scan_argument data (length pre) (data ! length pre AND 0x1f) = Inr (n, length pre + length h)"
proof -
  show m: "m < 8" using h by (simp add: cbor_head_def)
  have at: "data ! length pre = h ! 0 \<and> length pre < length data" if "h \<noteq> []"
    using that by (simp add: data nth_append)
  have h0: "h \<noteq> []" using h by (auto simp: cbor_head_def)
  then show "length pre < length data" using at by blast
  have goal: "drop_bit 5 (data ! length pre) = of_nat m \<and>
      scan_argument data (length pre) (data ! length pre AND 0x1f) = Inr (n, length pre + length h)"
  proof -
    consider (tiny) "n < 24" "h = [of_nat (32 * m + n)]"
      | (w8) w :: u8 where "n = unat w" "h = of_nat (32 * m + 24) # to_be_bytes w"
      | (w16) w :: u16 where "n = unat w" "h = of_nat (32 * m + 25) # to_be_bytes w"
      | (w32) w :: u32 where "n = unat w" "h = of_nat (32 * m + 26) # to_be_bytes w"
      | (w64) w :: u64 where "n = unat w" "h = of_nat (32 * m + 27) # to_be_bytes w"
      using h unfolding cbor_head_def by blast
    then show ?thesis
    proof cases
      case tiny
      then have b: "data ! length pre = of_nat (32 * m + n)" using at h0 by simp
      have "unat (of_nat n :: u8) = n" using tiny by (simp add: unsigned_of_nat take_bit_nat_eq_self)
      then show ?thesis unfolding b using compose_initial_byte[OF m, of n] tiny
        by (simp add: scan_argument_def del: of_nat_add of_nat_mult)
    next
      case w8
      then have b: "data ! length pre = of_nat (32 * m + 24)" using at h0 by simp
      show ?thesis unfolding b using compose_initial_byte[OF m, of 24] w8 len
        by (simp add: scan_argument_def data read_fixed_def to_be_bytes_u8 del: of_nat_add of_nat_mult)
    next
      case w16
      then have b: "data ! length pre = of_nat (32 * m + 25)" using at h0 by simp
      show ?thesis unfolding b using compose_initial_byte[OF m, of 25] w16 len
        by (simp add: scan_argument_def data read_fixed_def del: of_nat_add of_nat_mult)
    next
      case w32
      then have b: "data ! length pre = of_nat (32 * m + 26)" using at h0 by simp
      show ?thesis unfolding b using compose_initial_byte[OF m, of 26] w32 len
        by (simp add: scan_argument_def data read_fixed_def del: of_nat_add of_nat_mult)
    next
      case w64
      then have b: "data ! length pre = of_nat (32 * m + 27)" using at h0 by simp
      show ?thesis unfolding b using compose_initial_byte[OF m, of 27] w64 len
        by (simp add: scan_argument_def data read_fixed_def del: of_nat_add of_nat_mult)
    qed
  qed
  then show "drop_bit 5 (data ! length pre) = of_nat m"
    "scan_argument data (length pre) (data ! length pre AND 0x1f) = Inr (n, length pre + length h)"
    by blast+
qed

lemma take_split:
  assumes "i \<le> j" and "j \<le> k"
  shows "take (j - i) (drop i xs) @ take (k - j) (drop j xs) = take (k - i) (drop i xs)"
proof -
  have "take ((j - i) + (k - j)) (drop i xs) = take (j - i) (drop i xs) @ take (k - j) (drop (j - i) (drop i xs))"
    by (rule take_add)
  with assms show ?thesis by simp
qed

lemma scan_sound:
  "scan_cbor_item data s d = Inr e \<Longrightarrow> s < e \<and> e \<le> length data \<and> cbor_item d (take (e - s) (drop s data))"
  "scan_cbor_items data n s d = Inr e \<Longrightarrow> s \<le> length data \<Longrightarrow>
     s \<le> e \<and> e \<le> length data \<and> cbor_items d n (take (e - s) (drop s data))"
proof (induction data s d and data n s d arbitrary: e and e rule: scan_cbor_item_scan_cbor_items.induct)
  case (1 data s d)
  let ?b = "data ! s"
  let ?m = "unat (drop_bit 5 ?b)"
  have d: "d \<le> MAX_NESTING" and s: "s < length data"
    using 1(3) by (auto simp: scan_cbor_item.simps split: if_splits)
  from 1(3) d s obtain n c where arg: "scan_argument data s (?b AND 0x1f) = Inr (n, c)"
    by (auto simp: scan_cbor_item.simps Let_def result_simps)
  note hd = scan_argument_head[OF arg s]
  have split: "take (c - s) (drop s data) @ take (e - c) (drop c data) = take (e - s) (drop s data)" if "c \<le> e"
    using that hd(1) by (intro take_split) simp_all
  have m: "drop_bit 5 ?b = k \<longleftrightarrow> ?m = unat k" for k by (simp only: word_unat_eq_iff)
  note run = 1(3)[unfolded scan_cbor_item.simps[of data s d] Let_def arg and_then_simps prod.case m]
  consider (atom) "?m = 0 \<or> ?m = 1 \<or> ?m = 7" | (str) "?m = 2 \<or> ?m = 3" | (arr) "?m = 4" | (map) "?m = 5" | (tag) "?m = 6"
    using hd(3) unfolding cbor_head_def by linarith
  then show ?case
  proof cases
    case atom
    with run d s have "e = c" by auto
    with hd atom d show ?thesis by (auto intro: item_atom)
  next
    case str
    with run d s have e: "e = c + n" "e \<le> length data" by (auto split: if_splits)
    then have "cbor_item d (take (c - s) (drop s data) @ take (e - c) (drop c data))"
      using hd str d by (intro item_string) auto
    with split e hd show ?thesis by simp
  next
    case arr
    with run d s have n: "n \<le> MAX_ARRAY_ELEMENTS" and r: "scan_cbor_items data n c (d + 1) = Inr e"
      by (auto split: if_splits)
    have "c \<le> e \<and> e \<le> length data \<and> cbor_items (d + 1) n (take (e - c) (drop c data))"
      by (rule 1(1)[OF _ _ refl refl refl arg refl]) (use d s n r hd(2) arr in \<open>simp_all add: m\<close>)
    moreover from this have "cbor_item d (take (c - s) (drop s data) @ take (e - c) (drop c data))"
      using hd arr d n by (intro item_array[of _ n]) auto
    ultimately show ?thesis using split hd by simp
  next
    case map
    with run d s have n: "n \<le> MAX_MAP_PAIRS" and r: "scan_cbor_items data (2 * n) c (d + 1) = Inr e"
      by (auto split: if_splits)
    have "c \<le> e \<and> e \<le> length data \<and> cbor_items (d + 1) (2 * n) (take (e - c) (drop c data))"
      by (rule 1(2)[OF _ _ refl refl refl arg refl]) (use d s n r hd(2) map in \<open>simp_all add: m\<close>)
    moreover from this have "cbor_item d (take (c - s) (drop s data) @ take (e - c) (drop c data))"
      using hd map d n by (intro item_map[of _ n]) auto
    ultimately show ?thesis using split hd by simp
  next
    case tag
    with run d s show ?thesis by auto
  qed
next
  case (2 data n s d)
  show ?case
  proof (cases "n = 0")
    case True
    with 2(3,4) show ?thesis by (auto simp: scan_cbor_items.simps[of data 0 s d] intro: items_none)
  next
    case False
    with 2(3) obtain c where c: "scan_cbor_item data s d = Inr c" and r: "scan_cbor_items data (n - 1) c d = Inr e"
      by (auto simp: scan_cbor_items.simps[of data n s d] result_simps)
    have 1: "s < c \<and> c \<le> length data \<and> cbor_item d (take (c - s) (drop s data))" using 2(1)[OF False c] .
    then have 3: "c \<le> e \<and> e \<le> length data \<and> cbor_items d (n - 1) (take (e - c) (drop c data))"
      using 2(2)[OF False c r] by simp
    have "cbor_items d (Suc (n - 1)) (take (c - s) (drop s data) @ take (e - c) (drop c data))"
      using 1 3 by (intro items_more) auto
    then show ?thesis using 1 3 False by (simp add: take_split)
  qed
qed

lemma scan_item_head:
  assumes "d \<le> MAX_NESTING" and "cbor_head m n h" and "data = pre @ h @ post" and "length data < 2 ^ 64"
  shows "scan_cbor_item data (length pre) d =
     (if m = 0 \<or> m = 1 \<or> m = 7 then Inr (length pre + length h)
      else if m = 2 \<or> m = 3 then
        if length pre + length h + n \<le> length data then Inr (length pre + length h + n)
        else Inl (CborFailed ''declared string exceeds input'')
      else if m = 4 then
        if MAX_ARRAY_ELEMENTS < n then Inl (TooManyArrayElements MAX_ARRAY_ELEMENTS)
        else scan_cbor_items data n (length pre + length h) (d + 1)
      else if m = 5 then
        if MAX_MAP_PAIRS < n then Inl (TooManyMapPairs MAX_MAP_PAIRS)
        else scan_cbor_items data (2 * n) (length pre + length h) (d + 1)
      else Inl (CborFailed ''CBOR tags are forbidden''))"
proof -
  note hd = head_scan_argument[OF assms(2-4)]
  have small: "unat (of_nat m :: u8) = m" using hd(1) by (simp add: unsigned_of_nat take_bit_nat_eq_self)
  have m: "(of_nat m :: u8) = k \<longleftrightarrow> m = unat k" for k using small by (auto simp only: word_unat_eq_iff)
  have "m = 0 \<or> m = 1 \<or> m = 2 \<or> m = 3 \<or> m = 4 \<or> m = 5 \<or> m = 6 \<or> m = 7" using hd(1) by linarith
  moreover have "\<not> MAX_NESTING < d" "\<not> length data \<le> length pre" using assms(1) hd(2) by simp_all
  ultimately show ?thesis
    unfolding scan_cbor_item.simps[of data "length pre" d] Let_def hd(3,4) and_then_simps prod.case m
    using assms(4) by (auto simp: add.assoc)
qed

lemma scan_complete:
  "cbor_item d it \<Longrightarrow> data = pre @ it @ post \<Longrightarrow> length data < 2 ^ 64 \<Longrightarrow>
     scan_cbor_item data (length pre) d = Inr (length pre + length it)"
  "cbor_items d n its \<Longrightarrow> data = pre @ its @ post \<Longrightarrow> length data < 2 ^ 64 \<Longrightarrow>
     scan_cbor_items data n (length pre) d = Inr (length pre + length its)"
proof (induction arbitrary: pre post and pre post rule: cbor_item_cbor_items.inducts)
  case (item_atom d m n h)
  then show ?case by (auto simp: scan_item_head)
next
  case (item_string d m n h s)
  have data: "data = pre @ h @ (s @ post)" using item_string.prems by simp
  show ?case
    using scan_item_head[OF item_string(1,2) data item_string.prems(2)] item_string(3,4)
    by (auto simp: item_string.prems(1))
next
  case (item_array d n h body)
  have data: "data = pre @ h @ (body @ post)" using item_array.prems by simp
  have "data = (pre @ h) @ body @ post" using data by simp
  from item_array.IH[OF this item_array.prems(2)] item_array(3) show ?case
    using scan_item_head[OF item_array(1,2) data item_array.prems(2)] by simp
next
  case (item_map d n h body)
  have data: "data = pre @ h @ (body @ post)" using item_map.prems by simp
  have "data = (pre @ h) @ body @ post" using data by simp
  from item_map.IH[OF this item_map.prems(2)] item_map(3) show ?case
    using scan_item_head[OF item_map(1,2) data item_map.prems(2)] by simp
next
  case (items_none d)
  then show ?case by (simp add: scan_cbor_items.simps)
next
  case (items_more d x n xs)
  have 1: "data = pre @ x @ (xs @ post)" and 2: "data = (pre @ x) @ xs @ post" using items_more.prems by simp_all
  show ?case
    using items_more.IH(1)[OF 1 items_more.prems(2)] items_more.IH(2)[OF 2 items_more.prems(2)]
    by (simp add: scan_cbor_items.simps[of data "Suc n"])
qed

lemma scan_exact:
  assumes "length data < 2 ^ 64"
  shows "scan_cbor_item data 0 0 = Inr (length data) \<longleftrightarrow> cbor_item 0 data"
proof
  assume "scan_cbor_item data 0 0 = Inr (length data)"
  from scan_sound(1)[OF this] show "cbor_item 0 data" by simp
next
  assume "cbor_item 0 data"
  from scan_complete(1)[OF this, of data "[]" "[]"] assms show "scan_cbor_item data 0 0 = Inr (length data)" by simp
qed

text \<open>C30. \<open>decode_value\<close> returns a value exactly when the input is at most 1 MiB long, is one definite-length
  CBOR item without tags, with at most 4096 elements in an array, 1024 pairs in a map and 16 levels of
  nesting, with nothing after it, and the CBOR library reads that value from it, itself nested at most 16
  levels deep.  The scanner that decides this terminates on every input.\<close>

theorem decode_value_accepts_exactly:
  "decode_value lib data = Inr v \<longleftrightarrow>
     length data \<le> MAX_CBOR_BYTES \<and> cbor_item 0 data \<and> cb_from_reader lib data = Inr v \<and>
     check_nesting v 0 = Inr ()"
proof (cases "length data \<le> MAX_CBOR_BYTES")
  case True
  then have "length data < 2 ^ 64" by (simp add: MAX_CBOR_BYTES_def)
  from scan_exact[OF this] have item: "scan_cbor_item data 0 0 = Inr (length data) \<longleftrightarrow> cbor_item 0 data" .
  have "decode_value lib data = Inr v \<longleftrightarrow>
      scan_cbor_item data 0 0 = Inr (length data) \<and> cb_from_reader lib data = Inr v \<and> check_nesting v 0 = Inr ()"
    using True by (cases "scan_cbor_item data 0 0"; cases "cb_from_reader lib data")
      (auto simp: decode_value_def result_simps)
  with item True show ?thesis by blast
qed (simp add: decode_value_def)

end
