(* ===== verification/Cbor_Reference.thy ===== *)
theory Cbor_Reference
  imports Tka_Scan
begin

text \<open>
  The CBOR encoding of RFC 8949 in its shortest definite-length form, as a reference for the behaviour
  of the \<open>ciborium\<close> crate: \<open>cbor_ok\<close> states what the code relies on, that the writer produces this
  encoding for values of at most 16 levels without floats and tags and that the reader undoes it.  A reader is defined that
  satisfies the law, and the scanner is shown to accept the encoding of every value within the limits.
\<close>

subsection \<open>The encoding\<close>

definition head_enc :: "nat \<Rightarrow> nat \<Rightarrow> bytes" where
  "head_enc m n =
     (if n < 24 then [of_nat (32 * m + n)]
      else if n < 2 ^ 8 then of_nat (32 * m + 24) # to_be_bytes (of_nat n :: u8)
      else if n < 2 ^ 16 then of_nat (32 * m + 25) # to_be_bytes (of_nat n :: u16)
      else if n < 2 ^ 32 then of_nat (32 * m + 26) # to_be_bytes (of_nat n :: u32)
      else of_nat (32 * m + 27) # to_be_bytes (of_nat n :: u64))"

lemma size_entries [termination_simp]:
  assumes "e \<in> set m"
  shows "size (fst e) < Suc (size_list (size_prod size size) m)" and "size (snd e) < Suc (size_list (size_prod size size) m)"
proof -
  have "size_prod size size e \<le> size_list (size_prod size size) m"
    using size_list_estimation'[OF assms, of "size_prod size size e" "size_prod size size"] by simp
  then show "size (fst e) < Suc (size_list (size_prod size size) m)" "size (snd e) < Suc (size_list (size_prod size size) m)"
    by (cases e; simp)+
qed

fun cbor_encode :: "cbor_value \<Rightarrow> bytes" where
  "cbor_encode (CInteger i) = (if 0 \<le> i then head_enc 0 (nat i) else head_enc 1 (nat (- 1 - i)))"
| "cbor_encode (CBytes b) = head_enc 2 (length b) @ b"
| "cbor_encode (CText s) = head_enc 3 (length s) @ str_bytes s"
| "cbor_encode (CArray a) = head_enc 4 (length a) @ concat (map cbor_encode a)"
| "cbor_encode (CMap m) = head_enc 5 (length m) @ concat (map (\<lambda>e. cbor_encode (fst e) @ cbor_encode (snd e)) m)"
| "cbor_encode (CBool b) = head_enc 7 (if b then 21 else 20)"
| "cbor_encode CNull = head_enc 7 22"
| "cbor_encode (CFloat w) = of_nat (32 * 7 + 27) # to_be_bytes w"
| "cbor_encode (CTag t v) = head_enc 6 (unat t) @ cbor_encode v"

text \<open>Values without floats and tags whose numbers and lengths have at most 64 bits.\<close>

fun cbor_plain :: "cbor_value \<Rightarrow> bool" where
  "cbor_plain (CInteger i) \<longleftrightarrow> - (2 ^ 64) \<le> i \<and> i < 2 ^ 64"
| "cbor_plain (CBytes b) \<longleftrightarrow> length b < 2 ^ 64"
| "cbor_plain (CText s) \<longleftrightarrow> length s < 2 ^ 64 \<and> is_utf8 s"
| "cbor_plain (CArray a) \<longleftrightarrow> length a < 2 ^ 64 \<and> list_all cbor_plain a"
| "cbor_plain (CMap m) \<longleftrightarrow> length m < 2 ^ 63 \<and> list_all (\<lambda>e. cbor_plain (fst e) \<and> cbor_plain (snd e)) m"
| "cbor_plain (CBool b) \<longleftrightarrow> True"
| "cbor_plain CNull \<longleftrightarrow> True"
| "cbor_plain (CFloat w) \<longleftrightarrow> False"
| "cbor_plain (CTag t v) \<longleftrightarrow> False"

text \<open>Values whose containers the scanner lets through.\<close>

fun cbor_fits :: "cbor_value \<Rightarrow> bool" where
  "cbor_fits (CArray a) \<longleftrightarrow> length a \<le> MAX_ARRAY_ELEMENTS \<and> list_all cbor_fits a"
| "cbor_fits (CMap m) \<longleftrightarrow> length m \<le> MAX_MAP_PAIRS \<and> list_all (\<lambda>e. cbor_fits (fst e) \<and> cbor_fits (snd e)) m"
| "cbor_fits _ \<longleftrightarrow> True"

text \<open>
  What is relied on: on such values of at most 16 levels, the depth that the code itself allows (the
  crate's own limit is 256), the writer gives this encoding and the reader undoes it; and the library's
  order of the integers 0 to 23, which are one byte each, is the numeric one.
\<close>

definition cbor_ok :: "tka_lib \<Rightarrow> bool" where
  "cbor_ok lib \<longleftrightarrow>
     (\<forall>v. cbor_plain v \<longrightarrow> check_nesting v 0 = Inr () \<longrightarrow>
        cb_into_writer lib v = cbor_encode v \<and> cb_from_reader lib (cbor_encode v) = Inr v) \<and>
     (\<forall>a b. 0 \<le> a \<longrightarrow> a < 24 \<longrightarrow> 0 \<le> b \<longrightarrow> b < 24 \<longrightarrow> cb_canonical_cmp lib a b = cmp a b)"

lemma cbor_head_enc:
  assumes "m < 8" and "n < 2 ^ 64"
  shows "cbor_head m n (head_enc m n)"
proof -
  have u8: "unat (of_nat n :: u8) = n" if "n < 2 ^ 8" using that by (simp add: unsigned_of_nat take_bit_nat_eq_self)
  have u16: "unat (of_nat n :: u16) = n" if "n < 2 ^ 16" using that by (simp add: unsigned_of_nat take_bit_nat_eq_self)
  have u32: "unat (of_nat n :: u32) = n" if "n < 2 ^ 32" using that by (simp add: unsigned_of_nat take_bit_nat_eq_self)
  have u64: "unat (of_nat n :: u64) = n" using assms(2) by (simp add: unsigned_of_nat take_bit_nat_eq_self)
  show ?thesis
    using cbor_headI(1)[OF assms(1), of n] cbor_headI(2)[OF assms(1), of "of_nat n"]
      cbor_headI(3)[OF assms(1), of "of_nat n"] cbor_headI(4)[OF assms(1), of "of_nat n"]
      cbor_headI(5)[OF assms(1), of "of_nat n"] u8 u16 u32 u64
    unfolding head_enc_def by (auto simp del: of_nat_add of_nat_mult)
qed

subsection \<open>The scanner accepts it\<close>

lemma check_nesting_depth: "check_nesting v d = Inr u \<Longrightarrow> d \<le> MAX_NESTING"
  by (subst (asm) check_nesting.simps) (simp split: if_splits)

lemma try_fold_unit:
  "try_fold (\<lambda>x u. f x) xs () = Inr () \<longleftrightarrow> (\<forall>x \<in> set xs. f x = Inr ())"
proof (induction xs)
  case (Cons x xs)
  then show ?case by (cases "f x") (auto simp: unit_eq)
qed simp

lemma check_nesting_array:
  "check_nesting (CArray a) d = Inr () \<longleftrightarrow> d \<le> MAX_NESTING \<and> (\<forall>x \<in> set a. check_nesting x (d + 1) = Inr ())"
  by (subst check_nesting.simps) (auto simp: try_fold_unit)

lemma check_nesting_map:
  "check_nesting (CMap m) d = Inr () \<longleftrightarrow>
     d \<le> MAX_NESTING \<and> (\<forall>e \<in> set m. check_nesting (fst e) (d + 1) = Inr () \<and> check_nesting (snd e) (d + 1) = Inr ())"
proof -
  have "and_then (check_nesting (fst e) (d + 1)) (\<lambda>_. check_nesting (snd e) (d + 1)) = Inr () \<longleftrightarrow>
      check_nesting (fst e) (d + 1) = Inr () \<and> check_nesting (snd e) (d + 1) = Inr ()" for e
    by (auto simp: result_simps unit_eq)
  then show ?thesis by (subst check_nesting.simps) (auto simp: try_fold_unit)
qed

lemma cbor_items_concat:
  "(\<And>x. x \<in> set xs \<Longrightarrow> cbor_item d (f x)) \<Longrightarrow> cbor_items d (length xs) (concat (map f xs))"
  by (induction xs) (auto intro: items_none items_more)

lemma cbor_items_pairs:
  "(\<And>e. e \<in> set m \<Longrightarrow> cbor_item d (f (fst e)) \<and> cbor_item d (f (snd e))) \<Longrightarrow>
     cbor_items d (2 * length m) (concat (map (\<lambda>e. f (fst e) @ f (snd e)) m))"
proof (induction m)
  case (Cons e m)
  have "cbor_items d (Suc (Suc (2 * length m)))
      (f (fst e) @ f (snd e) @ concat (map (\<lambda>e. f (fst e) @ f (snd e)) m))"
    using Cons by (intro items_more) auto
  then show ?case by simp
qed (simp add: items_none)

lemma cbor_encode_item:
  "cbor_plain v \<Longrightarrow> cbor_fits v \<Longrightarrow> check_nesting v d = Inr () \<Longrightarrow> cbor_item d (cbor_encode v)"
proof (induction v arbitrary: d rule: cbor_encode.induct)
  case (1 i)
  have "nat i < 2 ^ 64" and "nat (- 1 - i) < 2 ^ 64" using 1(1) by (auto simp: nat_less_iff)
  then show ?case using check_nesting_depth[OF 1(3)] cbor_head_enc[of 0 "nat i"] cbor_head_enc[of 1 "nat (- 1 - i)"]
    by (auto intro: item_atom)
next
  case (2 b)
  then show ?case using check_nesting_depth[OF 2(3)] cbor_head_enc[of 2 "length b"]
    by (auto intro: item_string)
next
  case (3 s)
  then show ?case using check_nesting_depth[OF 3(3)] cbor_head_enc[of 3 "length s"]
    by (auto intro: item_string)
next
  case (4 a)
  have "cbor_items (d + 1) (length a) (concat (map cbor_encode a))"
    using 4 by (intro cbor_items_concat) (auto simp: check_nesting_array list_all_iff)
  then show ?case using check_nesting_depth[OF 4(4)] cbor_head_enc[of 4 "length a"] 4(2,3)
    by (auto intro: item_array)
next
  case (5 m)
  have "cbor_items (d + 1) (2 * length m) (concat (map (\<lambda>e. cbor_encode (fst e) @ cbor_encode (snd e)) m))"
    using 5 by (intro cbor_items_pairs) (auto simp: check_nesting_map list_all_iff)
  then show ?case using check_nesting_depth[OF 5(5)] cbor_head_enc[of 5 "length m"] 5(3,4)
    by (auto intro: item_map)
next
  case (6 b)
  then show ?case using check_nesting_depth[OF 6(3)] cbor_head_enc[of 7 "if b then 21 else 20"]
    by (auto intro: item_atom)
next
  case 7
  then show ?case using check_nesting_depth[OF 7(3)] cbor_head_enc[of 7 22] by (auto intro: item_atom)
qed simp_all

lemma decode_encode_value:
  assumes "cbor_ok lib" and "cbor_plain v" and "cbor_fits v" and "check_nesting v 0 = Inr ()"
    and "length (encode_value lib v) \<le> MAX_CBOR_BYTES"
  shows "decode_value lib (encode_value lib v) = Inr v"
proof -
  have w: "encode_value lib v = cbor_encode v" and r: "cb_from_reader lib (cbor_encode v) = Inr v"
    using assms(1,2,4) by (simp_all add: cbor_ok_def encode_value_def)
  have "length (cbor_encode v) < 2 ^ 64" using assms(5) w by (simp add: MAX_CBOR_BYTES_def)
  then have "scan_cbor_item (cbor_encode v) 0 0 = Inr (length (cbor_encode v))"
    using scan_exact cbor_encode_item[OF assms(2-4)] by blast
  then show ?thesis using assms(4,5) w r by (simp add: decode_value_def)
qed

subsection \<open>A reader\<close>

definition read_head :: "bytes \<Rightarrow> (nat \<times> nat \<times> bytes) option" where
  "read_head bs =
     (case bs of
        [] \<Rightarrow> None
      | b # r \<Rightarrow>
          let m = unat b div 32; a = unat b mod 32
          in if a < 24 then Some (m, a, r)
             else if a = 24 then Some (m, unat (from_be_bytes (take 1 r) :: u8), drop 1 r)
             else if a = 25 then Some (m, unat (from_be_bytes (take 2 r) :: u16), drop 2 r)
             else if a = 26 then Some (m, unat (from_be_bytes (take 4 r) :: u32), drop 4 r)
             else if a = 27 then Some (m, unat (from_be_bytes (take 8 r) :: u64), drop 8 r)
             else None)"

definition bytes_str :: "bytes \<Rightarrow> string" where
  "bytes_str bs = map (\<lambda>b. char_of (unat b)) bs"

fun pairs :: "'a list \<Rightarrow> ('a \<times> 'a) list" where
  "pairs (x # y # xs) = (x, y) # pairs xs"
| "pairs _ = []"

fun read_item :: "nat \<Rightarrow> bytes \<Rightarrow> (cbor_value \<times> bytes) option"
  and read_items :: "nat \<Rightarrow> nat \<Rightarrow> bytes \<Rightarrow> (cbor_value list \<times> bytes) option" where
  "read_item 0 bs = None"
| "read_item (Suc f) bs =
     (case read_head bs of
        None \<Rightarrow> None
      | Some (m, n, r) \<Rightarrow>
          if m = 0 then Some (CInteger (int n), r)
          else if m = 1 then Some (CInteger (- 1 - int n), r)
          else if m = 2 then if n \<le> length r then Some (CBytes (take n r), drop n r) else None
          else if m = 3 then
            if n \<le> length r \<and> is_utf8 (bytes_str (take n r)) then Some (CText (bytes_str (take n r)), drop n r) else None
          else if m = 4 then map_option (\<lambda>(vs, r). (CArray vs, r)) (read_items f n r)
          else if m = 5 then map_option (\<lambda>(vs, r). (CMap (pairs vs), r)) (read_items f (2 * n) r)
          else if m = 7 \<and> n = 20 then Some (CBool False, r)
          else if m = 7 \<and> n = 21 then Some (CBool True, r)
          else if m = 7 \<and> n = 22 then Some (CNull, r)
          else None)"
| "read_items 0 n bs = (if n = 0 then Some ([], bs) else None)"
| "read_items (Suc f) n bs =
     (if n = 0 then Some ([], bs)
      else case read_item f bs of
        None \<Rightarrow> None
      | Some (v, r) \<Rightarrow> map_option (\<lambda>(vs, r). (v # vs, r)) (read_items f (n - 1) r))"

definition cbor_read :: "bytes \<Rightarrow> string + cbor_value" where
  "cbor_read bs = (case read_item (2 * length bs) bs of Some (v, _) \<Rightarrow> Inr v | None \<Rightarrow> Inl ''malformed CBOR'')"

text \<open>How deep the reader recurses.\<close>

fun read_cost :: "cbor_value \<Rightarrow> nat" where
  "read_cost (CArray a) = Suc (sum_list (map (\<lambda>v. Suc (read_cost v)) a))"
| "read_cost (CMap m) = Suc (sum_list (map (\<lambda>e. Suc (Suc (read_cost (fst e) + read_cost (snd e)))) m))"
| "read_cost _ = 1"

lemma read_head_enc:
  assumes "m < 8" and "n < 2 ^ 64"
  shows "read_head (head_enc m n @ rest) = Some (m, n, rest)"
proof -
  have byte: "unat (of_nat (32 * m + a) :: u8) = 32 * m + a" if "a < 32" for a
    using that assms(1) by (simp add: unsigned_of_nat take_bit_nat_eq_self del: of_nat_add of_nat_mult)
  have u8: "unat (of_nat n :: u8) = n" if "n < 2 ^ 8" using that by (simp add: unsigned_of_nat take_bit_nat_eq_self)
  have u16: "unat (of_nat n :: u16) = n" if "n < 2 ^ 16" using that by (simp add: unsigned_of_nat take_bit_nat_eq_self)
  have u32: "unat (of_nat n :: u32) = n" if "n < 2 ^ 32" using that by (simp add: unsigned_of_nat take_bit_nat_eq_self)
  have u64: "unat (of_nat n :: u64) = n" using assms(2) by (simp add: unsigned_of_nat take_bit_nat_eq_self)
  show ?thesis
    using byte[of n] byte[of 24] byte[of 25] byte[of 26] byte[of 27] u8 u16 u32 u64
    by (simp add: head_enc_def read_head_def Let_def del: of_nat_add of_nat_mult)
qed

lemma bytes_str_bytes [simp]: "bytes_str (str_bytes s) = s"
proof -
  have "unat (of_nat (of_char c) :: u8) = (of_char c :: nat)" for c :: char
  proof -
    have "(of_char c :: nat) < 256" by (metis of_char_mod_256 mod_less_divisor zero_less_numeral)
    then show ?thesis by (simp add: unsigned_of_nat take_bit_nat_eq_self)
  qed
  then show ?thesis by (simp add: bytes_str_def str_bytes_def comp_def)
qed

definition flat :: "('a \<times> 'a) list \<Rightarrow> 'a list" where
  "flat m = concat (map (\<lambda>e. [fst e, snd e]) m)"

lemma flat_facts:
  "length (flat m) = 2 * length m" "pairs (flat m) = m"
  "concat (map f (flat m)) = concat (map (\<lambda>e. f (fst e) @ f (snd e)) m)"
  "sum_list (map (\<lambda>v. Suc (g v)) (flat m)) = sum_list (map (\<lambda>e. Suc (Suc (g (fst e) + g (snd e)))) m)"
  "set (flat m) = fst ` set m \<union> snd ` set m"
  unfolding flat_def by (induction m) auto

lemma read_items_enc:
  assumes "\<And>v f rest. v \<in> set vs \<Longrightarrow> read_cost v \<le> f \<Longrightarrow> read_item f (cbor_encode v @ rest) = Some (v, rest)"
    and "sum_list (map (\<lambda>v. Suc (read_cost v)) vs) \<le> f"
  shows "read_items f (length vs) (concat (map cbor_encode vs) @ rest) = Some (vs, rest)"
  using assms
proof (induction vs arbitrary: f)
  case Nil
  then show ?case by (cases f) simp_all
next
  case (Cons v vs)
  then obtain g where f: "f = Suc g" and v: "read_cost v \<le> g" and vs: "sum_list (map (\<lambda>v. Suc (read_cost v)) vs) \<le> g"
    by (cases f) auto
  have "read_items g (length vs) (concat (map cbor_encode vs) @ rest) = Some (vs, rest)"
    using Cons.IH[OF _ vs] Cons.prems(1) by simp
  then show ?case using Cons.prems(1)[of v g "concat (map cbor_encode vs) @ rest"] v f by simp
qed

lemma read_item_enc:
  "cbor_plain v \<Longrightarrow> read_cost v \<le> f \<Longrightarrow> read_item f (cbor_encode v @ rest) = Some (v, rest)"
proof (induction v arbitrary: f rest rule: cbor_encode.induct)
  case (1 i)
  then obtain g where f: "f = Suc g" by (cases f) auto
  have "nat i < 2 ^ 64" and "nat (- 1 - i) < 2 ^ 64" using 1(1) by (auto simp: nat_less_iff)
  then show ?case using f by (simp add: read_head_enc)
next
  case (2 b)
  then show ?case by (cases f) (simp_all add: read_head_enc)
next
  case (3 s)
  have "take (length s) (str_bytes s @ rest) = str_bytes s" "drop (length s) (str_bytes s @ rest) = rest" by simp_all
  with 3 show ?case by (cases f) (simp_all add: read_head_enc)
next
  case (4 a)
  then obtain g where f: "f = Suc g" and g: "sum_list (map (\<lambda>v. Suc (read_cost v)) a) \<le> g" by (cases f) auto
  have "read_items g (length a) (concat (map cbor_encode a) @ rest) = Some (a, rest)"
    using 4 g by (intro read_items_enc) (auto simp: list_all_iff)
  then show ?case using f 4(2) by (simp add: read_head_enc)
next
  case (5 m)
  then obtain g where f: "f = Suc g" and g: "sum_list (map (\<lambda>v. Suc (read_cost v)) (flat m)) \<le> g"
    by (cases f) (auto simp: flat_facts)
  have "read_items g (length (flat m)) (concat (map cbor_encode (flat m)) @ rest) = Some (flat m, rest)"
    using 5 g by (intro read_items_enc) (auto simp: list_all_iff flat_facts)
  then have "read_items g (2 * length m) (concat (map (\<lambda>e. cbor_encode (fst e) @ cbor_encode (snd e)) m) @ rest)
      = Some (flat m, rest)" by (simp only: flat_facts)
  then show ?case using f 5(3) by (simp add: read_head_enc flat_facts)
next
  case (6 b)
  then show ?case by (cases f) (simp_all add: read_head_enc)
next
  case 7
  then show ?case by (cases f) (simp_all add: read_head_enc)
qed simp_all

lemma double_step: "(a :: nat) \<le> 2 * b \<Longrightarrow> 0 < h \<Longrightarrow> Suc (Suc a) \<le> 2 * (h + b)"
  by arith

lemma head_enc_pos: "0 < length (head_enc m n)"
  by (simp add: head_enc_def)

lemma head_enc_double: "Suc 0 < 2 * length (head_enc m n)" "Suc 0 < 2 * length (head_enc m n) + k"
  using head_enc_pos[of m n] by linarith+

lemma read_cost_bound: "cbor_plain v \<Longrightarrow> Suc (read_cost v) \<le> 2 * length (cbor_encode v)"
proof (induction v rule: cbor_encode.induct)
  case (4 a)
  have "sum_list (map (\<lambda>v. Suc (read_cost v)) a) \<le> sum_list (map (\<lambda>v. 2 * length (cbor_encode v)) a)"
    using 4 by (intro sum_list_mono) (auto simp: list_all_iff)
  also have "\<dots> = 2 * length (concat (map cbor_encode a))"
    by (simp add: length_concat comp_def sum_list_const_mult)
  finally show ?case unfolding read_cost.simps cbor_encode.simps length_append
    by (rule double_step) (rule head_enc_pos)
next
  case (5 m)
  have "sum_list (map (\<lambda>e. Suc (Suc (read_cost (fst e) + read_cost (snd e)))) m)
      \<le> sum_list (map (\<lambda>e. 2 * length (cbor_encode (fst e) @ cbor_encode (snd e))) m)"
  proof (rule sum_list_mono)
    fix e assume e: "e \<in> set m"
    from 5(1)[OF e] 5(2)[OF e] 5(3) e
    show "Suc (Suc (read_cost (fst e) + read_cost (snd e))) \<le> 2 * length (cbor_encode (fst e) @ cbor_encode (snd e))"
      by (fastforce simp: list_all_iff)
  qed
  also have "\<dots> = 2 * length (concat (map (\<lambda>e. cbor_encode (fst e) @ cbor_encode (snd e)) m))"
    by (simp only: length_concat map_map comp_def sum_list_const_mult)
  finally show ?case unfolding read_cost.simps cbor_encode.simps length_append
    by (rule double_step) (rule head_enc_pos)
qed (auto simp: head_enc_double Suc_le_eq)

lemma cbor_read_encode: "cbor_plain v \<Longrightarrow> cbor_read (cbor_encode v) = Inr v"
  using read_item_enc[of v "2 * length (cbor_encode v)" "[]"] read_cost_bound[of v] by (simp add: cbor_read_def)

text \<open>
  A library that satisfies the laws: the reference encoding and reader, and transparent stand-ins for the
  cryptographic functions (a digest that keeps the last 32 bytes, signatures that show the message digest
  and the key).
\<close>

definition transparent_lib :: tka_lib where
  "transparent_lib =
     \<lparr>cb_into_writer = cbor_encode, cb_from_reader = cbor_read, cb_canonical_cmp = cmp,
      blake2s_256 = (\<lambda>bs. take 32 (rev bs @ replicate 32 0)),
      base32_encode = (\<lambda>bs. []), base32_decode = (\<lambda>s. Inl []),
      ed_from_bytes = (\<lambda>k. length k = 32), ed_verify_strict = (\<lambda>k m s. s = m @ k)\<rparr>"

lemma transparent_cbor_ok: "cbor_ok transparent_lib"
  by (simp add: cbor_ok_def transparent_lib_def cbor_read_encode)

end
