(* ===== verification/Tka_Codec.thy ===== *)
theory Tka_Codec
  imports Tka_Types Cbor_Reference
begin

text \<open>
  The wire format of keys, states and authority update messages: writing and reading back gives the same
  message with empty metadata dropped, for messages whose containers are within the limits of the decoder.
\<close>

subsection \<open>Reading what was written\<close>

lemma canonical_sort_ints:
  assumes "cbor_ok lib"
    and "sorted_wrt (\<lambda>a b. \<exists>i j. fst a = CInteger i \<and> fst b = CInteger j \<and> 0 \<le> i \<and> i < j \<and> j < 24) es"
  shows "canonical_sort lib es = es"
  unfolding canonical_sort_def
proof (rule sort_by_sorted, rule sorted_wrt_mono_rel[OF _ assms(2)])
  fix a b assume "\<exists>i j. fst a = CInteger i \<and> fst b = CInteger j \<and> 0 \<le> i \<and> i < j \<and> j < 24"
  then show "canonical_key_cmp lib (fst a) (fst b) \<noteq> Greater"
    using assms(1) by (auto simp: canonical_key_cmp_def cbor_ok_def)
qed

lemma set_canonical_sort [simp]: "set (canonical_sort lib es) = set es"
  and length_canonical_sort [simp]: "length (canonical_sort lib es) = length es"
  by (simp_all add: canonical_sort_def)

lemma uint_less_64 [simp]:
  "uint (v :: u64) < 18446744073709551616" "uint (w :: u8) < 18446744073709551616"
  using uint_bounded[of v] uint_bounded[of w] by simp_all

lemma expect_uint_word [simp]: "expect_uint (CInteger (uint (v :: u64))) = Inr v"
  using uint_bounded[of v] by simp

lemma expect_uint_kinds [simp]:
  "expect_uint (CInteger (uint (key_kind_to_u8 k))) = Inr (ucast (key_kind_to_u8 k))"
  "expect_uint (CInteger (uint (aum_kind_to_u8 q))) = Inr (ucast (aum_kind_to_u8 q))"
  by (cases k; simp add: key_kind_to_u8_def) (cases q; simp add: aum_kind_to_u8_def)

lemma kinds_from_to [simp]:
  "key_kind_from_u64 (ucast (key_kind_to_u8 k)) = Some k"
  "aum_kind_from_u64 (ucast (aum_kind_to_u8 q)) = Some q"
  by (cases k; simp add: key_kind_to_u8_def key_kind_from_u64_def)
     (cases q; simp add: aum_kind_to_u8_def aum_kind_from_u64_def)

lemma set_unique_None [simp]: "set_unique None x = Inr (Some x)"
  by (simp add: set_unique_def)

definition meta_ok :: "meta option \<Rightarrow> bool" where
  "meta_ok m \<longleftrightarrow> (case m of None \<Rightarrow> True | Some m \<Rightarrow> btree_ok m)"

text \<open>Empty metadata is not written, so it is read back as no metadata.\<close>

definition canon_meta :: "meta option \<Rightarrow> meta option" where
  "canon_meta m = (if m = Some [] then None else m)"

definition canon_key :: "tka_key \<Rightarrow> tka_key" where
  "canon_key k = k\<lparr>k_meta := canon_meta (k_meta k)\<rparr>"

definition canon_state :: "tka_state \<Rightarrow> tka_state" where
  "canon_state s = s\<lparr>st_keys := map canon_key (st_keys s)\<rparr>"

definition canon_aum :: "aum \<Rightarrow> aum" where
  "canon_aum a = a\<lparr>au_key := map_option canon_key (au_key a), au_state := map_option canon_state (au_state a),
     au_meta := canon_meta (au_meta a)\<rparr>"

lemma meta_fold:
  assumes "\<forall>e \<in> set es. \<exists>k v. e = (CText k, CText v)" and "distinct (map fst es)" and "btree_ok m"
    and "\<forall>e \<in> set m. CText (fst e) \<notin> fst ` set es"
  shows "\<exists>m'. try_fold meta_entry es m = Inr m' \<and> btree_ok m' \<and>
    set m' = set m \<union> {(k, v). (CText k, CText v) \<in> set es}"
  using assms
proof (induction es arbitrary: m)
  case (Cons e es)
  then obtain k v where e: "e = (CText k, CText v)" by auto
  have new: "map_of m k = None" using Cons.prems(4) by (auto simp: e map_of_eq_None_iff)
  then have step: "meta_entry e m = Inr (btree_insert k v m)" by (simp add: meta_entry_def e)
  have set: "set (btree_insert k v m) = insert (k, v) (set m)"
    using set_btree_insert[OF Cons.prems(3), of k v] new by (force simp: map_of_eq_None_iff)
  have "\<forall>x \<in> set (btree_insert k v m). CText (fst x) \<notin> fst ` set es"
    using Cons.prems(2,4) unfolding set by (auto simp: e)
  then obtain m' where m': "try_fold meta_entry es (btree_insert k v m) = Inr m'" "btree_ok m'"
    "set m' = set (btree_insert k v m) \<union> {(k, v). (CText k, CText v) \<in> set es}"
    using Cons.IH[of "btree_insert k v m"] Cons.prems btree_insert_ok[OF Cons.prems(3), of k v] by auto
  then show ?case using step by (auto simp: e set)
qed simp

lemma meta_roundtrip:
  assumes "btree_ok m"
  shows "meta_from_value (meta_to_value lib m) = Inr m"
proof -
  let ?c = "\<lambda>e :: string \<times> string. case e of (k, v) \<Rightarrow> (CText k, CText v)"
  let ?es = "canonical_sort lib (map ?c m)"
  have "distinct (map fst m)" using assms by (simp add: btree_ok_def strict_sorted_iff)
  then have "distinct (map CText (map fst m))" by (simp only: distinct_map[of CText]) (simp add: inj_on_def)
  moreover have "map fst (map ?c m) = map CText (map fst m)" by (auto split: prod.splits)
  ultimately have "distinct (map fst (map ?c m))" by metis
  moreover have "mset (map fst ?es) = mset (map fst (map ?c m))"
    by (simp only: canonical_sort_def mset_map mset_sort_by)
  ultimately have d: "distinct (map fst ?es)" by (metis mset_eq_imp_distinct_iff)
  have all: "\<forall>e \<in> set ?es. \<exists>k v. e = (CText k, CText v)" by (auto split: prod.splits)
  have nil: "btree_ok ([] :: meta)" by (simp add: btree_ok_def)
  obtain m' where m': "try_fold meta_entry ?es [] = Inr m'" "btree_ok m'"
    "set m' = {(k, v). (CText k, CText v) \<in> set ?es}"
    using meta_fold[OF all d nil] by (simp only: list.set) blast
  have "set m' = set m" unfolding m'(3) by (auto split: prod.splits)
  then have "m' = m" using btree_eqI m'(2) assms by blast
  then show ?thesis using m'(1) by (simp add: meta_from_value_def meta_to_value_def)
qed

lemma key_roundtrip:
  assumes "cbor_ok lib" and "meta_ok (k_meta k)"
  shows "key_from_value (key_to_value lib k) = Inr (canon_key k)"
proof (cases "canon_meta (k_meta k)")
  case None
  then show ?thesis unfolding key_to_value_def Let_def
    by (subst canonical_sort_ints[OF assms(1)])
       (auto simp: key_from_value_def key_field_def canon_key_def canon_meta_def split: if_splits)
next
  case (Some m)
  then have m: "k_meta k = Some m" "m \<noteq> []" "btree_ok m"
    using assms(2) by (auto simp: meta_ok_def canon_meta_def split: if_splits)
  then show ?thesis unfolding key_to_value_def Let_def
    by (subst canonical_sort_ints[OF assms(1)])
       (simp_all add: key_from_value_def key_field_def meta_roundtrip canon_key_def canon_meta_def)
qed

definition state_meta_ok :: "tka_state \<Rightarrow> bool" where
  "state_meta_ok s \<longleftrightarrow> (\<forall>k \<in> set (st_keys s). meta_ok (k_meta k))"

lemma nullable_roundtrip [simp]:
  "nullable_bytes n (case h of Some b \<Rightarrow> CBytes b | None \<Rightarrow> CNull) = Inr h"
  by (cases h) (simp_all add: nullable_bytes_def)

lemma state_roundtrip:
  assumes "cbor_ok lib" and "state_meta_ok s"
  shows "state_from_value (state_to_value lib s) = Inr (canon_state s)"
proof -
  have keys: "try_map key_from_value (map (key_to_value lib) (st_keys s)) = Inr (map canon_key (st_keys s))"
    using assms key_roundtrip[OF assms(1)] by (intro try_map_image) (simp add: state_meta_ok_def)
  have dv: "try_map expect_bytes (map CBytes (st_disablement_values s)) = Inr (st_disablement_values s)"
    by (intro try_map_map) simp
  show ?thesis unfolding state_to_value_def Let_def
    by (subst canonical_sort_ints[OF assms(1)])
       (auto simp: state_from_value_def state_field_def keys dv canon_state_def)
qed

lemma signature_roundtrip:
  assumes "cbor_ok lib"
  shows "signature_from_value (signature_to_value lib s) = Inr s"
  unfolding signature_to_value_def
  by (subst canonical_sort_ints[OF assms]) (simp_all add: signature_from_value_def signature_field_def)

definition aum_meta_ok :: "aum \<Rightarrow> bool" where
  "aum_meta_ok a \<longleftrightarrow>
     meta_ok (au_meta a) \<and>
     (case au_key a of None \<Rightarrow> True | Some k \<Rightarrow> meta_ok (k_meta k)) \<and>
     (case au_state a of None \<Rightarrow> True | Some s \<Rightarrow> state_meta_ok s)"

lemma aum_roundtrip:
  assumes "cbor_ok lib" and "aum_meta_ok a"
  shows "aum_from_value (aum_value lib a) = Inr (canon_aum a)"
proof -
  have sigs: "try_map signature_from_value (map (signature_to_value lib) (au_signatures a)) = Inr (au_signatures a)"
    by (intro try_map_map) (simp add: signature_roundtrip[OF assms(1)])
  have meta: "meta_from_value (meta_to_value lib m) = Inr m" if "au_meta a = Some m" for m
    using assms(2) that by (simp add: aum_meta_ok_def meta_ok_def meta_roundtrip)
  have key: "key_from_value (key_to_value lib k) = Inr (canon_key k)" if "au_key a = Some k" for k
    using assms that by (simp add: aum_meta_ok_def key_roundtrip)
  have state: "state_from_value (state_to_value lib s) = Inr (canon_state s)" if "au_state a = Some s" for s
    using assms that by (simp add: aum_meta_ok_def state_roundtrip)
  show ?thesis unfolding aum_value_def Let_def
    by (subst canonical_sort_ints[OF assms(1)])
       (auto simp: aum_from_value_def aum_field_def sigs meta key state canon_aum_def canon_meta_def split: option.splits)
qed

lemma key_to_value_canon [simp]: "key_to_value lib (canon_key k) = key_to_value lib k"
  by (auto simp: key_to_value_def canon_key_def canon_meta_def)

lemma state_to_value_canon [simp]: "state_to_value lib (canon_state s) = state_to_value lib s"
  by (simp add: state_to_value_def canon_state_def comp_def)

lemma case_canon_meta:
  "(case canon_meta m of None \<Rightarrow> [] | Some m \<Rightarrow> if m = [] then [] else f m) =
   (case m of None \<Rightarrow> [] | Some m \<Rightarrow> if m = [] then [] else f m)"
  by (auto simp: canon_meta_def)

lemma aum_value_canon: "aum_value lib (canon_aum a) = aum_value lib a"
  by (simp add: aum_value_def canon_aum_def case_canon_meta comp_def cong: option.case_cong)

subsection \<open>Messages within the limits\<close>

definition value_ok :: "cbor_value \<Rightarrow> nat \<Rightarrow> bool" where
  "value_ok v d \<longleftrightarrow> cbor_plain v \<and> cbor_fits v \<and> check_nesting v d = Inr ()"

lemma value_ok_simps [simp]:
  "value_ok (CInteger i) d \<longleftrightarrow> - (2 ^ 64) \<le> i \<and> i < 2 ^ 64 \<and> d \<le> MAX_NESTING"
  "value_ok (CBytes b) d \<longleftrightarrow> length b < 2 ^ 64 \<and> d \<le> MAX_NESTING"
  "value_ok (CText s) d \<longleftrightarrow> length s < 2 ^ 64 \<and> is_utf8 s \<and> d \<le> MAX_NESTING"
  "value_ok CNull d \<longleftrightarrow> d \<le> MAX_NESTING"
  unfolding value_ok_def by (subst check_nesting.simps, force)+

lemma value_ok_array [simp]:
  "value_ok (CArray a) d \<longleftrightarrow>
     length a \<le> MAX_ARRAY_ELEMENTS \<and> d \<le> MAX_NESTING \<and> (\<forall>x \<in> set a. value_ok x (d + 1))"
  by (auto simp: value_ok_def check_nesting_array list_all_iff MAX_ARRAY_ELEMENTS_def)

lemma value_ok_map [simp]:
  "value_ok (CMap m) d \<longleftrightarrow>
     length m \<le> MAX_MAP_PAIRS \<and> d \<le> MAX_NESTING \<and>
     (\<forall>e \<in> set m. value_ok (fst e) (d + 1) \<and> value_ok (snd e) (d + 1))"
  by (auto simp: value_ok_def check_nesting_map list_all_iff MAX_MAP_PAIRS_def)

text \<open>
  Sizes: at most 1024 metadata entries, at most 4096 keys, disablement values and signatures, and byte
  strings that fit the address space.  Every string is UTF-8, as a Rust \<open>String\<close> is.
\<close>

definition meta_fits :: "meta option \<Rightarrow> bool" where
  "meta_fits m \<longleftrightarrow>
     (case m of None \<Rightarrow> True
      | Some m \<Rightarrow> length m \<le> MAX_MAP_PAIRS \<and>
          (\<forall>e \<in> set m. is_utf8 (fst e) \<and> is_utf8 (snd e) \<and> length (fst e) < 2 ^ 64 \<and> length (snd e) < 2 ^ 64))"

definition key_fits :: "tka_key \<Rightarrow> bool" where
  "key_fits k \<longleftrightarrow> length (k_public k) < 2 ^ 64 \<and> meta_ok (k_meta k) \<and> meta_fits (k_meta k)"

definition state_fits :: "tka_state \<Rightarrow> bool" where
  "state_fits s \<longleftrightarrow>
     (case st_last_aum_hash s of None \<Rightarrow> True | Some h \<Rightarrow> length h < 2 ^ 64) \<and>
     length (st_disablement_values s) \<le> MAX_ARRAY_ELEMENTS \<and>
     (\<forall>v \<in> set (st_disablement_values s). length v < 2 ^ 64) \<and>
     length (st_keys s) \<le> MAX_ARRAY_ELEMENTS \<and> (\<forall>k \<in> set (st_keys s). key_fits k)"

definition aum_fits :: "aum \<Rightarrow> bool" where
  "aum_fits a \<longleftrightarrow>
     (case au_prev_aum_hash a of None \<Rightarrow> True | Some h \<Rightarrow> length h < 2 ^ 64) \<and>
     (case au_key a of None \<Rightarrow> True | Some k \<Rightarrow> key_fits k) \<and>
     (case au_key_id a of None \<Rightarrow> True | Some i \<Rightarrow> length i < 2 ^ 64) \<and>
     (case au_state a of None \<Rightarrow> True | Some s \<Rightarrow> state_fits s) \<and>
     meta_ok (au_meta a) \<and> meta_fits (au_meta a) \<and>
     length (au_signatures a) \<le> MAX_ARRAY_ELEMENTS \<and>
     (\<forall>x \<in> set (au_signatures a). length (sg_key_id x) < 2 ^ 64 \<and> length (sg_signature x) < 2 ^ 64)"

lemma uint_ge_64 [simp]:
  "- 18446744073709551616 \<le> uint (v :: u64)" "- 18446744073709551616 \<le> uint (w :: u8)"
  by (rule order_trans[of _ 0]; simp)+

lemma meta_value_ok:
  "meta_fits (Some m) \<Longrightarrow> d \<le> 15 \<Longrightarrow> value_ok (meta_to_value lib m) d"
  by (auto simp: meta_fits_def meta_to_value_def MAX_NESTING_def)

lemma key_value_ok: "key_fits k \<Longrightarrow> d \<le> 14 \<Longrightarrow> value_ok (key_to_value lib k) d"
  by (auto simp: key_fits_def key_to_value_def Let_def MAX_MAP_PAIRS_def MAX_NESTING_def meta_value_ok
      split: option.splits)

lemma state_value_ok: "state_fits s \<Longrightarrow> d \<le> 12 \<Longrightarrow> value_ok (state_to_value lib s) d"
  by (auto simp: state_fits_def state_to_value_def Let_def MAX_MAP_PAIRS_def MAX_NESTING_def key_value_ok
      split: option.splits)

lemma signature_value_ok:
  "length (sg_key_id x) < 2 ^ 64 \<Longrightarrow> length (sg_signature x) < 2 ^ 64 \<Longrightarrow> d \<le> 15 \<Longrightarrow>
     value_ok (signature_to_value lib x) d"
  by (auto simp: signature_to_value_def MAX_MAP_PAIRS_def MAX_NESTING_def)

lemma aum_value_ok:
  assumes "aum_fits a"
  shows "value_ok (aum_value lib a) 0"
proof -
  have meta: "value_ok (meta_to_value lib m) (Suc 0)" if "au_meta a = Some m" for m
    using assms that by (intro meta_value_ok) (simp_all add: aum_fits_def)
  have key: "value_ok (key_to_value lib k) (Suc 0)" if "au_key a = Some k" for k
    using assms that by (intro key_value_ok) (simp_all add: aum_fits_def)
  have state: "value_ok (state_to_value lib s) (Suc 0)" if "au_state a = Some s" for s
    using assms that by (intro state_value_ok) (simp_all add: aum_fits_def)
  have sigs: "value_ok (signature_to_value lib x) (Suc (Suc 0))" if "x \<in> set (au_signatures a)" for x
    using assms that by (intro signature_value_ok) (simp_all add: aum_fits_def)
  have lens: "length (au_signatures a) \<le> MAX_ARRAY_ELEMENTS"
    "\<And>h. au_prev_aum_hash a = Some h \<Longrightarrow> length h < 2 ^ 64" "\<And>i. au_key_id a = Some i \<Longrightarrow> length i < 2 ^ 64"
    using assms by (auto simp: aum_fits_def split: option.splits)
  show ?thesis unfolding aum_value_def Let_def
    using meta key state sigs lens
    by (auto simp: MAX_MAP_PAIRS_def MAX_NESTING_def split: option.splits)
qed

lemma aum_fits_meta_ok: "aum_fits a \<Longrightarrow> aum_meta_ok a"
  by (auto simp: aum_fits_def aum_meta_ok_def state_fits_def state_meta_ok_def key_fits_def split: option.splits)

text \<open>C29. An authority update message within the limits of the decoder (at most 1024 metadata entries, at
  most 4096 keys, disablement values and signatures, at most the decoder's number of bytes, strings that
  are UTF-8) is read back from its encoding: \<open>Aum::decode\<close> undoes \<open>Aum::encode\<close>, including the nested key,
  state, metadata and signatures, except that metadata that is present and empty is read back as absent.
  What is read back has the same encoding and so the same hash as the message that was written.\<close>

theorem aum_codec_roundtrip:
  assumes "cbor_ok lib" and "aum_fits a" and "length (aum_encode lib a) \<le> MAX_CBOR_BYTES"
  shows "aum_decode lib (aum_encode lib a) = Inr (canon_aum a) \<and>
    aum_encode lib (canon_aum a) = aum_encode lib a \<and> aum_hash lib (canon_aum a) = aum_hash lib a"
  using decode_encode_value[of lib "aum_value lib a"] aum_value_ok[OF assms(2), of lib] assms
    aum_roundtrip[OF assms(1) aum_fits_meta_ok[OF assms(2)]]
  by (simp add: aum_decode_def aum_encode_def aum_hash_def aum_value_canon value_ok_def)

definition example_key :: tka_key where
  "example_key = \<lparr>k_kind = Key25519, k_votes = 2, k_public = replicate 32 7, k_meta = Some [(''host'', ''a''), (''os'', ''linux'')]\<rparr>"

definition example_aum :: aum where
  "example_aum =
     \<lparr>au_kind = AddKey, au_prev_aum_hash = Some (replicate 32 1), au_key = Some example_key, au_key_id = None,
      au_state = None, au_votes = None, au_meta = None,
      au_signatures = [\<lparr>sg_key_id = replicate 32 7, sg_signature = replicate 64 3\<rparr>]\<rparr>"

theorem aum_codec_roundtrip_witness:
  "aum_decode transparent_lib (aum_encode transparent_lib example_aum) = Inr example_aum"
proof -
  have "aum_fits example_aum"
    by (simp add: aum_fits_def example_aum_def example_key_def key_fits_def meta_ok_def meta_fits_def btree_ok_def
        MAX_MAP_PAIRS_def MAX_ARRAY_ELEMENTS_def is_utf8_def less_char_def)
  moreover have "length (aum_encode transparent_lib example_aum) \<le> MAX_CBOR_BYTES"
    by (simp add: aum_encode_def encode_value_def transparent_lib_def aum_value_def example_aum_def example_key_def
        key_to_value_def meta_to_value_def signature_to_value_def canonical_sort_def sort_by_def canonical_key_cmp_def
        cmp_def then_with_def less_char_def head_enc_def key_kind_to_u8_def aum_kind_to_u8_def MAX_CBOR_BYTES_def)
  moreover have "canon_aum example_aum = example_aum"
    by (simp add: canon_aum_def canon_meta_def canon_key_def example_aum_def example_key_def)
  ultimately show ?thesis using aum_codec_roundtrip[OF transparent_cbor_ok, of example_aum] by simp
qed

end
