(* ===== verification/Tka_State.thy ===== *)
theory Tka_State
  imports Tka_Types
begin

text \<open>
  Applying verified updates to the authority state (\<open>crates/tka/src/state.rs\<close>), and the invariant of the
  states: there is a trusted key, every key is valid, key ids are distinct, and the disablement values are
  those a checkpoint may have.
\<close>

definition with_last_aum :: "tka_lib \<Rightarrow> tka_state \<Rightarrow> aum \<Rightarrow> tka_state" where
  "with_last_aum lib s a = s\<lparr>st_last_aum_hash := Some (aum_hash lib a)\<rparr>"

text \<open>\<open>Iterator::position\<close> and \<open>Vec::remove\<close>.\<close>

fun position :: "('a \<Rightarrow> bool) \<Rightarrow> 'a list \<Rightarrow> nat option" where
  "position P [] = None"
| "position P (x # xs) = (if P x then Some 0 else map_option Suc (position P xs))"

definition remove_at :: "nat \<Rightarrow> 'a list \<Rightarrow> 'a list" where
  "remove_at i xs = take i xs @ drop (Suc i) xs"

definition updated_key :: "aum \<Rightarrow> tka_key \<Rightarrow> tka_key" where
  "updated_key u k =
     (let k = (case au_votes u of Some votes \<Rightarrow> k\<lparr>k_votes := votes\<rparr> | None \<Rightarrow> k)
      in case au_meta u of Some m \<Rightarrow> k\<lparr>k_meta := Some m\<rparr> | None \<Rightarrow> k)"

definition apply_verified :: "tka_lib \<Rightarrow> tka_state \<Rightarrow> aum \<Rightarrow> reason + tka_state" where
  "apply_verified lib s u =
     and_then (case st_last_aum_hash s of
         Some prev \<Rightarrow> if au_prev_aum_hash u \<noteq> Some prev then Inl ParentMismatch else Inr ()
       | None \<Rightarrow> Inr ()) (\<lambda>_.
     and_then (case au_kind u of
         NoOp \<Rightarrow> Inr s
       | Checkpoint \<Rightarrow>
           and_then (ok_or (au_state u) MissingCheckpointState) (\<lambda>checkpoint.
             if st_state_id1 checkpoint \<noteq> st_state_id1 s \<or> st_state_id2 checkpoint \<noteq> st_state_id2 s
             then Inl WrongStateIds else Inr checkpoint)
       | AddKey \<Rightarrow>
           and_then (ok_or (au_key u) MissingKey) (\<lambda>key.
           and_then (tka_key_id key) (\<lambda>id.
             if state_key s id \<noteq> None then Inl KeyAlreadyExists
             else Inr (s\<lparr>st_keys := st_keys s @ [key]\<rparr>)))
       | RemoveKey \<Rightarrow>
           and_then (ok_or (au_key_id u) MissingKeyId) (\<lambda>key_id.
           and_then (ok_or (position (has_id key_id) (st_keys s)) KeyNotFound) (\<lambda>index.
             Inr (s\<lparr>st_keys := remove_at index (st_keys s)\<rparr>)))
       | UpdateKey \<Rightarrow>
           and_then (ok_or (au_key_id u) MissingKeyId) (\<lambda>key_id.
           and_then (ok_or (position (has_id key_id) (st_keys s)) KeyNotFound) (\<lambda>index.
             let key = updated_key u (st_keys s ! index)
             in and_then (map_err UpdatedKeyInvalid (tka_key_validate key)) (\<lambda>_.
                  Inr (s\<lparr>st_keys := (st_keys s)[index := key]\<rparr>))))
       | AumInvalid \<Rightarrow> Inl InvalidAumKindText) (\<lambda>out.
       Inr (with_last_aum lib out u)))"

subsection \<open>The invariant\<close>

definition trusted_ok :: "tka_key list \<Rightarrow> bool" where
  "trusted_ok ks \<longleftrightarrow> (\<forall>k \<in> set ks. tka_key_validate k = Inr ()) \<and> distinct (map k_public ks)"

definition state_ok :: "tka_state \<Rightarrow> bool" where
  "state_ok s \<longleftrightarrow>
     st_keys s \<noteq> [] \<and> trusted_ok (st_keys s) \<and>
     st_disablement_values s \<noteq> [] \<and> length (st_disablement_values s) \<le> 32 \<and>
     (\<forall>v \<in> set (st_disablement_values s). length v = 32) \<and> distinct (st_disablement_values s)"

lemma key_validD:
  assumes "tka_key_validate k = Inr u"
  shows "k_kind k = Key25519" and "length (k_public k) = 32" and "k_votes k \<noteq> 0" and "k_votes k \<le> 4096"
  using assms by (auto simp: tka_key_validate_def Let_def split: if_splits)

lemma has_id_valid: "tka_key_validate k = Inr u \<Longrightarrow> has_id i k \<longleftrightarrow> k_public k = i"
  using key_validD(1)[of k u] by (simp add: has_id_def tka_key_id_def)

lemma position_Some: "position P xs = Some i \<Longrightarrow> i < length xs \<and> P (xs ! i)"
  by (induction xs arbitrary: i) (auto split: if_splits)

lemma state_key_None_iff: "state_key s i = None \<longleftrightarrow> (\<forall>k \<in> set (st_keys s). \<not> has_id i k)"
  by (auto simp: state_key_def find_None_iff)

lemma state_key_Some: "state_key s i = Some k \<Longrightarrow> k \<in> set (st_keys s) \<and> has_id i k"
  by (auto simp: state_key_def find_Some_iff)

lemma try_fold_enumerate:
  "try_fold (\<lambda>(i, x) u. f i x) (enumerate n xs) () = Inr () \<longleftrightarrow> (\<forall>i < length xs. f (n + i) (xs ! i) = Inr ())"
proof (induction xs arbitrary: n)
  case (Cons x xs)
  have "try_fold (\<lambda>(i, x) u. f i x) (enumerate n (x # xs)) () = Inr () \<longleftrightarrow>
      f n x = Inr () \<and> try_fold (\<lambda>(i, x) u. f i x) (enumerate (Suc n) xs) () = Inr ()"
    by (cases "f n x") (auto simp: unit_eq)
  also have "\<dots> \<longleftrightarrow> f n x = Inr () \<and> (\<forall>i < length xs. f (n + Suc i) (xs ! i) = Inr ())" by (simp add: Cons.IH)
  also have "\<dots> \<longleftrightarrow> (\<forall>i < length (x # xs). f (n + i) ((x # xs) ! i) = Inr ())" by (simp add: All_less_Suc2)
  finally show ?case .
qed simp

lemma distinct_take_iff: "distinct xs \<longleftrightarrow> (\<forall>i < length xs. xs ! i \<notin> set (take i xs))"
proof
  assume "\<forall>i < length xs. xs ! i \<notin> set (take i xs)"
  then have "xs ! j \<noteq> xs ! i" if "i < length xs" "j < i" for i j
    using that by (metis in_set_conv_nth length_take min.absorb4 nth_take)
  then show "distinct xs" unfolding distinct_conv_nth by (metis linorder_neqE_nat)
next
  assume "distinct xs"
  then show "\<forall>i < length xs. xs ! i \<notin> set (take i xs)"
    by (auto simp: in_set_conv_nth nth_eq_iff_index_eq)
qed

lemma checkpoint_keys_iff:
  "try_fold (\<lambda>(index, key) _.
      and_then (map_err (KeyAt index) (tka_key_validate key)) (\<lambda>_.
      and_then (tka_key_id key) (\<lambda>id.
        if list_ex (has_id id) (take index ks) then Inl (KeyDuplicated index) else Inr ()))) (enumerate 0 ks) () = Inr ()
    \<longleftrightarrow> trusted_ok ks"
proof -
  have step: "and_then (map_err (KeyAt i) (tka_key_validate (ks ! i))) (\<lambda>_.
      and_then (tka_key_id (ks ! i)) (\<lambda>id.
        if list_ex (has_id id) (take i ks) then Inl (KeyDuplicated i) else Inr ())) = Inr () \<longleftrightarrow>
    tka_key_validate (ks ! i) = Inr () \<and> \<not> list_ex (has_id (k_public (ks ! i))) (take i ks)" for i
    by (cases "tka_key_validate (ks ! i)") (auto simp: tka_key_id_def dest: key_validD(1))
  have dup: "(\<not> list_ex (has_id (k_public (ks ! i))) (take i ks)) \<longleftrightarrow> map k_public ks ! i \<notin> set (take i (map k_public ks))"
    if "\<forall>k \<in> set ks. tka_key_validate k = Inr ()" "i < length ks" for i
  proof -
    have "has_id p k \<longleftrightarrow> k_public k = p" if "k \<in> set (take i ks)" for p k
      using that \<open>\<forall>k \<in> set ks. tka_key_validate k = Inr ()\<close> by (meson has_id_valid in_set_takeD)
    then show ?thesis using that(2) by (auto simp: list_ex_iff take_map image_iff)
  qed
  show ?thesis
  proof (cases "\<forall>k \<in> set ks. tka_key_validate k = Inr ()")
    case True
    then have "(\<forall>i < length ks. tka_key_validate (ks ! i) = Inr () \<and> \<not> list_ex (has_id (k_public (ks ! i))) (take i ks))
        \<longleftrightarrow> (\<forall>i < length ks. map k_public ks ! i \<notin> set (take i (map k_public ks)))"
      using dup[OF True] by auto
    with True show ?thesis unfolding try_fold_enumerate add_0 step trusted_ok_def distinct_take_iff length_map by blast
  next
    case False
    then obtain i where "i < length ks" "tka_key_validate (ks ! i) \<noteq> Inr ()" by (auto simp: in_set_conv_nth)
    with False show ?thesis unfolding try_fold_enumerate add_0 step trusted_ok_def by blast
  qed
qed

lemma validate_checkpoint_iff:
  "validate_checkpoint s = Inr () \<longleftrightarrow>
     st_last_aum_hash s = None \<and> state_ok s \<and> length (st_keys s) \<le> 512"
proof -
  let ?dv = "st_disablement_values s"
  have "try_fold (\<lambda>(index, value) _.
      if length value \<noteq> 32 then Inl (DisablementLength index (length value))
      else if value \<in> set (take index ?dv) then Inl (DisablementDuplicated index) else Inr ()) (enumerate 0 ?dv) () = Inr ()
    \<longleftrightarrow> (\<forall>v \<in> set ?dv. length v = 32) \<and> distinct ?dv"
    unfolding try_fold_enumerate distinct_take_iff all_set_conv_all_nth by auto
  with checkpoint_keys_iff[of "st_keys s"] show ?thesis
    unfolding validate_checkpoint_def state_ok_def by (auto simp: result_simps)
qed

lemma aum_validateD:
  assumes "aum_validate a = Inr u"
  shows "au_key a = Some k \<Longrightarrow> tka_key_validate k = Inr ()"
    and "au_state a = Some s \<Longrightarrow> validate_checkpoint s = Inr ()"
    and "au_prev_aum_hash a = Some h \<Longrightarrow> length h = 32"
    and "sg \<in> set (au_signatures a) \<Longrightarrow> length (sg_key_id sg) = 32 \<and> length (sg_signature sg) = 64"
    and "au_kind a = Checkpoint \<Longrightarrow> au_state a \<noteq> None"
    and "au_kind a \<noteq> AumInvalid"
proof -
  let ?sigs = "try_fold (\<lambda>(index, signature) _.
         if length (sg_key_id signature) \<noteq> 32 \<or> length (sg_signature signature) \<noteq> 64
         then Inl (MalformedSignature index) else Inr ()) (enumerate 0 (au_signatures a)) ()"
  have sigs: "?sigs = Inr ()" and rest: "au_key a = Some k \<longrightarrow> tka_key_validate k = Inr ()"
    "au_state a = Some s \<longrightarrow> validate_checkpoint s = Inr ()" "au_prev_aum_hash a = Some h \<longrightarrow> length h = 32"
    using assms unfolding aum_validate_def by (auto simp: result_simps unit_eq split: option.splits if_splits)
  from rest show "au_key a = Some k \<Longrightarrow> tka_key_validate k = Inr ()"
    "au_state a = Some s \<Longrightarrow> validate_checkpoint s = Inr ()" "au_prev_aum_hash a = Some h \<Longrightarrow> length h = 32" by blast+
  from sigs show "sg \<in> set (au_signatures a) \<Longrightarrow> length (sg_key_id sg) = 32 \<and> length (sg_signature sg) = 64"
    unfolding try_fold_enumerate by (auto simp: in_set_conv_nth split: if_splits)
  show "au_kind a = Checkpoint \<Longrightarrow> au_state a \<noteq> None" "au_kind a \<noteq> AumInvalid"
    using assms unfolding aum_validate_def by (auto simp: result_simps split: if_splits)
qed

lemma set_remove_at: "set (remove_at i xs) \<subseteq> set xs"
  by (auto simp: remove_at_def dest: in_set_takeD in_set_dropD)

lemma distinct_remove_at: "distinct xs \<Longrightarrow> distinct (remove_at i xs)"
  by (simp add: remove_at_def set_take_disj_set_drop_if_distinct)

lemma trusted_ok_remove:
  assumes "trusted_ok ks"
  shows "trusted_ok (remove_at i ks)"
proof -
  have "map k_public (remove_at i ks) = remove_at i (map k_public ks)" by (simp add: remove_at_def take_map drop_map)
  then show ?thesis using assms set_remove_at[of i ks] distinct_remove_at[of "map k_public ks" i]
    by (auto simp: trusted_ok_def)
qed

lemma updated_key_public [simp]: "k_public (updated_key u k) = k_public k"
  by (simp add: updated_key_def Let_def split: option.splits)

lemma trusted_ok_update:
  assumes "trusted_ok ks" and "i < length ks" and "tka_key_validate k = Inr ()" and "k_public k = k_public (ks ! i)"
  shows "trusted_ok (ks[i := k])"
proof -
  have "map k_public (ks[i := k]) = map k_public ks"
    using assms(2,4) by (simp add: map_update list_update_same_conv)
  moreover have "\<forall>x \<in> set (ks[i := k]). tka_key_validate x = Inr ()"
    using assms(1,3) set_update_subset_insert[of ks i k] by (auto simp: trusted_ok_def)
  ultimately show ?thesis using assms(1) by (metis trusted_ok_def)
qed

lemma apply_verifiedD:
  assumes "apply_verified lib s u = Inr s'"
  shows "st_last_aum_hash s' = Some (aum_hash lib u)"
    and "st_last_aum_hash s = Some h \<Longrightarrow> au_prev_aum_hash u = Some h"
    and "st_state_id1 s' = st_state_id1 s" and "st_state_id2 s' = st_state_id2 s"
  using assms unfolding apply_verified_def
  by (auto simp: result_simps with_last_aum_def Let_def split: option.splits if_splits aum_kind.splits)

lemma trusted_ok_has_id: "trusted_ok ks \<Longrightarrow> k \<in> set ks \<Longrightarrow> has_id i k \<longleftrightarrow> k_public k = i"
  using has_id_valid[of k "()" i] by (simp add: trusted_ok_def)

lemma apply_verified_ok:
  assumes ok: "state_ok s" and valid: "aum_validate u = Inr ()" and ap: "apply_verified lib s u = Inr s'"
    and keep: "au_kind u = RemoveKey \<Longrightarrow> length (st_keys s) = 1 \<Longrightarrow> au_key_id u \<noteq> Some (k_public (st_keys s ! 0))"
  shows "state_ok s'"
proof -
  have ks: "trusted_ok (st_keys s)" using ok by (simp add: state_ok_def)
  show ?thesis
  proof (cases "au_kind u")
    case AumInvalid
    then show ?thesis using aum_validateD(6)[OF valid] by simp
  next
    case NoOp
    then have "s' = with_last_aum lib s u" using ap by (auto simp: apply_verified_def result_simps)
    then show ?thesis using ok by (simp add: state_ok_def with_last_aum_def)
  next
    case Checkpoint
    then obtain c where c: "au_state u = Some c" and s': "s' = with_last_aum lib c u"
      using ap by (auto simp: apply_verified_def result_simps split: if_splits)
    have "state_ok c" using aum_validateD(2)[OF valid c] by (simp add: validate_checkpoint_iff)
    then show ?thesis by (simp add: s' state_ok_def with_last_aum_def)
  next
    case AddKey
    then obtain k id where k: "au_key u = Some k" and id: "tka_key_id k = Inr id" and new: "state_key s id = None"
      and s': "s' = with_last_aum lib (s\<lparr>st_keys := st_keys s @ [k]\<rparr>) u"
      using ap by (auto simp: apply_verified_def result_simps split: if_splits)
    have kv: "tka_key_validate k = Inr ()" using aum_validateD(1)[OF valid k] .
    then have "id = k_public k" using id key_validD(1)[OF kv] by (simp add: tka_key_id_def)
    then have "k_public k \<notin> k_public ` set (st_keys s)"
      using new trusted_ok_has_id[OF ks] by (auto simp: state_key_None_iff)
    then show ?thesis using ok kv by (auto simp: s' state_ok_def with_last_aum_def trusted_ok_def)
  next
    case RemoveKey
    then obtain kid i where kid: "au_key_id u = Some kid" and i: "position (has_id kid) (st_keys s) = Some i"
      and s': "s' = with_last_aum lib (s\<lparr>st_keys := remove_at i (st_keys s)\<rparr>) u"
      using ap by (auto simp: apply_verified_def result_simps split: if_splits)
    have "remove_at i (st_keys s) \<noteq> []"
    proof
      assume "remove_at i (st_keys s) = []"
      then have "length (st_keys s) \<le> 1" and "i = 0" using position_Some[OF i] by (auto simp: remove_at_def)
      then have "length (st_keys s) = 1" and "i = 0" using position_Some[OF i] by simp_all
      with position_Some[OF i] keep[OF RemoveKey] kid trusted_ok_has_id[OF ks] show False by auto
    qed
    then show ?thesis using ok trusted_ok_remove[OF ks] by (simp add: s' state_ok_def with_last_aum_def)
  next
    case UpdateKey
    then obtain kid i where i: "position (has_id kid) (st_keys s) = Some i"
      and v: "tka_key_validate (updated_key u (st_keys s ! i)) = Inr ()"
      and s': "s' = with_last_aum lib (s\<lparr>st_keys := (st_keys s)[i := updated_key u (st_keys s ! i)]\<rparr>) u"
      using ap by (auto simp: apply_verified_def result_simps Let_def unit_eq split: if_splits)
    have "trusted_ok ((st_keys s)[i := updated_key u (st_keys s ! i)])"
      using trusted_ok_update[OF ks] position_Some[OF i] v by simp
    then show ?thesis using ok by (simp add: s' state_ok_def with_last_aum_def)
  qed
qed

end
