(* ===== verification/Tka_Verify.thy ===== *)
theory Tka_Verify
  imports Tka_State Cbor_Reference
begin

text \<open>
  The decisions of the authority (\<open>crates/tka/src/authority.rs\<close>) that do not touch its storage: verification of
  an update against a state, the state that a chain of messages leads to, and the choice between competing
  updates.  The chain is an argument here; how it is read from storage is not modelled.  The texts of errors
  are constructors of \<open>verify_text\<close>.
\<close>

datatype verify_text =
    Reason reason
  | NoValidHead
  | ParentNotHead aum_hash
  | UnsignedAum
  | UntrustedKey nat
  | UnsupportedKeyKind nat
  | KeyLengthInvalid nat
  | KeyBytesInvalid nat
  | SignatureLengthInvalid nat
  | SignatureInvalid nat
  | LastTrustedKey
  | EmptyPath
  | OldestNotCheckpoint
  | RetainedWithoutState
  | UnsignedRetained

datatype verify_error = InvalidAum verify_text | InvalidState verify_text | SignatureError verify_text

subsection \<open>Verification\<close>

definition verify_signature_at :: "tka_lib \<Rightarrow> tka_state \<Rightarrow> bytes \<Rightarrow> nat \<Rightarrow> tka_signature \<Rightarrow> verify_error + unit" where
  "verify_signature_at lib s digest index sg =
     and_then (ok_or (state_key s (sg_key_id sg)) (SignatureError (UntrustedKey index))) (\<lambda>key.
       if k_kind key \<noteq> Key25519 then Inl (SignatureError (UnsupportedKeyKind index))
       else if length (k_public key) \<noteq> 32 then Inl (SignatureError (KeyLengthInvalid index))
       else if \<not> ed_from_bytes lib (k_public key) then Inl (SignatureError (KeyBytesInvalid index))
       else if length (sg_signature sg) \<noteq> 64 then Inl (SignatureError (SignatureLengthInvalid index))
       else if \<not> ed_verify_strict lib (k_public key) digest (sg_signature sg)
       then Inl (SignatureError (SignatureInvalid index))
       else Inr ())"

definition verify_aum :: "tka_lib \<Rightarrow> aum \<Rightarrow> tka_state \<Rightarrow> bool \<Rightarrow> verify_error + unit" where
  "verify_aum lib a s genesis =
     and_then (map_err (\<lambda>e. InvalidAum (Reason e)) (aum_validate a)) (\<lambda>_.
     and_then (if genesis then Inr ()
       else and_then (ok_or (Option.bind (st_last_aum_hash s) hash_from_slice) (InvalidState NoValidHead)) (\<lambda>expected.
         if aum_parent a \<noteq> Some expected then Inl (InvalidAum (ParentNotHead expected)) else Inr ())) (\<lambda>_.
     if au_signatures a = [] then Inl (InvalidAum UnsignedAum)
     else
       let digest = aum_sig_hash lib a
       in and_then (try_fold (\<lambda>(index, sg) _. verify_signature_at lib s digest index sg)
            (enumerate 0 (au_signatures a)) ()) (\<lambda>_.
          if au_kind a = RemoveKey \<and> length (st_keys s) = 1 then
            and_then (map_err (\<lambda>e. InvalidState (Reason e)) (tka_key_id (st_keys s ! 0))) (\<lambda>only.
              if au_key_id a = Some only then Inl (InvalidAum LastTrustedKey) else Inr ())
          else Inr ())))"

subsection \<open>The state at the end of a chain\<close>

definition apply_step :: "tka_lib \<Rightarrow> aum \<Rightarrow> tka_state \<Rightarrow> verify_error + tka_state" where
  "apply_step lib u s =
     and_then (verify_aum lib u s False) (\<lambda>_. map_err (\<lambda>e. InvalidState (Reason e)) (apply_verified lib s u))"

definition state_of_path :: "tka_lib \<Rightarrow> aum list \<Rightarrow> verify_error + tka_state" where
  "state_of_path lib path =
     (case path of
        [] \<Rightarrow> Inl (InvalidState EmptyPath)
      | genesis # rest \<Rightarrow>
          if au_kind genesis \<noteq> Checkpoint then Inl (InvalidState OldestNotCheckpoint)
          else
            and_then (ok_or (au_state genesis) (InvalidState RetainedWithoutState)) (\<lambda>state.
            and_then
              (if aum_parent genesis \<noteq> None then
                 and_then (map_err (\<lambda>e. InvalidAum (Reason e)) (aum_validate genesis)) (\<lambda>_.
                   if au_signatures genesis = [] then Inl (InvalidAum UnsignedRetained) else Inr ())
               else verify_aum lib genesis state True) (\<lambda>_.
              try_fold (apply_step lib) rest (with_last_aum lib state genesis))))"

subsection \<open>Choosing between updates\<close>

text \<open>
  The weight of the signatures is summed in \<open>u64\<close>.  Votes of a valid key are at most 4096, so the sum does
  not overflow for fewer than \<open>2 ^ 51\<close> signatures; beyond, a checked build would panic where this sum wraps.
\<close>

fun weight_loop :: "tka_state \<Rightarrow> tka_signature list \<Rightarrow> bytes list \<Rightarrow> u64" where
  "weight_loop s [] seen = 0"
| "weight_loop s (sg # sgs) seen =
     (if sg_key_id sg \<in> set seen then weight_loop s sgs seen
      else (case state_key s (sg_key_id sg) of None \<Rightarrow> 0 | Some k \<Rightarrow> k_votes k) + weight_loop s sgs (sg_key_id sg # seen))"

definition signature_weight :: "tka_state \<Rightarrow> aum \<Rightarrow> u64" where
  "signature_weight s a = weight_loop s (au_signatures a) []"

definition compare_candidates :: "tka_lib \<Rightarrow> tka_state \<Rightarrow> aum \<Rightarrow> aum \<Rightarrow> ordering" where
  "compare_candidates lib s left right =
     (let left_weight = signature_weight s left; right_weight = signature_weight s right
      in then_with (then_with (cmp right_weight left_weight)
           (if au_kind left = RemoveKey \<and> au_kind right \<noteq> RemoveKey then Less
            else if au_kind left \<noteq> RemoveKey \<and> au_kind right = RemoveKey then Greater
            else Equal))
           (cmp (aum_hash lib left) (aum_hash lib right)))"

text \<open>\<open>Vec::remove(0)\<close> panics on an empty vector, which is the result \<open>None\<close>.\<close>

definition pick_next :: "tka_lib \<Rightarrow> tka_state \<Rightarrow> aum list \<Rightarrow> aum option" where
  "pick_next lib s candidates =
     (case sort_by (compare_candidates lib s) candidates of [] \<Rightarrow> None | c # _ \<Rightarrow> Some c)"

subsection \<open>Lemmas\<close>

text \<open>A signature that counts: made by a trusted key over the digest.\<close>

definition trusted_signature :: "tka_lib \<Rightarrow> tka_state \<Rightarrow> bytes \<Rightarrow> tka_signature \<Rightarrow> bool" where
  "trusted_signature lib s digest sg \<longleftrightarrow>
     (\<exists>k. state_key s (sg_key_id sg) = Some k \<and> k_kind k = Key25519 \<and> length (k_public k) = 32 \<and>
        ed_from_bytes lib (k_public k) \<and> length (sg_signature sg) = 64 \<and>
        ed_verify_strict lib (k_public k) digest (sg_signature sg))"

lemma verify_signature_iff: "verify_signature_at lib s digest i sg = Inr () \<longleftrightarrow> trusted_signature lib s digest sg"
  by (cases "state_key s (sg_key_id sg)") (auto simp: verify_signature_at_def trusted_signature_def)

lemma verify_signatures_iff:
  "try_fold (\<lambda>(i, sg) u. verify_signature_at lib s digest i sg) (enumerate 0 sgs) () = Inr () \<longleftrightarrow>
     (\<forall>sg \<in> set sgs. trusted_signature lib s digest sg)"
  unfolding try_fold_enumerate verify_signature_iff by (simp add: all_set_conv_all_nth)

lemma only_key_id:
  assumes "trusted_signature lib s digest sg" "length (st_keys s) = 1"
  shows "tka_key_id (st_keys s ! 0) = Inr (k_public (st_keys s ! 0))"
proof -
  obtain k where "st_keys s = [k]" using assms(2) by (metis One_nat_def length_0_conv length_Suc_conv)
  then show ?thesis using assms(1) state_key_Some[of s "sg_key_id sg"]
    by (auto simp: trusted_signature_def tka_key_id_def)
qed

definition removes_last_key :: "tka_state \<Rightarrow> aum \<Rightarrow> bool" where
  "removes_last_key s a \<longleftrightarrow>
     au_kind a = RemoveKey \<and> length (st_keys s) = 1 \<and> au_key_id a = Some (k_public (st_keys s ! 0))"

lemma verify_aum_iff:
  "verify_aum lib a s genesis = Inr () \<longleftrightarrow>
     aum_validate a = Inr () \<and>
     (genesis \<or> (\<exists>h. st_last_aum_hash s = Some h \<and> length h = 32 \<and> aum_parent a = Some h)) \<and>
     au_signatures a \<noteq> [] \<and> (\<forall>sg \<in> set (au_signatures a). trusted_signature lib s (aum_sig_hash lib a) sg) \<and>
     \<not> removes_last_key s a"
proof -
  let ?signed = "\<forall>sg \<in> set (au_signatures a). trusted_signature lib s (aum_sig_hash lib a) sg"
  have head: "Option.bind (st_last_aum_hash s) hash_from_slice = Some e \<longleftrightarrow> st_last_aum_hash s = Some e \<and> length e = 32" for e
    by (auto simp: hash_from_slice_def bind_eq_Some_conv)
  have only: "(if au_kind a = RemoveKey \<and> length (st_keys s) = 1 then
        and_then (map_err (\<lambda>e. InvalidState (Reason e)) (tka_key_id (st_keys s ! 0))) (\<lambda>only.
          if au_key_id a = Some only then Inl (InvalidAum LastTrustedKey) else Inr ())
      else Inr ()) = Inr () \<longleftrightarrow> \<not> removes_last_key s a" if "?signed" "au_signatures a \<noteq> []"
    using that only_key_id[of lib s "aum_sig_hash lib a" "hd (au_signatures a)"]
    by (auto simp: removes_last_key_def)
  have sigs: "try_fold (\<lambda>(i, sg) _. verify_signature_at lib s (aum_sig_hash lib a) i sg)
      (enumerate 0 (au_signatures a)) () = Inr u \<longleftrightarrow> ?signed" for u
    using verify_signatures_iff by (cases u) simp
  show ?thesis
    unfolding verify_aum_def Let_def using only head
    by (auto simp: result_simps sigs unit_eq split: if_splits)
qed


lemma apply_stepD:
  assumes "apply_step lib u s = Inr s'" and "state_ok s"
  shows "state_ok s'" and "st_last_aum_hash s' = Some (aum_hash lib u)"
    and "st_state_id1 s' = st_state_id1 s" and "st_state_id2 s' = st_state_id2 s"
    and "aum_parent u = st_last_aum_hash s" and "st_last_aum_hash s \<noteq> None"
proof -
  have v: "verify_aum lib u s False = Inr ()" and ap: "apply_verified lib s u = Inr s'"
    using assms(1) by (auto simp: apply_step_def result_simps unit_eq)
  have valid: "aum_validate u = Inr ()" and last: "\<not> removes_last_key s u"
    and head: "aum_parent u = st_last_aum_hash s" "st_last_aum_hash s \<noteq> None"
    using v unfolding verify_aum_iff by auto
  show "state_ok s'" by (rule apply_verified_ok[OF assms(2) valid ap]) (use last in \<open>auto simp: removes_last_key_def\<close>)
  show "st_last_aum_hash s' = Some (aum_hash lib u)" "st_state_id1 s' = st_state_id1 s" "st_state_id2 s' = st_state_id2 s"
    using apply_verifiedD[OF ap] by simp_all
  show "aum_parent u = st_last_aum_hash s" "st_last_aum_hash s \<noteq> None" by (rule head)+
qed

text \<open>Consecutive messages of a chain: each names the hash of the one before.\<close>

fun linked :: "tka_lib \<Rightarrow> aum \<Rightarrow> aum list \<Rightarrow> bool" where
  "linked lib a [] \<longleftrightarrow> True"
| "linked lib a (u # us) \<longleftrightarrow> aum_parent u = Some (aum_hash lib a) \<and> linked lib u us"

lemma apply_steps:
  assumes "try_fold (apply_step lib) us s = Inr s'" and "state_ok s" and "st_last_aum_hash s = Some (aum_hash lib a)"
  shows "state_ok s' \<and> st_last_aum_hash s' = Some (aum_hash lib (last (a # us))) \<and>
    st_state_id1 s' = st_state_id1 s \<and> st_state_id2 s' = st_state_id2 s \<and> linked lib a us"
  using assms
proof (induction us arbitrary: a s)
  case (Cons u us)
  then obtain t where t: "apply_step lib u s = Inr t" "try_fold (apply_step lib) us t = Inr s'"
    by (auto simp: result_simps)
  note step = apply_stepD[OF t(1) Cons.prems(2)]
  from Cons.IH[OF t(2) step(1,2)] step(3-) Cons.prems(3) show ?case by simp
qed simp

lemma valid_checkpoint_ok:
  "aum_validate a = Inr () \<Longrightarrow> au_state a = Some c \<Longrightarrow> state_ok (with_last_aum lib c a)"
  using aum_validateD(2)[of a "()" c] by (simp add: validate_checkpoint_iff state_ok_def with_last_aum_def)

subsection \<open>The order of candidates\<close>

fun weight_sum :: "tka_state \<Rightarrow> tka_signature list \<Rightarrow> bytes list \<Rightarrow> nat" where
  "weight_sum s [] seen = 0"
| "weight_sum s (sg # sgs) seen =
     (if sg_key_id sg \<in> set seen then weight_sum s sgs seen
      else (case state_key s (sg_key_id sg) of None \<Rightarrow> 0 | Some k \<Rightarrow> unat (k_votes k)) + weight_sum s sgs (sg_key_id sg # seen))"

lemma state_key_votes: "state_ok s \<Longrightarrow> state_key s i = Some k \<Longrightarrow> unat (k_votes k) \<le> 4096"
  using state_key_Some[of s i k] key_validD(4)[of k "()"] by (auto simp: state_ok_def trusted_ok_def word_le_nat_alt)

lemma weight_sum_bound:
  assumes "state_ok s"
  shows "weight_sum s sgs seen \<le> 4096 * length sgs"
proof (induction sgs arbitrary: seen)
  case (Cons sg sgs)
  have "(case state_key s (sg_key_id sg) of None \<Rightarrow> 0 | Some k \<Rightarrow> unat (k_votes k)) \<le> 4096"
    using state_key_votes[OF assms] by (simp split: option.splits)
  with Cons[of seen] Cons[of "sg_key_id sg # seen"] show ?case by simp
qed simp

lemma weight_loop_sum:
  assumes "state_ok s"
  shows "length sgs < 2 ^ 51 \<Longrightarrow> unat (weight_loop s sgs seen) = weight_sum s sgs seen"
proof (induction sgs arbitrary: seen)
  case (Cons sg sgs)
  let ?v = "case state_key s (sg_key_id sg) of None \<Rightarrow> 0 | Some k \<Rightarrow> k_votes k"
  have v: "unat ?v \<le> 4096" using state_key_votes[OF assms] by (auto split: option.splits)
  have "weight_sum s sgs (sg_key_id sg # seen) \<le> 4096 * length sgs" by (rule weight_sum_bound[OF assms])
  moreover have "unat (weight_loop s sgs (sg_key_id sg # seen)) = weight_sum s sgs (sg_key_id sg # seen)"
    using Cons by simp
  ultimately have "unat ?v + unat (weight_loop s sgs (sg_key_id sg # seen)) < 2 ^ 64" using v Cons.prems by simp
  then have "unat (?v + weight_loop s sgs (sg_key_id sg # seen)) = unat ?v + weight_sum s sgs (sg_key_id sg # seen)"
    using Cons by (simp add: unat_add_lem[THEN iffD1])
  with Cons show ?case by (auto split: option.splits)
qed simp

text \<open>Which of two updates wins: more votes behind it, then the removal of a key, then the smaller hash.\<close>

definition preferred :: "tka_lib \<Rightarrow> tka_state \<Rightarrow> aum \<Rightarrow> aum \<Rightarrow> bool" where
  "preferred lib s c d \<longleftrightarrow>
     (let w = (\<lambda>a. weight_sum s (au_signatures a) []); r = (\<lambda>a. au_kind a = RemoveKey)
      in w d < w c \<or> w d = w c \<and> (r c \<and> \<not> r d \<or> r c = r d \<and> aum_hash lib c < aum_hash lib d))"

lemma compare_candidates_comparator: "comparator_on A (compare_candidates lib s)"
  unfolding comparator_on_def compare_candidates_def Let_def by (auto split: if_splits)

lemma compare_candidates_preferred:
  assumes "state_ok s" "length (au_signatures c) < 2 ^ 51" "length (au_signatures d) < 2 ^ 51"
    and "aum_hash lib c \<noteq> aum_hash lib d"
  shows "compare_candidates lib s c d \<noteq> Greater \<longleftrightarrow> preferred lib s c d"
proof -
  let ?w = "\<lambda>a. weight_sum s (au_signatures a) []"
  have c: "unat (signature_weight s c) = ?w c" and d: "unat (signature_weight s d) = ?w d"
    using weight_loop_sum[OF assms(1)] assms(2,3) by (simp_all add: signature_weight_def)
  have less: "signature_weight s d < signature_weight s c \<longleftrightarrow> ?w d < ?w c" "signature_weight s c < signature_weight s d \<longleftrightarrow> ?w c < ?w d"
    by (simp_all only: word_less_nat_alt c d)
  have eq: "signature_weight s d = signature_weight s c \<longleftrightarrow> ?w d = ?w c"
    by (simp only: word_unat_eq_iff c d)
  show ?thesis
    unfolding compare_candidates_def preferred_def Let_def then_with_simps cmp_simps less eq
    using assms(4) by auto
qed

lemma preferred_antisym: "preferred lib s c d \<Longrightarrow> \<not> preferred lib s d c"
  by (auto simp: preferred_def Let_def)

text \<open>A chain for the witnesses: a checkpoint with one key and an update without effect, both signed by it.\<close>

definition sample_key :: tka_key where
  "sample_key = \<lparr>k_kind = Key25519, k_votes = 1, k_public = replicate 32 7, k_meta = None\<rparr>"

definition sample_state :: tka_state where
  "sample_state = \<lparr>st_last_aum_hash = None, st_disablement_values = [replicate 32 1], st_keys = [sample_key],
     st_state_id1 = 5, st_state_id2 = 6\<rparr>"

definition sign_sample :: "aum \<Rightarrow> aum" where
  "sign_sample a = a\<lparr>au_signatures :=
     [\<lparr>sg_key_id = replicate 32 7, sg_signature = aum_sig_hash transparent_lib a @ replicate 32 7\<rparr>]\<rparr>"

definition sample_genesis :: aum where
  "sample_genesis = sign_sample \<lparr>au_kind = Checkpoint, au_prev_aum_hash = None, au_key = None, au_key_id = None,
     au_state = Some sample_state, au_votes = None, au_meta = None, au_signatures = []\<rparr>"

definition sample_update :: aum where
  "sample_update = sign_sample \<lparr>au_kind = NoOp, au_prev_aum_hash = Some (aum_hash transparent_lib sample_genesis),
     au_key = None, au_key_id = None, au_state = None, au_votes = None, au_meta = None, au_signatures = []\<rparr>"

lemma transparent_hash [simp]: "length (aum_hash transparent_lib a) = 32" "length (aum_sig_hash transparent_lib a) = 32"
  by (simp_all add: aum_hash_def aum_sig_hash_def transparent_lib_def)

lemma sig_hash_sign [simp]: "aum_sig_hash lib (sign_sample a) = aum_sig_hash lib a"
  by (simp add: aum_sig_hash_def sign_sample_def)

lemma sample_state_ok: "state_ok sample_state" "validate_checkpoint sample_state = Inr ()"
  by (simp_all add: validate_checkpoint_iff state_ok_def sample_state_def sample_key_def trusted_ok_def tka_key_validate_def)

lemma transparent_ed [simp]:
  "ed_from_bytes transparent_lib k = (length k = 32)" "ed_verify_strict transparent_lib k m sg = (sg = m @ k)"
  by (simp_all add: transparent_lib_def)

lemma sample_signed:
  assumes "st_keys s = [sample_key]"
  shows "\<forall>sg \<in> set (au_signatures (sign_sample a)). trusted_signature transparent_lib s (aum_sig_hash transparent_lib a) sg"
  using assms by (simp add: sign_sample_def trusted_signature_def state_key_def has_id_def tka_key_id_def sample_key_def)

lemma sample_valid: "aum_validate sample_genesis = Inr ()" "aum_validate sample_update = Inr ()"
  by (simp_all add: aum_validate_def sample_genesis_def sample_update_def sign_sample_def sample_state_ok)

lemma sample_verified:
  "verify_aum transparent_lib sample_genesis sample_state True = Inr ()"
  "verify_aum transparent_lib sample_update (with_last_aum transparent_lib sample_state sample_genesis) False = Inr ()"
proof -
  have keys: "st_keys sample_state = [sample_key]" "st_keys (with_last_aum lib sample_state a) = [sample_key]" for lib a
    by (simp_all add: sample_state_def with_last_aum_def)
  have signed: "au_signatures (sign_sample a) \<noteq> []" "au_kind (sign_sample a) = au_kind a" "aum_parent (sign_sample a) = aum_parent a"
    for a by (simp_all add: sign_sample_def aum_parent_def)
  show "verify_aum transparent_lib sample_genesis sample_state True = Inr ()"
    unfolding verify_aum_iff using sample_valid(1) sample_signed[OF keys(1)]
    by (simp add: sample_genesis_def signed removes_last_key_def)
  show "verify_aum transparent_lib sample_update (with_last_aum transparent_lib sample_state sample_genesis) False = Inr ()"
    unfolding verify_aum_iff using sample_valid(2) sample_signed[OF keys(2)]
    by (simp add: sample_update_def signed removes_last_key_def with_last_aum_def aum_parent_def[of "\<lparr>au_kind = _, au_prev_aum_hash = _, au_key = _, au_key_id = _, au_state = _, au_votes = _, au_meta = _, au_signatures = _\<rparr>"] hash_from_slice_def)
qed

subsection \<open>Properties\<close>

text \<open>C31. The state that a chain of messages leads to, oldest first, is well formed: it has at least one
  trusted key, every key is valid with at most 4096 votes, no two keys share an id, and the disablement
  values are 1 to 32 distinct values of 32 bytes.  It keeps the state ids of the checkpoint the chain starts
  from, its head is the hash of the last message, and every message of the chain names the hash of the one
  before it.\<close>

theorem chain_keeps_state_well_formed:
  assumes "state_of_path lib path = Inr s"
  shows "state_ok s \<and> st_last_aum_hash s = Some (aum_hash lib (last path)) \<and>
    (\<exists>genesis rest c. path = genesis # rest \<and> au_kind genesis = Checkpoint \<and> au_state genesis = Some c \<and>
      st_state_id1 s = st_state_id1 c \<and> st_state_id2 s = st_state_id2 c \<and> linked lib genesis rest)"
proof -
  obtain g rest c where p: "path = g # rest" "au_kind g = Checkpoint" "au_state g = Some c"
    and v: "aum_validate g = Inr ()" and f: "try_fold (apply_step lib) rest (with_last_aum lib c g) = Inr s"
    using assms by (auto simp: state_of_path_def result_simps unit_eq verify_aum_iff split: list.splits if_splits)
  have "st_last_aum_hash (with_last_aum lib c g) = Some (aum_hash lib g)" by (simp add: with_last_aum_def)
  from apply_steps[OF f valid_checkpoint_ok[OF v p(3)] this] p show ?thesis by (simp add: with_last_aum_def)
qed

theorem chain_keeps_state_well_formed_witness:
  "\<exists>s. state_of_path transparent_lib [sample_genesis, sample_update] = Inr s \<and> state_ok s \<and>
     st_last_aum_hash s = Some (aum_hash transparent_lib sample_update)"
proof -
  have g: "au_kind sample_genesis = Checkpoint" "au_state sample_genesis = Some sample_state" "aum_parent sample_genesis = None"
    and u: "au_kind sample_update = NoOp" "au_prev_aum_hash sample_update = Some (aum_hash transparent_lib sample_genesis)"
    by (simp_all add: sample_genesis_def sample_update_def sign_sample_def aum_parent_def)
  have "\<exists>s. state_of_path transparent_lib [sample_genesis, sample_update] = Inr s"
    using sample_verified by (simp add: state_of_path_def g u apply_step_def apply_verified_def with_last_aum_def)
  then obtain s where "state_of_path transparent_lib [sample_genesis, sample_update] = Inr s" by blast
  with chain_keeps_state_well_formed[OF this] show ?thesis by simp
qed

text \<open>C32. An update is accepted exactly when it is valid, names the head of the state as its parent (unless it
  starts a chain), carries at least one signature, every one of its signatures is that of a trusted Ed25519
  key of the state over the digest of the message without signatures, and it does not remove the only
  trusted key.\<close>

theorem verify_aum_accepts_exactly:
  "verify_aum lib a s genesis = Inr () \<longleftrightarrow>
     aum_validate a = Inr () \<and>
     (genesis \<or> (\<exists>h. st_last_aum_hash s = Some h \<and> length h = 32 \<and> aum_parent a = Some h)) \<and>
     au_signatures a \<noteq> [] \<and> (\<forall>sg \<in> set (au_signatures a). trusted_signature lib s (aum_sig_hash lib a) sg) \<and>
     \<not> removes_last_key s a"
  by (rule verify_aum_iff)

theorem verify_aum_accepts_exactly_witness:
  "verify_aum transparent_lib sample_genesis sample_state True = Inr () \<and>
   trusted_signature transparent_lib sample_state (aum_sig_hash transparent_lib sample_genesis) (au_signatures sample_genesis ! 0) \<and>
   verify_aum transparent_lib (sample_genesis\<lparr>au_signatures := []\<rparr>) sample_state True \<noteq> Inr ()"
  using sample_verified(1) verify_aum_accepts_exactly[of transparent_lib sample_genesis sample_state True]
    verify_aum_accepts_exactly[of transparent_lib "sample_genesis\<lparr>au_signatures := []\<rparr>" sample_state True]
  by (cases "au_signatures sample_genesis") auto

text \<open>C33. Among competing updates whose hashes differ, every authority makes the same choice, in whatever order
  its storage lists them: the update with the most votes behind its signatures (each key counted once), of
  these one that removes a key, of these the one with the smallest hash.  The state is well formed and no
  update has \<open>2 ^ 51\<close> signatures or more.\<close>

theorem pick_next_is_deterministic:
  assumes "state_ok s" "cs \<noteq> []" "inj_on (aum_hash lib) (set cs)" "\<forall>a \<in> set cs. length (au_signatures a) < 2 ^ 51"
  shows "\<exists>c \<in> set cs. (\<forall>d \<in> set cs. d \<noteq> c \<longrightarrow> preferred lib s c d) \<and>
    (\<forall>cs'. set cs' = set cs \<longrightarrow> pick_next lib s cs' = Some c)"
proof -
  have pick: "\<exists>c \<in> set cs. pick_next lib s ds = Some c \<and> (\<forall>d \<in> set cs. d \<noteq> c \<longrightarrow> preferred lib s c d)"
    if ds: "set ds = set cs" for ds
  proof -
    let ?xs = "sort_by (compare_candidates lib s) ds"
    have set: "set ?xs = set cs" using ds by simp
    then obtain c xs where xs: "?xs = c # xs" using assms(2) by (cases ?xs) auto
    then have c: "c \<in> set cs" using set by auto
    have sorted: "sorted_wrt (\<lambda>x y. compare_candidates lib s x y \<noteq> Greater) (c # xs)"
      using sorted_sort_by[OF compare_candidates_comparator[of "set ds" lib s]] xs by simp
    have "preferred lib s c d" if d: "d \<in> set cs" "d \<noteq> c" for d
    proof -
      have "d \<in> set xs" using d set xs by auto
      then have "compare_candidates lib s c d \<noteq> Greater" using sorted by simp
      moreover have "aum_hash lib c \<noteq> aum_hash lib d" using inj_onD[OF assms(3) _ c d(1)] d(2) by blast
      ultimately show ?thesis using compare_candidates_preferred[OF assms(1)] assms(4) c d(1) by blast
    qed
    with c xs show ?thesis by (auto simp: pick_next_def)
  qed
  then obtain c where c: "c \<in> set cs" "\<forall>d \<in> set cs. d \<noteq> c \<longrightarrow> preferred lib s c d" by blast
  have "pick_next lib s ds = Some c" if ds: "set ds = set cs" for ds
  proof -
    obtain e where e: "e \<in> set cs" "pick_next lib s ds = Some e" "\<forall>d \<in> set cs. d \<noteq> e \<longrightarrow> preferred lib s e d"
      using pick[OF ds] by blast
    have "e = c"
    proof (rule ccontr)
      assume "e \<noteq> c"
      then have "preferred lib s c e" "preferred lib s e c" using c e(1,3) by auto
      then show False using preferred_antisym by blast
    qed
    then show ?thesis using e(2) by simp
  qed
  with c show ?thesis by blast
qed

definition sample_choice :: "aum_kind \<Rightarrow> aum" where
  "sample_choice kind = \<lparr>au_kind = kind, au_prev_aum_hash = None, au_key = None, au_key_id = Some [9],
     au_state = None, au_votes = None, au_meta = None, au_signatures = []\<rparr>"

theorem pick_next_is_deterministic_witness:
  "pick_next transparent_lib sample_state [sample_choice NoOp, sample_choice RemoveKey] = Some (sample_choice RemoveKey) \<and>
   pick_next transparent_lib sample_state [sample_choice RemoveKey, sample_choice NoOp] = Some (sample_choice RemoveKey)"
proof -
  let ?cs = "[sample_choice NoOp, sample_choice RemoveKey]"
  have kinds: "au_kind (sample_choice k) = k" "au_signatures (sample_choice k) = []" for k by (simp_all add: sample_choice_def)
  have "aum_hash transparent_lib (sample_choice NoOp) \<noteq> aum_hash transparent_lib (sample_choice RemoveKey)"
    by (simp add: aum_hash_def aum_encode_def encode_value_def transparent_lib_def aum_value_def sample_choice_def
        canonical_sort_def sort_by_def canonical_key_cmp_def cmp_def then_with_def head_enc_def aum_kind_to_u8_def)
  then have "inj_on (aum_hash transparent_lib) (set ?cs)" by (simp add: inj_on_def)
  then obtain c where c: "c \<in> set ?cs" "\<forall>d \<in> set ?cs. d \<noteq> c \<longrightarrow> preferred transparent_lib sample_state c d"
    "\<And>cs'. set cs' = set ?cs \<Longrightarrow> pick_next transparent_lib sample_state cs' = Some c"
    using pick_next_is_deterministic[OF sample_state_ok(1), of ?cs transparent_lib] kinds(2) by auto
  have "sample_choice NoOp \<noteq> sample_choice RemoveKey" by (simp add: sample_choice_def)
  then have "c = sample_choice RemoveKey" using c(1,2) by (auto simp: preferred_def kinds)
  with c(3)[of ?cs] c(3)[of "rev ?cs"] show ?thesis by (simp add: insert_commute)
qed

end
