(* ===== verification/Spec2Isabelle.thy ===== *)
theory Spec2Isabelle
  imports Filter_Properties Disco_Roundtrip Tka_Codec Tka_Verify
begin

text \<open>
  \<^bold>\<open>A verification development for rustscale.\<close>

  rustscale is a mesh-VPN client, a Rust port of Tailscale.  A node talks to a control plane, which sends
  it the keys of its peers and packet-filter rules; peers find each other with disco messages, exchange
  WireGuard packets directly or through relays, and every packet that leaves the tunnel is decoded and
  checked before it reaches the host.  The development covers the deterministic core of that path:
  packets, the filter and its state, prefix sets and routing tables, the keys and the disco wire format,
  the change detection that decides when a filter is rebuilt, and the messages and states of the tailnet key
  authority, which says whose keys are trusted.

  \<^bold>\<open>Conventions.\<close>  A Rust integer is a word of its width; a byte slice is a list of 8-bit words; a string is
  the list of its UTF-8 bytes; a \<open>BTreeMap\<close> is the list of its entries in iteration order, a \<open>HashMap\<close> an
  association list or a map.  A function that returns a \<open>Result\<close> returns a sum, the error on the left.  A
  function that can panic (index out of range, \<open>expect\<close>, \<open>assert\<close>) returns an option, and \<open>None\<close> is the
  panic: that an operation never panics is a theorem, not an assumption.  The one exception are the indices into
  the octets of a prefix and into the arrays of a stride table of the routing table, which are total functions
  in the model; lemmas show that they are in range (\<open>byte_index_in_range\<close>, \<open>final_byte_in_range\<close>,
  \<open>stride_index_in_range\<close>).  Stateful code takes and returns
  the record that models the \<open>struct\<close>; locks disappear, since each operation holds its lock throughout.
  Third-party crates (SHA-256, BLAKE2s, CBOR, hex, NaCl boxes, Ed25519) are parameters, records of functions, and
  what the code relies on is a named predicate on them (\<open>hex_ok\<close>, \<open>box_ok\<close>, \<open>cbor_ok\<close>); each such predicate has a
  concrete instance that satisfies it.

  \<^bold>\<open>Foundations.\<close>

  \<^item> \<open>Prelude\<close>: words, bytes and bit lists, big-endian conversions.
  \<^item> \<open>Std_Net\<close>: addresses of \<open>std::net\<close> with their parser, slices, string splitting, integer operations.
  \<^item> \<open>Std_Result\<close>: results and early return, orderings and the stable sort, ordered maps, UTF-8.
  \<^item> \<open>Prefix_Spec\<close>, \<open>Lpm_Spec\<close>: interfaces, as locales, of prefix containment and of longest-prefix tables.

  \<^bold>\<open>Packets and filter\<close> (\<open>crates/packet\<close>, \<open>crates/filter\<close>, \<open>crates/flowtrack\<close>, \<open>crates/tailcfg/src/filter.rs\<close>).

  \<^item> \<open>Packet\<close>: \<open>packet/src/lib.rs\<close>, both decoders and the header accessors.  Neither decoder panics on any
    buffer, they agree except on what counts as an echo reply, and the IPv6 extension-header walk reaches the header that the chain
    leads to; the accessors panic exactly on a wrong version or a truncated header.
  \<^item> \<open>Filter_Prefix\<close>: \<open>filter/src/prefix.rs\<close>.  A range of addresses becomes prefixes that cover exactly it.
  \<^item> \<open>Flowtrack\<close>: \<open>flowtrack/src/lib.rs\<close>, the arena of list nodes, the index and the free list of the LRU
    cache.  Any sequence of operations behaves as the abstract LRU list and never panics.
  \<^item> \<open>Tailcfg_Filter\<close>, \<open>Filter_Match\<close>, \<open>Filter_Parse\<close>: the rules as the control plane sends them
    (\<open>tailcfg/src/filter.rs\<close>), the compiled rules (\<open>filter/src/match.rs\<close>) and the compiler
    (\<open>parse.rs\<close>).  Compilation succeeds exactly on well-formed rules, and a compiled rule set matches the
    packets that the rules allow.
  \<^item> \<open>Packet_Filter\<close>: \<open>filter/src/lib.rs\<close> and \<open>state.rs\<close>, every public operation of the filter.
  \<^item> \<open>Filter_Spec\<close>, \<open>Filter_Runs\<close>, \<open>Filter_Properties\<close>: an abstract filter over the rules as sent and an
    abstract flow list, the simulation, and its consequences: verdicts follow the specification, replies to
    outbound packets are admitted, shields up admit only established traffic, the flow state is bounded,
    capability grants are reported, and the inputs hash detects changes.

  \<^bold>\<open>Prefix tables\<close> (\<open>crates/art\<close>, \<open>crates/ipset\<close>).

  \<^item> \<open>Art_Prefix\<close>, \<open>Art_Stride\<close>, \<open>Art_Tree\<close>, \<open>Art_Update\<close>, \<open>Art_Delete\<close>, \<open>Art_Table\<close>: the allotment routing
    table: prefixes, one 8-bit stride with its allotment tree, the path-compressed trie of strides, insertion,
    deletion, and the table with its slot vector.  The table is a map from masked prefixes to values under any
    operations, lookup returns the longest prefix that contains the address, and slots are reused.
  \<^item> \<open>Ipset\<close>: the seven representations of a prefix set; they all decide membership in the union.

  \<^bold>\<open>Hashing\<close> (\<open>crates/deephash\<close>): \<open>Deephash\<close>, the block-buffered hasher, the combinators for standard types
  and filter rules; the digest is that of the concatenated input, and the encodings are uniquely decodable.

  \<^bold>\<open>Keys and disco\<close> (\<open>crates/key\<close>, \<open>crates/disco\<close>).

  \<^item> \<open>Key\<close>: node, machine, disco and network-lock keys, text forms, clamping and boxes, with round trips.
  \<^item> \<open>Disco\<close>, \<open>Disco_Roundtrip\<close>: the disco messages, their wire format and the sealed envelope; parsing
    undoes marshalling up to the canonical form of a message, and parsing is total.

  \<^bold>\<open>Tailnet key authority\<close> (\<open>crates/tka\<close>).

  \<^item> \<open>Tka_Cbor\<close>: the CBOR limits, the scanner, the nesting check and the field accessors of \<open>aum.rs\<close>.
  \<^item> \<open>Tka_Scan\<close>, \<open>Cbor_Reference\<close>: the scanner accepts exactly a grammar of bounded definite-length items;
    the encoding of RFC 8949, with a reader, as reference for the CBOR library.
  \<^item> \<open>Tka_Types\<close>, \<open>Tka_Codec\<close>: keys, states and authority update messages (\<open>key.rs\<close>, \<open>state.rs\<close>, \<open>aum.rs\<close>),
    their validation and wire values; decoding what was encoded gives the message back, with empty metadata
    dropped.
  \<^item> \<open>Tka_State\<close>: application of an update to the state (\<open>State::apply_verified\<close>) and the invariant of states.
  \<^item> \<open>Tka_Verify\<close>: from \<open>authority.rs\<close> the verification of an update, the state at the end of a given chain and
    the choice between competing updates; the state stays well formed, an update is accepted exactly when it
    is signed by trusted keys, and the choice does not depend on the order of the candidates.

  \<^bold>\<open>Interfaces.\<close>  \<open>prefix_containment\<close> (interpreted for the prefixes of the filter and of the routing table),
  \<open>lru_interface\<close> (the flow cache), \<open>route_table\<close> (the routing table) and \<open>ip_membership\<close> (the prefix sets) are
  locales whose laws the providers discharge; the clients' lemmas are proved once inside them.

  \<^bold>\<open>Bounds and termination.\<close>  Every loop of the source is a total function: the extension-header walk by the
  remaining bytes, the range decomposition by the distance to the end of the address space, the allotment by
  its index, the trie walks by the structure of the trie, the CBOR scanner by the nesting depth and the
  number of elements.  No fuel is used.  Lengths are those of a 64-bit
  machine.

  \<^bold>\<open>Not modelled.\<close>  Of the key authority: the storage of messages (\<open>chonk.rs\<close>) and the operations of
  \<open>authority.rs\<close> over it (\<open>open\<close>, \<open>create\<close>, \<open>bootstrap\<close>, \<open>inform\<close>, \<open>path_to_root\<close>, \<open>fast_forward\<close>), the update
  builder (\<open>builder.rs\<close>), synchronisation (\<open>sync.rs\<close>), node-key signatures (\<open>sig.rs\<close>) and disablement secrets
  (\<open>disablement.rs\<close>).  Elsewhere: text formatting (\<open>Display\<close>, \<open>Debug\<close>), serde (de)serialisation, logging and metrics; the
  interleaving of threads inside an operation; the parts of the system that are asynchronous I/O, timers or
  operating-system calls (the control client, magicsock, DERP, netcheck, the routers and TUN devices, tsnet
  and the daemons), whose behaviour lies in the libraries and the kernel they call; generated and embedded
  data; test infrastructure and front ends.
\<close>

end
